(* ===== verification/Prelude.thy ===== *)
theory Prelude
  imports "HOL-Library.Word" "HOL-Library.Monad_Syntax"
begin

text \<open>
  Shared ground of the development: the machine integer types of the C++ sources, the model of
  undefined behaviour, bounds-checked memory reads, and the generic facts about powers of two,
  masks and circular buffers that the components use.

  A computation that may run into undefined behaviour (an array access outside its object, a null
  dereference) has a result of type \<open>'a option\<close>: \<open>None\<close> is undefined behaviour, and the
  \<open>do\<close> notation of the option monad sequences such computations.  A theorem that a component
  returns \<open>Some\<close> therefore says that it is memory safe and that it returns.
\<close>

unbundle bit_operations_syntax

section \<open>Machine types\<close>

type_synonym u8 = "8 word"
type_synonym u16 = "16 word"
type_synonym u32 = "32 word"
type_synonym u64 = "64 word"
type_synonym size_t = "64 word"
type_synonym byte = "8 word"
type_synonym bytes = "byte list"

named_theorems layout_simps \<open>offsets and sizes of packed structs, evaluated\<close>
named_theorems ring_simps \<open>index arithmetic of circular buffers\<close>
named_theorems codec_simps \<open>big-endian reads of big-endian writes\<close>
named_theorems no_ub \<open>operations that return on states satisfying their invariant\<close>

section \<open>Bounds-checked memory\<close>

text \<open>
  A \<open>const uint8_t *\<close> is the list of the bytes readable from it on; \<open>p + n\<close> is
  \<open>ptr_add p n\<close>.  A read past the end of the object is undefined behaviour.
\<close>

definition ptr_add :: "bytes \<Rightarrow> nat \<Rightarrow> bytes" where
  "ptr_add p n = drop n p"

definition load :: "'a list \<Rightarrow> nat \<Rightarrow> 'a option" where
  "load xs i = (if i < length xs then Some (xs ! i) else None)"

definition store :: "'a list \<Rightarrow> nat \<Rightarrow> 'a \<Rightarrow> 'a list option" where
  "store xs i x = (if i < length xs then Some (xs[i := x]) else None)"

text \<open>The window of \<open>c\<close> elements of a circular buffer that starts at position \<open>t\<close>.\<close>

definition ring_slice :: "'a list \<Rightarrow> nat \<Rightarrow> nat \<Rightarrow> 'a list" where
  "ring_slice buf t c = map (\<lambda>i. buf ! ((t + i) mod length buf)) [0..<c]"

text \<open>The \<open>static_assert\<close> of both queues: \<open>(Size & (Size - 1)) == 0\<close>.\<close>

definition size_assert :: "size_t \<Rightarrow> bool" where
  "size_assert Size \<longleftrightarrow> Size AND (Size - 1) = 0"

section \<open>Memory\<close>

lemma load_Some [simp]: "i < length xs \<Longrightarrow> load xs i = Some (xs ! i)"
  by (simp add: load_def)

lemma load_None_iff [simp]: "load xs i = None \<longleftrightarrow> length xs \<le> i"
  by (simp add: load_def not_less)

lemma load_eq_Some_iff: "load xs i = Some x \<longleftrightarrow> i < length xs \<and> x = xs ! i"
  by (auto simp: load_def)

lemma store_Some [simp]: "i < length xs \<Longrightarrow> store xs i x = Some (xs[i := x])"
  by (simp add: store_def)

lemma store_None_iff [simp]: "store xs i x = None \<longleftrightarrow> length xs \<le> i"
  by (simp add: store_def not_less)

lemma store_eq_Some_iff: "store xs i x = Some ys \<longleftrightarrow> i < length xs \<and> ys = xs[i := x]"
  by (auto simp: store_def)

lemma load_ptr_add [simp]: "load (ptr_add p n) i = load p (n + i)"
  by (auto simp: load_def ptr_add_def)

lemma length_ptr_add [simp]: "length (ptr_add p n) = length p - n"
  by (simp add: ptr_add_def)

lemma load_take [simp]: "i < n \<Longrightarrow> load (take n xs) i = load xs i"
  by (auto simp: load_def)

lemma load_append_left [simp]: "i < length xs \<Longrightarrow> load (xs @ ys) i = load xs i"
  by (auto simp: load_def nth_append)

lemma ptr_add_0 [simp]: "ptr_add p 0 = p"
  by (simp add: ptr_add_def)

lemma ptr_add_take [simp]: "ptr_add (take n p) m = take (n - m) (ptr_add p m)"
  by (simp add: ptr_add_def drop_take)

lemma ptr_add_ptr_add [simp]: "ptr_add (ptr_add p m) n = ptr_add p (m + n)"
  by (simp add: ptr_add_def add.commute)

lemma ptr_add_append [simp]: "length xs = n \<Longrightarrow> ptr_add (xs @ ys) n = ys"
  by (simp add: ptr_add_def)

section \<open>Powers of two and masks\<close>

lemma unat_ucast_up:
  fixes x :: "'a::len word"
  assumes "LENGTH('a) \<le> LENGTH('b::len)"
  shows "unat (ucast x :: 'b word) = unat x"
proof -
  have "unat x < 2 ^ LENGTH('a)" by (rule unsigned_less)
  also have "(2 :: nat) ^ LENGTH('a) \<le> 2 ^ LENGTH('b)" using assms by (rule power_increasing) simp
  finally have "unat x < 2 ^ LENGTH('b)" .
  then show ?thesis by (simp add: unsigned_ucast_eq take_bit_nat_eq_self)
qed

lemma unat_ucast_widen [simp]:
  "unat (ucast (x8 :: u8) :: u64) = unat x8"
  "unat (ucast (x16 :: u16) :: u64) = unat x16"
  "unat (ucast (x32 :: u32) :: u64) = unat x32"
  "unat (ucast (x16 :: u16) :: u32) = unat x16"
  by (rule unat_ucast_up; simp)+

lemma unat_less_2p64: "unat (x :: 64 word) < 2 ^ 64"
  using unsigned_less[of x] by simp

lemma nat_and_pred_zero_imp_pow2:
  fixes m :: nat
  assumes "0 < m" and "m AND (m - 1) = 0"
  shows "\<exists>k. m = 2 ^ k"
  using assms
proof (induction m rule: less_induct)
  case (less m)
  show ?case
  proof (cases "even m")
    case True
    then obtain a where a: "m = 2 * a" by blast
    with less.prems have "0 < a" by simp
    then have "m - 1 = 2 * (a - 1) + 1" using a by simp
    moreover have "(2 * a) AND (2 * (a - 1) + 1) = 2 * (a AND (a - 1))"
      by (subst and_nat_rec) simp
    ultimately have "a AND (a - 1) = 0" using less.prems(2) a by simp
    with less.IH[of a] a \<open>0 < a\<close> obtain k where "a = 2 ^ k" by auto
    with a have "m = 2 ^ Suc k" by simp
    then show ?thesis by blast
  next
    case False
    then obtain a where a: "m = 2 * a + 1" by (auto elim: oddE)
    have "(2 * a + 1) AND (2 * a) = 2 * (a AND a)"
      by (subst and_nat_rec) simp
    with less.prems(2) a have "a = 0" by simp
    with a have "m = 2 ^ 0" by simp
    then show ?thesis by blast
  qed
qed

lemma size_assert_pow2:
  assumes "size_assert n" and "n \<noteq> 0"
  shows "\<exists>k < 64. n = 2 ^ k \<and> unat n = 2 ^ k"
proof -
  have pos: "0 < unat n" using assms(2) by (simp add: unat_gt_0)
  have "unat (n - 1) = unat n - 1"
    using assms(2) by (metis unat_minus_one)
  moreover have "unat (n AND (n - 1)) = unat n AND unat (n - 1)"
    by (simp add: unsigned_and_eq)
  ultimately have "unat n AND (unat n - 1) = 0"
    using assms(1) by (simp add: size_assert_def)
  with pos obtain k where k: "unat n = 2 ^ k"
    using nat_and_pred_zero_imp_pow2 by blast
  have "unat n < 2 ^ 64" using unsigned_less[of n] by simp
  with k have "(2::nat) ^ k < 2 ^ 64" by metis
  then have "k < 64" by (rule power_less_imp_less_exp[rotated]) simp
  moreover have "n = 2 ^ k" using k by (metis of_nat_unat ucast_id of_nat_power of_nat_numeral)
  ultimately show ?thesis using k by blast
qed

lemma mask_index [ring_simps]:
  assumes "size_assert n" and "n \<noteq> 0"
  shows "unat (x AND (n - 1)) = unat x mod unat n"
proof -
  obtain k where k: "n = 2 ^ k" "unat n = 2 ^ k" using size_assert_pow2[OF assms] by blast
  have "x AND (n - 1) = take_bit k x" by (simp add: k take_bit_eq_mask mask_eq_exp_minus_1)
  then have "unat (x AND (n - 1)) = take_bit k (unat x)" by (simp only: unsigned_take_bit_eq)
  then show ?thesis by (simp add: k(2) take_bit_eq_mod)
qed

section \<open>Circular buffers\<close>

lemma mod_eq_within [ring_simps]:
  fixes a b n :: nat
  assumes "a mod n = b mod n" and "a \<le> b" and "b < a + n"
  shows "a = b"
proof -
  have "n dvd b - a" using assms(1,2) by (metis mod_eq_dvd_iff_nat)
  moreover have "b - a < n" using assms(2,3) by arith
  ultimately have "b - a = 0" by (meson dvd_imp_le not_le gr_zeroI)
  with assms(2) show ?thesis by simp
qed

lemma mod_eq_within_window:
  fixes a b lo n :: nat
  assumes "a mod n = b mod n" and "lo \<le> a" "a < lo + n" and "lo \<le> b" "b < lo + n"
  shows "a = b"
  using assms mod_eq_within[of a n b] mod_eq_within[of b n a] by (cases "a \<le> b") auto

lemma length_ring_slice [simp]: "length (ring_slice buf t c) = c"
  by (simp add: ring_slice_def)

lemma ring_slice_push [ring_simps]:
  assumes "c < length buf"
  shows "ring_slice (buf[(t + c) mod length buf := x]) t (Suc c) = ring_slice buf t c @ [x]"
proof -
  let ?n = "length buf"
  have neq: "(t + c) mod ?n \<noteq> (t + i) mod ?n" if "i < c" for i
    using mod_eq_within[of "t + i" ?n "t + c"] that assms by auto
  have "(t + c) mod ?n < ?n" using assms by (intro mod_less_divisor) auto
  then show ?thesis by (auto simp: ring_slice_def neq)
qed

lemma ring_slice_pop [ring_simps]:
  "ring_slice buf t (Suc c) = buf ! (t mod length buf) # ring_slice buf (Suc t mod length buf) c"
proof (rule nth_equalityI)
  show "ring_slice buf t (Suc c) ! i =
    (buf ! (t mod length buf) # ring_slice buf (Suc t mod length buf) c) ! i"
    if "i < length (ring_slice buf t (Suc c))" for i
    using that by (cases i) (auto simp: ring_slice_def mod_add_left_eq nth_append less_Suc_eq
        simp del: upt_Suc)
qed simp

lemma ring_slice_mod [simp]: "ring_slice buf (t mod length buf) c = ring_slice buf t c"
  by (simp add: ring_slice_def mod_add_left_eq)

end
