(* ===== verification/Queue_Interface.thy ===== *)
theory Queue_Interface
  imports Prelude
begin

text \<open>
  What the queues of \<open>core/distribution/lockfree_queue.hpp\<close> promise their clients (the receiver and
  the dispatcher): a bounded first-in first-out queue.  The abstract specification works on a list
  and a capacity; \<open>bounded_fifo\<close> is the contract an implementation discharges, and its lemmas are
  what the clients use.  \<open>push\<close> returns \<open>None\<close> on undefined behaviour; \<open>pop\<close> models
  \<open>bool pop(T &item)\<close>: the inner option is \<open>None\<close> when the call returns \<open>false\<close> (the
  argument is then not written) and \<open>Some x\<close> when it returns \<open>true\<close> with \<open>x\<close> stored.
\<close>

section \<open>Abstract specification\<close>

datatype 'a qop = Push 'a | Pop

datatype 'a qres = Pushed bool | Popped "'a option"

fun spec_step :: "nat \<Rightarrow> 'a qop \<Rightarrow> 'a list \<Rightarrow> 'a qres \<times> 'a list" where
  "spec_step cap (Push x) xs =
     (if length xs < cap then (Pushed True, xs @ [x]) else (Pushed False, xs))"
| "spec_step cap Pop xs =
     (case xs of [] \<Rightarrow> (Popped None, []) | x # ys \<Rightarrow> (Popped (Some x), ys))"

fun spec_run :: "nat \<Rightarrow> 'a qop list \<Rightarrow> 'a list \<Rightarrow> 'a qres list \<times> 'a list" where
  "spec_run cap [] xs = ([], xs)"
| "spec_run cap (p # ps) xs =
     (let (r, ys) = spec_step cap p xs; (rs, zs) = spec_run cap ps ys in (r # rs, zs))"

text \<open>The items a run accepted, and the items it handed out, in order.\<close>

fun accepted :: "'a qop list \<Rightarrow> 'a qres list \<Rightarrow> 'a list" where
  "accepted (Push x # ps) (Pushed b # rs) = (if b then x # accepted ps rs else accepted ps rs)"
| "accepted (p # ps) (r # rs) = accepted ps rs"
| "accepted _ _ = []"

fun handed_out :: "'a qres list \<Rightarrow> 'a list" where
  "handed_out (Popped (Some x) # rs) = x # handed_out rs"
| "handed_out (r # rs) = handed_out rs"
| "handed_out [] = []"

text \<open>A sequence of calls on an implementation, given by its two operations.\<close>

fun run_ops :: "('a \<Rightarrow> 'q \<Rightarrow> (bool \<times> 'q) option) \<Rightarrow> ('q \<Rightarrow> ('a option \<times> 'q) option) \<Rightarrow>
    'a qop list \<Rightarrow> 'q \<Rightarrow> ('a qres list \<times> 'q) option" where
  "run_ops push pop [] q = Some ([], q)"
| "run_ops push pop (Push x # ps) q =
     do { (b, q) \<leftarrow> push x q; (rs, q) \<leftarrow> run_ops push pop ps q; Some (Pushed b # rs, q) }"
| "run_ops push pop (Pop # ps) q =
     do { (r, q) \<leftarrow> pop q; (rs, q) \<leftarrow> run_ops push pop ps q; Some (Popped r # rs, q) }"

section \<open>First-in first-out order of the specification\<close>

lemma spec_step_length: "length xs \<le> cap \<Longrightarrow> length (snd (spec_step cap p xs)) \<le> cap"
  by (cases p) (auto split: list.splits)

lemma spec_run_length: "length xs \<le> cap \<Longrightarrow> length (snd (spec_run cap ps xs)) \<le> cap"
  by (induction ps arbitrary: xs) (auto simp: split_beta Let_def spec_step_length)

lemma spec_run_fifo:
  "xs @ accepted ps (fst (spec_run cap ps xs)) =
     handed_out (fst (spec_run cap ps xs)) @ snd (spec_run cap ps xs)"
proof (induction ps arbitrary: xs)
  case (Cons p ps)
  show ?case
  proof (cases p)
    case (Push x)
    then show ?thesis using Cons.IH[of xs] Cons.IH[of "xs @ [x]"] by (simp add: split_beta Let_def)
  next
    case Pop
    then show ?thesis
      using Cons.IH by (cases xs) (simp_all add: split_beta Let_def)
  qed
qed simp

section \<open>The contracts\<close>

text \<open>
  The weaker contract is for a number of calls: \<open>inv n q\<close> promises correct behaviour for \<open>n\<close> more
  calls, as \<open>MPSCQueue\<close> can only promise while its position counters stay below 2^63.
\<close>

locale budgeted_fifo =
  fixes push :: "'a \<Rightarrow> 'q \<Rightarrow> (bool \<times> 'q) option"
    and pop :: "'q \<Rightarrow> ('a option \<times> 'q) option"
    and contents :: "'q \<Rightarrow> 'a list"
    and cap :: "'q \<Rightarrow> nat"
    and inv :: "nat \<Rightarrow> 'q \<Rightarrow> bool"
  assumes push_full: "inv (Suc n) q \<Longrightarrow> length (contents q) = cap q \<Longrightarrow> push x q = Some (False, q)"
    and push_room: "inv (Suc n) q \<Longrightarrow> length (contents q) < cap q \<Longrightarrow>
      \<exists>q'. push x q = Some (True, q') \<and> inv n q' \<and> contents q' = contents q @ [x] \<and> cap q' = cap q"
    and pop_empty: "inv (Suc n) q \<Longrightarrow> contents q = [] \<Longrightarrow> pop q = Some (None, q)"
    and pop_Cons: "inv (Suc n) q \<Longrightarrow> contents q = x # xs \<Longrightarrow>
      \<exists>q'. pop q = Some (Some x, q') \<and> inv n q' \<and> contents q' = xs \<and> cap q' = cap q"
    and bounded: "inv n q \<Longrightarrow> length (contents q) \<le> cap q"
    and inv_less: "inv (Suc n) q \<Longrightarrow> inv n q"
begin

lemma step_refines:
  assumes "inv (Suc n) q"
  shows "\<exists>q'. run_ops push pop [p] q = Some ([fst (spec_step (cap q) p (contents q))], q') \<and>
    inv n q' \<and> contents q' = snd (spec_step (cap q) p (contents q)) \<and> cap q' = cap q"
proof (cases p)
  case (Push x)
  then show ?thesis
    using push_full[OF assms, of x] push_room[OF assms, of x] bounded[OF assms] inv_less[OF assms]
    by (cases "length (contents q) < cap q") auto
next
  case Pop
  then show ?thesis
    using pop_empty[OF assms] pop_Cons[OF assms] inv_less[OF assms] by (cases "contents q") auto
qed

lemma run_Cons: "run_ops push pop [p] q = Some ([r], q') \<Longrightarrow>
  run_ops push pop (p # ps) q = map_option (\<lambda>(rs, q''). (r # rs, q'')) (run_ops push pop ps q')"
  by (cases p) (auto split: bind_splits)

lemma run_refines:
  assumes "inv (length ps) q"
  shows "\<exists>q'. run_ops push pop ps q = Some (fst (spec_run (cap q) ps (contents q)), q') \<and>
    inv 0 q' \<and> contents q' = snd (spec_run (cap q) ps (contents q)) \<and> cap q' = cap q"
  using assms
proof (induction ps arbitrary: q)
  case (Cons p ps)
  obtain q1 where q1: "run_ops push pop [p] q = Some ([fst (spec_step (cap q) p (contents q))], q1)"
    "inv (length ps) q1" "contents q1 = snd (spec_step (cap q) p (contents q))" "cap q1 = cap q"
    using step_refines[of "length ps" q p] Cons.prems by auto
  show ?case using Cons.IH[OF q1(2)] q1(3,4) by (auto simp: run_Cons[OF q1(1)] split_beta Let_def)
qed simp

end

locale bounded_fifo =
  fixes push :: "'a \<Rightarrow> 'q \<Rightarrow> (bool \<times> 'q) option"
    and pop :: "'q \<Rightarrow> ('a option \<times> 'q) option"
    and contents :: "'q \<Rightarrow> 'a list"
    and cap :: "'q \<Rightarrow> nat"
    and inv :: "'q \<Rightarrow> bool"
  assumes push_full: "inv q \<Longrightarrow> length (contents q) = cap q \<Longrightarrow> push x q = Some (False, q)"
    and push_room: "inv q \<Longrightarrow> length (contents q) < cap q \<Longrightarrow>
      \<exists>q'. push x q = Some (True, q') \<and> inv q' \<and> contents q' = contents q @ [x] \<and> cap q' = cap q"
    and pop_empty: "inv q \<Longrightarrow> contents q = [] \<Longrightarrow> pop q = Some (None, q)"
    and pop_Cons: "inv q \<Longrightarrow> contents q = x # xs \<Longrightarrow>
      \<exists>q'. pop q = Some (Some x, q') \<and> inv q' \<and> contents q' = xs \<and> cap q' = cap q"
    and bounded: "inv q \<Longrightarrow> length (contents q) \<le> cap q"
begin

lemma push_cases:
  assumes "inv q"
  obtains (full) "length (contents q) = cap q" "push x q = Some (False, q)"
  | (room) q' where "length (contents q) < cap q" "push x q = Some (True, q')" "inv q'"
      "contents q' = contents q @ [x]" "cap q' = cap q"
  using push_full[OF assms] push_room[OF assms] bounded[OF assms]
  by (metis le_neq_implies_less)

lemma pop_cases:
  assumes "inv q"
  obtains (empty) "contents q = []" "pop q = Some (None, q)"
  | (item) x q' where "pop q = Some (Some x, q')" "contents q = x # contents q'" "inv q'"
      "cap q' = cap q"
  using pop_empty[OF assms] pop_Cons[OF assms] by (metis list.exhaust)

lemma push_no_ub: "inv q \<Longrightarrow> push x q \<noteq> None"
  by (metis option.distinct(1) push_cases)

lemma pop_no_ub: "inv q \<Longrightarrow> pop q \<noteq> None"
  by (metis option.distinct(1) pop_cases)

lemma push_SomeD:
  assumes "inv q" and "push x q = Some (b, q')"
  shows "inv q' \<and> cap q' = cap q \<and> b = (length (contents q) < cap q) \<and>
    contents q' = contents q @ (if b then [x] else [])"
  by (rule push_cases[OF assms(1), of x]) (use assms in auto)

lemma pop_SomeD:
  assumes "inv q" and "pop q = Some (r, q')"
  shows "inv q' \<and> cap q' = cap q \<and>
    contents q = (case r of None \<Rightarrow> [] | Some x \<Rightarrow> [x]) @ contents q'"
  by (rule pop_cases[OF assms(1)]) (use assms in auto)

lemma push_then_pop:
  assumes "inv q" and "contents q = []" and "0 < cap q"
  shows "\<exists>q' q''. push x q = Some (True, q') \<and> pop q' = Some (Some x, q'') \<and> contents q'' = []"
  using push_room[OF assms(1), of x] pop_Cons[of _ x "[]"] assms by fastforce

end

sublocale bounded_fifo \<subseteq> budget: budgeted_fifo push pop contents cap "\<lambda>_. inv"
  by unfold_locales (simp_all add: push_full push_room pop_empty pop_Cons bounded)

end
