(* ===== verification/SPSC_Queue.thy ===== *)
theory SPSC_Queue
  imports Queue_Interface
begin

text \<open>
  \<open>SPSCQueue\<close> of \<open>core/distribution/lockfree_queue.hpp\<close>, operation by operation, as one thread sees
  it.  The template parameter \<open>Size\<close> is carried in the object.  The element types the library
  instantiates (\<open>NormalizedMessage\<close> and \<open>Packet\<close>) are trivially copyable, so \<open>std::move\<close> out of a
  slot or into it copies.  The interleaved executions of the two threads are in
  \<open>SPSC_Concurrent\<close>.
\<close>

section \<open>Definitions\<close>

record 'a SPSCQueue =
  sq_Size :: size_t
  sq_head :: size_t
  sq_tail :: size_t
  sq_buffer :: "'a list"

text \<open>\<open>dflt\<close> is the value-initialised \<open>T\<close> that \<open>make_unique\<close> puts in every slot.\<close>

definition SPSCQueue_new :: "size_t \<Rightarrow> 'a \<Rightarrow> 'a SPSCQueue" where
  "SPSCQueue_new Size dflt =
     \<lparr>sq_Size = Size, sq_head = 0, sq_tail = 0, sq_buffer = replicate (unat Size) dflt\<rparr>"

definition spsc_push :: "'a \<Rightarrow> 'a SPSCQueue \<Rightarrow> (bool \<times> 'a SPSCQueue) option" where
  "spsc_push item q =
     (let head = sq_head q;
          next_head = (head + 1) AND (sq_Size q - 1)
      in if next_head = sq_tail q then Some (False, q)
         else do {
           buf \<leftarrow> store (sq_buffer q) (unat head) item;
           Some (True, q\<lparr>sq_buffer := buf, sq_head := next_head\<rparr>)
         })"

definition spsc_push_move :: "'a \<Rightarrow> 'a SPSCQueue \<Rightarrow> (bool \<times> 'a SPSCQueue) option" where
  "spsc_push_move item q =
     (let head = sq_head q;
          next_head = (head + 1) AND (sq_Size q - 1)
      in if next_head = sq_tail q then Some (False, q)
         else do {
           buf \<leftarrow> store (sq_buffer q) (unat head) item;
           Some (True, q\<lparr>sq_buffer := buf, sq_head := next_head\<rparr>)
         })"

definition spsc_pop :: "'a SPSCQueue \<Rightarrow> ('a option \<times> 'a SPSCQueue) option" where
  "spsc_pop q =
     (let tail = sq_tail q
      in if tail = sq_head q then Some (None, q)
         else do {
           item \<leftarrow> load (sq_buffer q) (unat tail);
           Some (Some item, q\<lparr>sq_tail := (tail + 1) AND (sq_Size q - 1)\<rparr>)
         })"

definition spsc_empty :: "'a SPSCQueue \<Rightarrow> bool" where
  "spsc_empty q \<longleftrightarrow> sq_tail q = sq_head q"

definition spsc_full :: "'a SPSCQueue \<Rightarrow> bool" where
  "spsc_full q \<longleftrightarrow> (sq_head q + 1) AND (sq_Size q - 1) = sq_tail q"

definition spsc_size :: "'a SPSCQueue \<Rightarrow> size_t" where
  "spsc_size q = (sq_head q - sq_tail q) AND (sq_Size q - 1)"

definition spsc_capacity :: "'a SPSCQueue \<Rightarrow> size_t" where
  "spsc_capacity q = sq_Size q - 1"

text \<open>The invariant of a queue instantiated with a positive size, and the list it holds.\<close>

definition spsc_inv :: "'a SPSCQueue \<Rightarrow> bool" where
  "spsc_inv q \<longleftrightarrow> size_assert (sq_Size q) \<and> sq_Size q \<noteq> 0 \<and>
     length (sq_buffer q) = unat (sq_Size q) \<and> sq_head q < sq_Size q \<and> sq_tail q < sq_Size q"

definition spsc_count :: "'a SPSCQueue \<Rightarrow> nat" where
  "spsc_count q =
     (unat (sq_head q) + unat (sq_Size q) - unat (sq_tail q)) mod unat (sq_Size q)"

definition spsc_contents :: "'a SPSCQueue \<Rightarrow> 'a list" where
  "spsc_contents q = ring_slice (sq_buffer q) (unat (sq_tail q)) (spsc_count q)"

definition spsc_cap :: "'a SPSCQueue \<Rightarrow> nat" where
  "spsc_cap q = unat (sq_Size q) - 1"

section \<open>Index arithmetic\<close>

lemma ring_full_iff:
  fixes h t n :: nat
  assumes "h < n" "t < n"
  shows "Suc h mod n = t \<longleftrightarrow> (h + n - t) mod n = n - 1"
  using assms by (cases "Suc h = n"; cases "t \<le> h") (auto simp: mod_if)

lemma ring_empty_iff:
  fixes h t n :: nat
  assumes "h < n" "t < n"
  shows "t = h \<longleftrightarrow> (h + n - t) mod n = 0"
  using assms by (cases "t \<le> h") (auto simp: mod_if)

lemma ring_count_push:
  fixes h t n :: nat
  assumes "h < n" "t < n" "Suc h mod n \<noteq> t"
  shows "(Suc h mod n + n - t) mod n = Suc ((h + n - t) mod n)"
  using assms by (cases "Suc h = n"; cases "t \<le> h") (auto simp: mod_if)

lemma ring_count_pop:
  fixes h t n :: nat
  assumes "h < n" "t < n" "t \<noteq> h"
  shows "(h + n - t) mod n = Suc ((h + n - Suc t mod n) mod n)"
  using assms by (cases "Suc t = n"; cases "t \<le> h") (auto simp: mod_if)

lemma ring_head_pos:
  fixes h t n :: nat
  assumes "h < n" "t < n"
  shows "(t + (h + n - t) mod n) mod n = h"
  using assms by (cases "t \<le> h") (auto simp: mod_if)

lemma sub_mod_eq:
  fixes a b m :: nat
  assumes "a < m" "b < m"
  shows "(a + (m - b)) mod m = (if b \<le> a then a - b else a + m - b)"
  using assms by (auto simp: mod_if)

lemma mask_succ [ring_simps]:
  assumes "size_assert n" "n \<noteq> 0" "x < n"
  shows "unat ((x + 1) AND (n - 1)) = Suc (unat x) mod unat n"
proof -
  have "unat x < unat n" "unat n < 2 ^ 64"
    using assms(3) unsigned_less[of n] by (simp_all add: word_less_nat_alt)
  then have "unat (x + 1) = Suc (unat x)" by (simp add: unat_word_ariths)
  then show ?thesis by (simp add: mask_index[OF assms(1,2)])
qed

lemma mask_diff [ring_simps]:
  assumes "size_assert n" "n \<noteq> 0" "t < n"
  shows "unat ((h - t) AND (n - 1)) = (unat h + unat n - unat t) mod unat n"
proof -
  obtain k where k: "k < 64" "unat n = 2 ^ k" using size_assert_pow2[OF assms(1,2)] by blast
  have dvd: "unat n dvd 2 ^ 64" unfolding k(2) using k(1) by (intro le_imp_power_dvd) simp
  have lt: "unat t < unat n" using assms(3) by (simp add: word_less_nat_alt)
  have ge: "unat n \<le> 2 ^ 64" using dvd by (rule dvd_imp_le) simp
  have "unat (h - t) = (if unat t \<le> unat h then unat h - unat t else unat h + 2 ^ 64 - unat t)"
    by (simp add: unat_sub_if')
  also have "\<dots> = (unat h + (2 ^ 64 - unat t)) mod 2 ^ 64"
    by (rule sub_mod_eq[symmetric]) (rule unat_less_2p64)+
  finally have "unat (h - t) = (unat h + (2 ^ 64 - unat t)) mod 2 ^ 64" .
  then have "unat (h - t) mod unat n = (unat h + (2 ^ 64 - unat t)) mod unat n"
    using dvd by (simp add: mod_mod_cancel)
  also have "unat h + (2 ^ 64 - unat t) = (unat h + unat n - unat t) + (2 ^ 64 - unat n)"
    using lt ge by simp
  also have "\<dots> mod unat n = (unat h + unat n - unat t) mod unat n"
    using dvd by (metis dvd_diff_nat dvd_refl mod_add_right_eq add_0_right dvd_imp_mod_0)
  finally show ?thesis by (simp add: mask_index[OF assms(1,2)])
qed

section \<open>The queue implements the bounded FIFO contract\<close>

lemma spsc_inv_unat:
  assumes "spsc_inv q"
  shows "unat (sq_head q) < unat (sq_Size q)" "unat (sq_tail q) < unat (sq_Size q)"
    "0 < unat (sq_Size q)" "length (sq_buffer q) = unat (sq_Size q)"
  using assms by (auto simp: spsc_inv_def word_less_nat_alt unat_gt_0)

lemma spsc_next_index:
  assumes "spsc_inv q" "x < sq_Size q"
  shows "unat ((x + 1) AND (sq_Size q - 1)) = Suc (unat x) mod unat (sq_Size q)"
  using assms by (simp add: spsc_inv_def mask_succ)

lemma spsc_next_lt:
  assumes "spsc_inv q" "x < sq_Size q"
  shows "(x + 1) AND (sq_Size q - 1) < sq_Size q"
  using spsc_next_index[OF assms] spsc_inv_unat(3)[OF assms(1)] by (simp add: word_less_nat_alt)

lemma spsc_full_iff_count:
  assumes "spsc_inv q"
  shows "(sq_head q + 1) AND (sq_Size q - 1) = sq_tail q \<longleftrightarrow> spsc_count q = spsc_cap q"
proof -
  have "sq_head q < sq_Size q" using assms by (simp add: spsc_inv_def)
  then have "(sq_head q + 1) AND (sq_Size q - 1) = sq_tail q \<longleftrightarrow>
      Suc (unat (sq_head q)) mod unat (sq_Size q) = unat (sq_tail q)"
    by (metis spsc_next_index[OF assms] word_unat_eq_iff)
  then show ?thesis
    using ring_full_iff spsc_inv_unat[OF assms] by (simp add: spsc_count_def spsc_cap_def)
qed

lemma spsc_empty_iff_count:
  assumes "spsc_inv q"
  shows "sq_tail q = sq_head q \<longleftrightarrow> spsc_count q = 0"
  using ring_empty_iff spsc_inv_unat[OF assms]
  by (simp add: spsc_count_def word_unat_eq_iff)

lemma spsc_count_less: "spsc_inv q \<Longrightarrow> spsc_count q < unat (sq_Size q)"
  by (simp add: spsc_count_def spsc_inv_unat)

lemma length_spsc_contents [simp]: "length (spsc_contents q) = spsc_count q"
  by (simp add: spsc_contents_def)

lemma spsc_push_room:
  assumes inv: "spsc_inv q" and room: "spsc_count q < spsc_cap q"
  shows "\<exists>q'. spsc_push x q = Some (True, q') \<and> spsc_inv q' \<and>
    spsc_contents q' = spsc_contents q @ [x] \<and> spsc_cap q' = spsc_cap q"
proof -
  let ?n = "unat (sq_Size q)" and ?h = "unat (sq_head q)" and ?t = "unat (sq_tail q)"
  let ?next = "(sq_head q + 1) AND (sq_Size q - 1)"
  let ?q' = "q\<lparr>sq_buffer := (sq_buffer q)[?h := x], sq_head := ?next\<rparr>"
  note u = spsc_inv_unat[OF inv]
  have hlt: "sq_head q < sq_Size q" using inv by (simp add: spsc_inv_def)
  have nf: "?next \<noteq> sq_tail q" using room spsc_full_iff_count[OF inv] by simp
  then have push: "spsc_push x q = Some (True, ?q')"
    using u by (simp add: spsc_push_def Let_def)
  have inv': "spsc_inv ?q'"
    using inv spsc_next_lt[OF inv hlt] by (simp add: spsc_inv_def)
  have un: "unat ?next = Suc ?h mod ?n" by (rule spsc_next_index[OF inv hlt])
  have cnt: "spsc_count ?q' = Suc (spsc_count q)"
    using ring_count_push[OF u(1,2)] nf by (simp add: spsc_count_def un word_unat_eq_iff)
  have "?h = (?t + spsc_count q) mod length (sq_buffer q)"
    using ring_head_pos[OF u(1,2)] u(4) by (simp add: spsc_count_def)
  then have "ring_slice ((sq_buffer q)[?h := x]) ?t (Suc (spsc_count q)) = spsc_contents q @ [x]"
    using ring_slice_push[of "spsc_count q" "sq_buffer q" ?t x] spsc_count_less[OF inv] u(4)
    by (simp add: spsc_contents_def)
  moreover have "spsc_contents ?q' = ring_slice ((sq_buffer q)[?h := x]) ?t (Suc (spsc_count q))"
    unfolding spsc_contents_def cnt by simp
  ultimately have "spsc_contents ?q' = spsc_contents q @ [x]" by simp
  with push inv' show ?thesis by (auto simp: spsc_cap_def)
qed

lemma spsc_pop_item:
  assumes inv: "spsc_inv q" and ne: "spsc_contents q = x # xs"
  shows "\<exists>q'. spsc_pop q = Some (Some x, q') \<and> spsc_inv q' \<and>
    spsc_contents q' = xs \<and> spsc_cap q' = spsc_cap q"
proof -
  let ?n = "unat (sq_Size q)" and ?h = "unat (sq_head q)" and ?t = "unat (sq_tail q)"
  let ?next = "(sq_tail q + 1) AND (sq_Size q - 1)"
  let ?q' = "q\<lparr>sq_tail := ?next\<rparr>"
  note u = spsc_inv_unat[OF inv]
  have tlt: "sq_tail q < sq_Size q" using inv by (simp add: spsc_inv_def)
  have neq: "sq_tail q \<noteq> sq_head q"
    using ne length_spsc_contents[of q] spsc_empty_iff_count[OF inv] by (metis list.size(3) length_0_conv neq_Nil_conv)
  have pop: "spsc_pop q = Some (Some (sq_buffer q ! ?t), ?q')"
    using u neq by (simp add: spsc_pop_def Let_def)
  have inv': "spsc_inv ?q'" using inv spsc_next_lt[OF inv tlt] by (simp add: spsc_inv_def)
  have un: "unat ?next = Suc ?t mod ?n" by (rule spsc_next_index[OF inv tlt])
  have cnt: "spsc_count q = Suc (spsc_count ?q')"
    using ring_count_pop[OF u(1,2)] neq by (simp add: spsc_count_def un word_unat_eq_iff)
  have "spsc_contents q = sq_buffer q ! ?t # spsc_contents ?q'"
    using ring_slice_pop[of "sq_buffer q" ?t "spsc_count ?q'"] u(2,4)
    by (simp add: spsc_contents_def cnt un)
  with ne pop inv' show ?thesis by (auto simp: spsc_cap_def)
qed

interpretation spsc: bounded_fifo spsc_push spsc_pop spsc_contents spsc_cap spsc_inv
proof unfold_locales
  fix q :: "'a SPSCQueue" and x :: 'a and xs
  assume inv: "spsc_inv q"
  show "spsc_push x q = Some (False, q)" if "length (spsc_contents q) = spsc_cap q"
    using that spsc_full_iff_count[OF inv] by (simp add: spsc_push_def Let_def)
  show "\<exists>q'. spsc_push x q = Some (True, q') \<and> spsc_inv q' \<and>
      spsc_contents q' = spsc_contents q @ [x] \<and> spsc_cap q' = spsc_cap q"
    if "length (spsc_contents q) < spsc_cap q"
    using that by (intro spsc_push_room[OF inv]) simp
  show "spsc_pop q = Some (None, q)" if "spsc_contents q = []"
  proof -
    have "spsc_count q = 0" using that length_spsc_contents[of q] by (metis list.size(3))
    then show ?thesis using spsc_empty_iff_count[OF inv] by (simp add: spsc_pop_def)
  qed
  show "\<exists>q'. spsc_pop q = Some (Some x, q') \<and> spsc_inv q' \<and> spsc_contents q' = xs \<and>
      spsc_cap q' = spsc_cap q" if "spsc_contents q = x # xs"
    by (rule spsc_pop_item[OF inv that])
  show "length (spsc_contents q) \<le> spsc_cap q"
    using spsc_count_less[OF inv] by (simp add: spsc_cap_def)
qed

lemma spsc_push_move_eq: "spsc_push_move = spsc_push"
  by (simp add: fun_eq_iff spsc_push_move_def spsc_push_def)

lemma spsc_new:
  assumes "size_assert n" "n \<noteq> 0"
  shows "spsc_inv (SPSCQueue_new n d)" "spsc_contents (SPSCQueue_new n d) = []"
    "spsc_cap (SPSCQueue_new n d) = unat n - 1"
  using assms by (auto simp: spsc_inv_def SPSCQueue_new_def spsc_contents_def spsc_count_def
      spsc_cap_def ring_slice_def word_gt_0)

section \<open>Properties\<close>

text \<open>
  C12: every sequence of \<open>push\<close> and \<open>pop\<close> calls on a freshly constructed queue whose size passes the
  \<open>static_assert\<close> and is positive runs without undefined behaviour and answers exactly as the
  abstract bounded queue of capacity \<open>Size - 1\<close>; the items it accepted are the items it handed out
  followed by the items it still holds, in order.
\<close>

theorem spsc_calls_refine_fifo:
  assumes "size_assert n" and "n \<noteq> 0"
  shows "\<exists>q'. run_ops spsc_push spsc_pop ps (SPSCQueue_new n d) =
      Some (fst (spec_run (unat n - 1) ps []), q') \<and> spsc_inv q' \<and>
      accepted ps (fst (spec_run (unat n - 1) ps [])) =
        handed_out (fst (spec_run (unat n - 1) ps [])) @ spsc_contents q'"
  using spsc.budget.run_refines[OF spsc_new(1)[OF assms], of ps d] spsc_new(2,3)[OF assms, of d]
    spec_run_fifo[of "[]" ps "unat n - 1"] by auto

theorem spsc_calls_refine_fifo_witness:
  "\<exists>q'. run_ops spsc_push spsc_pop [Push 1, Push 2, Push 3, Push (4::int), Pop, Push 4, Pop]
        (SPSCQueue_new 4 0) =
      Some ([Pushed True, Pushed True, Pushed True, Pushed False, Popped (Some 1), Pushed True,
             Popped (Some 2)], q') \<and> spsc_contents q' = [3, 4]"
proof -
  have "size_assert 4" "(4 :: size_t) \<noteq> 0" by (simp_all add: size_assert_def)
  from spsc_calls_refine_fifo[OF this,
      of "[Push 1, Push 2, Push 3, Push (4::int), Pop, Push 4, Pop]" 0]
  show ?thesis by auto
qed

text \<open>
  C25: on every state satisfying the invariant the observers report the queue's contents exactly:
  \<open>empty\<close> and \<open>full\<close> decide emptiness and fullness, \<open>size\<close> is the number of queued items (the
  unsigned subtraction wraps and the mask repairs it) and \<open>capacity\<close> the largest possible number.
\<close>

theorem spsc_observers:
  assumes "spsc_inv q"
  shows "(spsc_empty q \<longleftrightarrow> spsc_contents q = []) \<and>
    (spsc_full q \<longleftrightarrow> length (spsc_contents q) = unat (spsc_capacity q)) \<and>
    unat (spsc_size q) = length (spsc_contents q) \<and>
    length (spsc_contents q) \<le> unat (spsc_capacity q)"
proof -
  have cap: "unat (spsc_capacity q) = spsc_cap q"
    using assms by (simp add: spsc_capacity_def spsc_cap_def spsc_inv_def unat_minus_one)
  have "spsc_empty q \<longleftrightarrow> spsc_contents q = []"
    using spsc_empty_iff_count[OF assms] length_spsc_contents[of q]
    by (metis length_0_conv spsc_empty_def)
  moreover have "unat (spsc_size q) = spsc_count q"
    using assms mask_diff[of "sq_Size q" "sq_tail q" "sq_head q"]
    by (simp add: spsc_size_def spsc_count_def spsc_inv_def)
  ultimately show ?thesis
    using spsc_full_iff_count[OF assms] spsc.bounded[OF assms] by (simp add: spsc_full_def cap)
qed

theorem spsc_observers_witness:
  "spsc_full \<lparr>sq_Size = 4, sq_head = 1, sq_tail = 2, sq_buffer = [8, 9, 6, 7 :: int]\<rparr> \<and>
   unat (spsc_size \<lparr>sq_Size = 4, sq_head = 1, sq_tail = 2, sq_buffer = [8, 9, 6, 7 :: int]\<rparr>) = 3"
  using spsc_observers[of "\<lparr>sq_Size = 4, sq_head = 1, sq_tail = 2, sq_buffer = [8, 9, 6, 7 :: int]\<rparr>"]
  by (simp add: spsc_inv_def size_assert_def spsc_full_def spsc_contents_def spsc_count_def)

text \<open>
  The \<open>static_assert\<close> accepts \<open>Size = 0\<close>, and the first \<open>push\<close> on such a queue writes outside
  its (empty) buffer: the check only makes the queue safe together with \<open>Size > 0\<close>.
\<close>

theorem spsc_size_zero_push_ub:
  "size_assert 0 \<and> spsc_push x (SPSCQueue_new 0 d) = None"
  by (simp add: size_assert_def spsc_push_def SPSCQueue_new_def store_def)

end
