(* ===== verification/SPSC_Concurrent.thy ===== *)
theory SPSC_Concurrent
  imports SPSC_Queue "HOL-Library.Sublist"
begin

text \<open>
  The two threads of an \<open>SPSCQueue\<close>, interleaved at the granularity of single atomic accesses and of
  single buffer accesses.  Each atomic index is its modification order: the list of the values
  stored so far.  A thread that loads the other thread's index may get any value not older than the
  last one it got (coherence), so loads may be stale; a thread always sees its own last store.  A
  load-acquire that reads entry \<open>k\<close> synchronises with the store-release that wrote it; \<open>p_view\<close>
  and \<open>c_view\<close> record the newest entry of the other thread's index each thread has acquired.

  The ghost lists \<open>sent\<close> and \<open>got\<close> are the items published by \<open>push\<close> and returned by \<open>pop\<close>.
\<close>

section \<open>Definitions\<close>

datatype 'a producer_pc =
    P_Idle
  | P_Loaded 'a size_t   \<comment> \<open>\<open>head\<close> loaded\<close>
  | P_Checked 'a size_t  \<comment> \<open>not full: about to write \<open>buffer_[head]\<close>\<close>
  | P_Written 'a size_t  \<comment> \<open>about to store \<open>head_\<close>\<close>

datatype 'a consumer_pc =
    C_Idle
  | C_Loaded size_t      \<comment> \<open>\<open>tail\<close> loaded\<close>
  | C_Checked size_t     \<comment> \<open>not empty: about to read \<open>buffer_[tail]\<close>\<close>
  | C_Read size_t 'a     \<comment> \<open>about to store \<open>tail_\<close>\<close>

record 'a spsc_sys =
  ss_Size :: size_t
  head_mo :: "size_t list"
  tail_mo :: "size_t list"
  ss_buffer :: "'a list"
  p_view :: nat
  c_view :: nat
  ppc :: "'a producer_pc"
  cpc :: "'a consumer_pc"
  sent :: "'a list"
  got :: "'a list"

definition spsc_sys_init :: "size_t \<Rightarrow> 'a \<Rightarrow> 'a spsc_sys" where
  "spsc_sys_init Size dflt = \<lparr>ss_Size = Size, head_mo = [0], tail_mo = [0],
     ss_buffer = replicate (unat Size) dflt, p_view = 0, c_view = 0, ppc = P_Idle, cpc = C_Idle,
     sent = [], got = []\<rparr>"

abbreviation next_index :: "'a spsc_sys \<Rightarrow> size_t \<Rightarrow> size_t" where
  "next_index s i \<equiv> (i + 1) AND (ss_Size s - 1)"

inductive spsc_step :: "'a spsc_sys \<Rightarrow> 'a spsc_sys \<Rightarrow> bool" where
  push_load_head: "ppc s = P_Idle \<Longrightarrow>
     spsc_step s (s\<lparr>ppc := P_Loaded x (last (head_mo s))\<rparr>)"
| push_full: "ppc s = P_Loaded x h \<Longrightarrow> p_view s \<le> k \<Longrightarrow> k < length (tail_mo s) \<Longrightarrow>
     next_index s h = tail_mo s ! k \<Longrightarrow>
     spsc_step s (s\<lparr>p_view := k, ppc := P_Idle\<rparr>)"
| push_not_full: "ppc s = P_Loaded x h \<Longrightarrow> p_view s \<le> k \<Longrightarrow> k < length (tail_mo s) \<Longrightarrow>
     next_index s h \<noteq> tail_mo s ! k \<Longrightarrow>
     spsc_step s (s\<lparr>p_view := k, ppc := P_Checked x h\<rparr>)"
| push_write: "ppc s = P_Checked x h \<Longrightarrow> store (ss_buffer s) (unat h) x = Some b \<Longrightarrow>
     spsc_step s (s\<lparr>ss_buffer := b, ppc := P_Written x h\<rparr>)"
| push_store_head: "ppc s = P_Written x h \<Longrightarrow>
     spsc_step s (s\<lparr>head_mo := head_mo s @ [next_index s h], ppc := P_Idle, sent := sent s @ [x]\<rparr>)"
| pop_load_tail: "cpc s = C_Idle \<Longrightarrow>
     spsc_step s (s\<lparr>cpc := C_Loaded (last (tail_mo s))\<rparr>)"
| pop_empty: "cpc s = C_Loaded t \<Longrightarrow> c_view s \<le> k \<Longrightarrow> k < length (head_mo s) \<Longrightarrow>
     t = head_mo s ! k \<Longrightarrow>
     spsc_step s (s\<lparr>c_view := k, cpc := C_Idle\<rparr>)"
| pop_not_empty: "cpc s = C_Loaded t \<Longrightarrow> c_view s \<le> k \<Longrightarrow> k < length (head_mo s) \<Longrightarrow>
     t \<noteq> head_mo s ! k \<Longrightarrow>
     spsc_step s (s\<lparr>c_view := k, cpc := C_Checked t\<rparr>)"
| pop_read: "cpc s = C_Checked t \<Longrightarrow> load (ss_buffer s) (unat t) = Some x \<Longrightarrow>
     spsc_step s (s\<lparr>cpc := C_Read t x\<rparr>)"
| pop_store_tail: "cpc s = C_Read t x \<Longrightarrow>
     spsc_step s (s\<lparr>tail_mo := tail_mo s @ [next_index s t], cpc := C_Idle, got := got s @ [x]\<rparr>)"

inductive spsc_reach :: "size_t \<Rightarrow> 'a \<Rightarrow> 'a spsc_sys \<Rightarrow> bool" for n d where
  init: "spsc_reach n d (spsc_sys_init n d)"
| step: "spsc_reach n d s \<Longrightarrow> spsc_step s t \<Longrightarrow> spsc_reach n d t"

section \<open>The invariant\<close>

text \<open>
  \<open>index_mo mo n\<close>: entry \<open>k\<close> of the modification order is the index after \<open>k\<close> operations.
\<close>

definition index_mo :: "size_t list \<Rightarrow> nat \<Rightarrow> nat \<Rightarrow> bool" where
  "index_mo mo c n \<longleftrightarrow> length mo = Suc c \<and> (\<forall>k \<le> c. unat (mo ! k) = k mod n)"

fun ppc_ok :: "'a spsc_sys \<Rightarrow> 'a producer_pc \<Rightarrow> bool" where
  "ppc_ok s P_Idle = True"
| "ppc_ok s (P_Loaded x h) = (h = last (head_mo s))"
| "ppc_ok s (P_Checked x h) =
     (h = last (head_mo s) \<and> Suc (length (sent s)) < p_view s + unat (ss_Size s))"
| "ppc_ok s (P_Written x h) =
     (h = last (head_mo s) \<and> Suc (length (sent s)) < p_view s + unat (ss_Size s) \<and>
      ss_buffer s ! unat h = x)"

fun cpc_ok :: "'a spsc_sys \<Rightarrow> 'a consumer_pc \<Rightarrow> bool" where
  "cpc_ok s C_Idle = True"
| "cpc_ok s (C_Loaded t) = (t = last (tail_mo s))"
| "cpc_ok s (C_Checked t) = (t = last (tail_mo s) \<and> length (got s) < c_view s)"
| "cpc_ok s (C_Read t x) =
     (t = last (tail_mo s) \<and> length (got s) < c_view s \<and> x = sent s ! length (got s))"

definition spsc_sys_inv :: "'a spsc_sys \<Rightarrow> bool" where
  "spsc_sys_inv s \<longleftrightarrow>
     (let N = unat (ss_Size s); H = length (sent s); T = length (got s) in
      size_assert (ss_Size s) \<and> ss_Size s \<noteq> 0 \<and> length (ss_buffer s) = N \<and>
      index_mo (head_mo s) H N \<and> index_mo (tail_mo s) T N \<and>
      T \<le> c_view s \<and> c_view s \<le> H \<and> p_view s \<le> T \<and> H < p_view s + N \<and>
      (\<forall>p. T \<le> p \<and> p < H \<longrightarrow> ss_buffer s ! (p mod N) = sent s ! p) \<and>
      got s = take T (sent s) \<and> ppc_ok s (ppc s) \<and> cpc_ok s (cpc s))"

section \<open>Modification orders\<close>

lemma index_mo_last: "index_mo mo c n \<Longrightarrow> mo \<noteq> [] \<and> unat (last mo) = c mod n"
  by (cases "mo = []") (auto simp: index_mo_def last_conv_nth)

lemma index_mo_nth: "index_mo mo c n \<Longrightarrow> k < length mo \<Longrightarrow> k \<le> c \<and> unat (mo ! k) = k mod n"
  by (auto simp: index_mo_def)

lemma index_mo_snoc:
  assumes "index_mo mo c (unat n)" "size_assert n" "n \<noteq> 0"
  shows "index_mo (mo @ [(last mo + 1) AND (n - 1)]) (Suc c) (unat n)"
proof -
  have u: "unat (last mo) = c mod unat n" using index_mo_last[OF assms(1)] by simp
  have "0 < unat n" using assms(3) by (simp add: unat_gt_0)
  then have "last mo < n" unfolding word_less_nat_alt u by simp
  then have "unat ((last mo + 1) AND (n - 1)) = Suc c mod unat n"
    using mask_succ[OF assms(2,3)] u by (simp add: mod_Suc_eq)
  then show ?thesis using assms(1) by (auto simp: index_mo_def nth_append le_Suc_eq)
qed

section \<open>Every step keeps the invariant\<close>

lemma ppc_ok_frame:
  "ppc_ok (s\<lparr>cpc := pc'\<rparr>) pc = ppc_ok s pc" "ppc_ok (s\<lparr>c_view := k\<rparr>) pc = ppc_ok s pc"
  "ppc_ok (s\<lparr>tail_mo := m\<rparr>) pc = ppc_ok s pc" "ppc_ok (s\<lparr>got := g\<rparr>) pc = ppc_ok s pc"
  "ppc_ok (s\<lparr>ppc := qc\<rparr>) pc = ppc_ok s pc"
  by (cases pc; simp)+

lemma cpc_ok_frame:
  "cpc_ok (s\<lparr>ppc := pc'\<rparr>) pc = cpc_ok s pc" "cpc_ok (s\<lparr>p_view := k\<rparr>) pc = cpc_ok s pc"
  "cpc_ok (s\<lparr>head_mo := m\<rparr>) pc = cpc_ok s pc" "cpc_ok (s\<lparr>ss_buffer := b\<rparr>) pc = cpc_ok s pc"
  "cpc_ok (s\<lparr>cpc := qc\<rparr>) pc = cpc_ok s pc"
  by (cases pc; simp)+

lemmas pc_frame = ppc_ok_frame cpc_ok_frame

lemma ppc_ok_view:
  assumes "ppc_ok s (P_Loaded x h)" "spsc_sys_inv s" "p_view s \<le> k" "k < length (tail_mo s)"
    "next_index s h \<noteq> tail_mo s ! k"
  shows "Suc (length (sent s)) < k + unat (ss_Size s)"
proof (rule ccontr)
  let ?N = "unat (ss_Size s)" and ?H = "length (sent s)"
  note inv = assms(2)[unfolded spsc_sys_inv_def Let_def]
  assume "\<not> Suc ?H < k + ?N"
  with inv assms(3) have eq: "Suc ?H = k + ?N" by auto
  have u: "unat h = ?H mod ?N" using assms(1) inv index_mo_last by auto
  have "0 < ?N" using inv by (simp add: unat_gt_0)
  then have "h < ss_Size s" unfolding word_less_nat_alt u by simp
  then have "unat (next_index s h) = Suc ?H mod ?N"
    using mask_succ[of "ss_Size s" h] inv u by (simp add: mod_Suc_eq)
  moreover have "unat (tail_mo s ! k) = k mod ?N"
    using index_mo_nth[of "tail_mo s" _ ?N k] inv assms(4) by blast
  ultimately have "unat (next_index s h) = unat (tail_mo s ! k)" by (simp add: eq)
  with assms(5) show False by (simp add: word_unat_eq_iff)
qed

lemma spsc_write_inv:
  assumes "spsc_sys_inv s" "ppc s = P_Checked x h" "store (ss_buffer s) (unat h) x = Some b"
  shows "spsc_sys_inv (s\<lparr>ss_buffer := b, ppc := P_Written x h\<rparr>)"
proof -
  let ?N = "unat (ss_Size s)" and ?H = "length (sent s)"
  note inv = assms(1)[unfolded spsc_sys_inv_def Let_def]
  have u: "unat h = ?H mod ?N" using inv assms(2) index_mo_last by auto
  have ne: "p mod ?N \<noteq> ?H mod ?N" if "length (got s) \<le> p" "p < ?H" for p
    using mod_eq_within[of p ?N ?H] that inv by auto
  have "0 < ?N" using inv by (simp add: unat_gt_0)
  then have "?H mod ?N < length (ss_buffer s)" using inv by simp
  then have b: "b = (ss_buffer s)[?H mod ?N := x]" "b ! unat h = x" "length b = ?N"
    using assms(3) inv by (auto simp: store_eq_Some_iff u)
  have "\<forall>p. length (got s) \<le> p \<and> p < ?H \<longrightarrow> b ! (p mod ?N) = sent s ! p"
    using inv ne by (auto simp: b(1) nth_list_update_neq[OF not_sym])
  then show ?thesis using assms(2) inv b(2,3)
    by (auto simp: spsc_sys_inv_def Let_def pc_frame)
qed

lemma spsc_publish_inv:
  assumes "spsc_sys_inv s" "ppc s = P_Written x h"
  shows "spsc_sys_inv (s\<lparr>head_mo := head_mo s @ [next_index s h], ppc := P_Idle, sent := sent s @ [x]\<rparr>)"
proof -
  let ?N = "unat (ss_Size s)" and ?H = "length (sent s)"
  note inv = assms(1)[unfolded spsc_sys_inv_def Let_def]
  have u: "unat h = ?H mod ?N" using inv assms(2) index_mo_last by auto
  have "index_mo (head_mo s @ [next_index s h]) (Suc ?H) ?N"
    using index_mo_snoc[of "head_mo s" ?H "ss_Size s"] inv assms(2) by auto
  moreover have "cpc_ok (s\<lparr>head_mo := m, ppc := P_Idle, sent := sent s @ [x]\<rparr>) (cpc s)" for m
    using inv by (cases "cpc s") (auto simp: nth_append)
  ultimately show ?thesis using assms(2) inv
    by (auto simp: spsc_sys_inv_def Let_def pc_frame nth_append less_Suc_eq u)
qed

lemma spsc_step_inv: "spsc_step s t \<Longrightarrow> spsc_sys_inv s \<Longrightarrow> spsc_sys_inv t"
proof (induction rule: spsc_step.induct)
  case (push_load_head s x)
  then show ?case by (simp add: spsc_sys_inv_def Let_def pc_frame)
next
  case (push_full s x h k)
  then show ?case using index_mo_nth[of "tail_mo s" "length (got s)" _ k]
    by (auto simp: spsc_sys_inv_def Let_def pc_frame)
next
  case (push_not_full s x h k)
  then have "Suc (length (sent s)) < k + unat (ss_Size s)"
    using ppc_ok_view by (metis spsc_sys_inv_def)
  with push_not_full show ?case using index_mo_nth[of "tail_mo s" "length (got s)" _ k]
    by (auto simp: spsc_sys_inv_def Let_def pc_frame)
next
  case (push_write s x h b)
  show ?case by (rule spsc_write_inv[OF push_write.prems push_write.hyps])
next
  case (push_store_head s x h)
  show ?case by (rule spsc_publish_inv[OF push_store_head.prems push_store_head.hyps])
next
  case (pop_load_tail s)
  then show ?case by (simp add: spsc_sys_inv_def Let_def pc_frame)
next
  case (pop_empty s t k)
  then show ?case using index_mo_nth[of "head_mo s" "length (sent s)" _ k]
    by (auto simp: spsc_sys_inv_def Let_def pc_frame)
next
  case (pop_not_empty s t k)
  note inv = pop_not_empty.prems[unfolded spsc_sys_inv_def Let_def]
  have "unat t = length (got s) mod unat (ss_Size s)"
    using inv pop_not_empty.hyps index_mo_last by auto
  moreover have "unat (head_mo s ! k) = k mod unat (ss_Size s)" "k \<le> length (sent s)"
    using index_mo_nth[of "head_mo s" "length (sent s)" _ k] inv pop_not_empty.hyps by auto
  ultimately have "length (got s) \<noteq> k" using pop_not_empty.hyps by (auto simp: word_unat_eq_iff)
  with pop_not_empty inv \<open>k \<le> length (sent s)\<close> show ?case
    by (auto simp: spsc_sys_inv_def Let_def pc_frame)
next
  case (pop_read s t x)
  note inv = pop_read.prems[unfolded spsc_sys_inv_def Let_def]
  have "unat t = length (got s) mod unat (ss_Size s)"
    using inv pop_read.hyps index_mo_last by auto
  with pop_read inv show ?case
    by (auto simp: spsc_sys_inv_def Let_def pc_frame load_eq_Some_iff)
next
  case (pop_store_tail s t x)
  note inv = pop_store_tail.prems[unfolded spsc_sys_inv_def Let_def]
  have "index_mo (tail_mo s @ [next_index s t]) (Suc (length (got s))) (unat (ss_Size s))"
    using index_mo_snoc[of "tail_mo s" "length (got s)" "ss_Size s"] inv pop_store_tail.hyps by auto
  with pop_store_tail inv show ?case
    by (auto simp: spsc_sys_inv_def Let_def pc_frame take_Suc_conv_app_nth)
qed

lemma spsc_sys_init_inv: "size_assert n \<Longrightarrow> n \<noteq> 0 \<Longrightarrow> spsc_sys_inv (spsc_sys_init n d)"
  by (simp add: spsc_sys_inv_def spsc_sys_init_def index_mo_def unat_gt_0)

lemma spsc_reach_inv:
  assumes "spsc_reach n d s" "size_assert n" "n \<noteq> 0"
  shows "spsc_sys_inv s"
  using assms by (induction rule: spsc_reach.induct) (auto intro: spsc_sys_init_inv spsc_step_inv)

section \<open>Operations as atomic steps\<close>

text \<open>
  What the two threads do to the queue as a list.  Each access leaves the list alone, except the store
  to \<open>head_\<close>, which appends the item of the current \<open>push\<close> and finds room for it, and the store to
  \<open>tail_\<close>, which removes the item the current \<open>pop\<close> returns.  So \<open>push\<close> and \<open>pop\<close> take effect in one
  step each.  Because the other thread's index may be read late, a \<open>push\<close> may report a full queue that
  is no longer full, but only after \<open>Size - 1\<close> items were accepted, and a \<open>pop\<close> an empty queue that is
  no longer empty.  The theories that use the queue from several threads have exactly these steps.
\<close>

definition queued :: "'a spsc_sys \<Rightarrow> 'a list" where
  "queued s = drop (length (got s)) (sent s)"

lemma spsc_step_queued:
  assumes "spsc_step s t" "spsc_sys_inv s"
  shows "queued t = queued s \<and> sent t = sent s \<and> got t = got s \<or>
    (\<exists>x h. ppc s = P_Written x h \<and> length (queued s) < unat (ss_Size s) - 1 \<and>
      queued t = queued s @ [x] \<and> sent t = sent s @ [x]) \<or>
    (\<exists>x i. cpc s = C_Read i x \<and> queued s = x # queued t \<and> got t = got s @ [x])"
  using assms(1)
proof cases
  case (push_store_head x h)
  then have "length (got s) \<le> length (sent s)" "Suc (length (sent s)) < length (got s) + unat (ss_Size s)"
    using assms(2) by (auto simp: spsc_sys_inv_def Let_def)
  then show ?thesis using push_store_head by (auto simp: queued_def)
next
  case (pop_store_tail i x)
  then have "length (got s) < length (sent s)" "x = sent s ! length (got s)"
    using assms(2) by (auto simp: spsc_sys_inv_def Let_def)
  then show ?thesis using pop_store_tail by (auto simp: queued_def Cons_nth_drop_Suc)
qed (simp_all add: queued_def)

lemma spsc_refusals:
  assumes "spsc_sys_inv s"
  shows "ppc s = P_Loaded x h \<Longrightarrow> p_view s \<le> k \<Longrightarrow> k < length (tail_mo s) \<Longrightarrow>
      next_index s h = tail_mo s ! k \<Longrightarrow> unat (ss_Size s) - 1 \<le> length (sent s)"
    "cpc s = C_Loaded i \<Longrightarrow> c_view s \<le> k \<Longrightarrow> k < length (head_mo s) \<Longrightarrow>
      i = head_mo s ! k \<Longrightarrow> k = length (got s)"
proof -
  let ?N = "unat (ss_Size s)"
  note inv = assms[unfolded spsc_sys_inv_def Let_def]
  have N: "0 < ?N" using inv by (simp add: unat_gt_0)
  show "?N - 1 \<le> length (sent s)" if "ppc s = P_Loaded x h" "p_view s \<le> k" "k < length (tail_mo s)"
    "next_index s h = tail_mo s ! k"
  proof (rule ccontr)
    assume less: "\<not> ?N - 1 \<le> length (sent s)"
    have "index_mo (head_mo s @ [next_index s h]) (Suc (length (sent s))) ?N"
      using index_mo_snoc[of "head_mo s" _ "ss_Size s"] inv that(1) by auto
    then have "unat (next_index s h) = Suc (length (sent s)) mod ?N" using index_mo_last by fastforce
    moreover have "k \<le> length (got s)" "unat (tail_mo s ! k) = k mod ?N"
      using index_mo_nth[of "tail_mo s" _ ?N k] inv that(3) by auto
    moreover have "length (got s) \<le> length (sent s)" using inv by auto
    ultimately show False using less that(4) by simp
  qed
  show "k = length (got s)" if "cpc s = C_Loaded i" "c_view s \<le> k" "k < length (head_mo s)" "i = head_mo s ! k"
  proof -
    have "unat i = length (got s) mod ?N" using inv that(1) index_mo_last by auto
    moreover have "k \<le> length (sent s)" "unat (head_mo s ! k) = k mod ?N"
      using index_mo_nth[of "head_mo s" _ ?N k] inv that(3) by auto
    moreover have "length (got s) \<le> k" "k < length (got s) + ?N" using inv that(2) calculation(2) by auto
    ultimately show ?thesis using mod_eq_within[of "length (got s)" ?N k] that(4) by auto
  qed
qed

section \<open>A concrete execution\<close>

text \<open>
  A queue of four slots: \<open>push(7)\<close> completes, a \<open>pop\<close> loads its index (\<open>demo_popping\<close>) and passes
  its check while a second \<open>push(8)\<close> passes its own (\<open>demo_both\<close>).
\<close>

definition demo_popping :: "int spsc_sys" where
  "demo_popping = \<lparr>ss_Size = 4, head_mo = [0, 1], tail_mo = [0], ss_buffer = [7, 0, 0, 0],
     p_view = 0, c_view = 0, ppc = P_Idle, cpc = C_Loaded 0, sent = [7], got = []\<rparr>"

definition demo_both :: "int spsc_sys" where
  "demo_both = demo_popping\<lparr>c_view := 1, ppc := P_Checked 8 1, cpc := C_Checked 0\<rparr>"

lemma demo_popping_reach: "spsc_reach 4 0 demo_popping"
proof -
  let ?s0 = "spsc_sys_init 4 0 :: int spsc_sys"
  let ?s1 = "?s0\<lparr>ppc := P_Loaded 7 0\<rparr>"
  let ?s2 = "?s1\<lparr>ppc := P_Checked 7 0\<rparr>"
  let ?s3 = "?s2\<lparr>ss_buffer := [7, 0, 0, 0], ppc := P_Written 7 0\<rparr>"
  let ?s4 = "?s3\<lparr>head_mo := [0, 1], ppc := P_Idle, sent := [7]\<rparr>"
  have r: "replicate 4 (0 :: int) = [0, 0, 0, 0]" by (simp add: numeral_eq_Suc)
  have "spsc_step ?s0 ?s1"
    using spsc_step.push_load_head[of ?s0 7] by (simp add: spsc_sys_init_def)
  moreover have "spsc_step ?s1 ?s2"
    using spsc_step.push_not_full[of ?s1 7 0 0] by (simp add: spsc_sys_init_def)
  moreover have "spsc_step ?s2 ?s3"
    using spsc_step.push_write[of ?s2 7 0 "[7, 0, 0, 0]"]
    by (simp add: spsc_sys_init_def store_def r)
  moreover have "spsc_step ?s3 ?s4"
    using spsc_step.push_store_head[of ?s3 7 0] by (simp add: spsc_sys_init_def)
  moreover have "spsc_step ?s4 demo_popping"
    using spsc_step.pop_load_tail[of ?s4] by (simp add: spsc_sys_init_def demo_popping_def)
  ultimately show ?thesis by (meson spsc_reach.intros)
qed

lemma demo_both_reach: "spsc_reach 4 0 demo_both"
proof -
  let ?s1 = "demo_popping\<lparr>c_view := 1, cpc := C_Checked 0\<rparr>"
  let ?s2 = "?s1\<lparr>ppc := P_Loaded 8 1\<rparr>"
  have "spsc_step demo_popping ?s1"
    using spsc_step.pop_not_empty[of demo_popping 0 1] by (simp add: demo_popping_def)
  moreover have "spsc_step ?s1 ?s2"
    using spsc_step.push_load_head[of ?s1 8] by (simp add: demo_popping_def)
  moreover have "spsc_step ?s2 demo_both"
    using spsc_step.push_not_full[of ?s2 8 1 0] by (simp add: demo_popping_def demo_both_def)
  ultimately show ?thesis using demo_popping_reach by (meson spsc_reach.intros)
qed

section \<open>Properties\<close>

text \<open>
  C3: in every interleaving of one producer and one consumer, with loads as stale as coherence
  allows, the items returned by \<open>pop\<close> are a prefix of the items pushed: nothing is lost, duplicated,
  reordered or torn, and at most \<open>Size - 1\<close> items are in flight.
\<close>

theorem spsc_concurrent_fifo:
  assumes "spsc_reach n d s" and "size_assert n" and "n \<noteq> 0"
  shows "prefix (got s) (sent s) \<and> length (sent s) - length (got s) \<le> unat (ss_Size s) - 1"
proof -
  note inv = spsc_reach_inv[OF assms, unfolded spsc_sys_inv_def Let_def]
  have "prefix (got s) (sent s)" using inv by (metis take_is_prefix)
  moreover have "length (sent s) - length (got s) \<le> unat (ss_Size s) - 1" using inv by auto
  ultimately show ?thesis by blast
qed

theorem spsc_concurrent_fifo_witness:
  "prefix (got demo_both) (sent demo_both) \<and> length (sent demo_both) - length (got demo_both) \<le> 3"
proof -
  have "size_assert 4" "(4 :: size_t) \<noteq> 0" by (simp_all add: size_assert_def)
  from spsc_concurrent_fifo[OF demo_both_reach this] show ?thesis
    by (simp add: demo_both_def demo_popping_def)
qed

text \<open>
  C18: in every reachable state both buffer accesses are in bounds and free of data races: a producer
  about to write a slot has acquired the release of that slot's previous reader (position
  \<open>H - Size\<close> of the consumer's stores is covered by its view), a consumer about to read a slot has
  acquired the store that published it, and the two never target the same slot.
\<close>

theorem spsc_race_free:
  assumes "spsc_reach n d s" and "size_assert n" and "n \<noteq> 0"
  shows "(\<forall>x h. ppc s = P_Checked x h \<longrightarrow>
       unat h < length (ss_buffer s) \<and> length (sent s) < p_view s + unat (ss_Size s)) \<and>
     (\<forall>t. cpc s = C_Checked t \<longrightarrow>
       unat t < length (ss_buffer s) \<and> length (got s) < c_view s) \<and>
     (\<forall>x h t. ppc s = P_Checked x h \<and> cpc s = C_Checked t \<longrightarrow> h \<noteq> t)"
proof -
  note inv = spsc_reach_inv[OF assms, unfolded spsc_sys_inv_def Let_def]
  have N: "0 < unat (ss_Size s)" using inv by (simp add: unat_gt_0)
  have h: "unat h = length (sent s) mod unat (ss_Size s)" if "ppc s = P_Checked x h" for x h
    using inv that index_mo_last by auto
  have t: "unat t = length (got s) mod unat (ss_Size s)" "length (got s) < c_view s"
    if "cpc s = C_Checked t" for t using inv that index_mo_last by auto
  have "length (got s) mod unat (ss_Size s) \<noteq> length (sent s) mod unat (ss_Size s)"
    if "length (got s) < c_view s"
    using mod_eq_within[of "length (got s)" "unat (ss_Size s)" "length (sent s)"] that inv by auto
  with h t have "h \<noteq> t" if "ppc s = P_Checked x h" "cpc s = C_Checked t" for x h t
    using that by metis
  moreover have "length (sent s) < p_view s + unat (ss_Size s)" using inv by simp
  ultimately show ?thesis using h t N inv by auto
qed

theorem spsc_race_free_witness:
  "ppc demo_both = P_Checked 8 1 \<and> cpc demo_both = C_Checked 0 \<and> (1 :: size_t) \<noteq> 0 \<and>
   unat (1 :: size_t) < length (ss_buffer demo_both)"
proof -
  have "size_assert 4" "(4 :: size_t) \<noteq> 0" by (simp_all add: size_assert_def)
  note rf = spsc_race_free[OF demo_both_reach this]
  have "ppc demo_both = P_Checked 8 1" "cpc demo_both = C_Checked 0"
    by (simp_all add: demo_both_def)
  with rf show ?thesis by metis
qed

text \<open>
  C24: when an item is available, a \<open>pop\<close> that loads the current \<open>head_\<close> does not report the queue as
  empty, reads its slot without undefined behaviour and returns the oldest item not yet returned.
\<close>

theorem spsc_pop_progress:
  assumes "spsc_reach n d s" and "size_assert n" and "n \<noteq> 0"
    and "cpc s = C_Loaded t" and "length (got s) < length (sent s)"
  defines "k \<equiv> length (head_mo s) - 1"
  shows "\<exists>s1 s2 s3. spsc_step s s1 \<and> spsc_step s1 s2 \<and> spsc_step s2 s3 \<and> c_view s1 = k \<and>
    got s3 = got s @ [sent s ! length (got s)] \<and> cpc s3 = C_Idle"
proof -
  let ?N = "unat (ss_Size s)" and ?x = "sent s ! length (got s)"
  note inv = spsc_reach_inv[OF assms(1-3), unfolded spsc_sys_inv_def Let_def]
  have N: "0 < ?N" using inv by (simp add: unat_gt_0)
  have u: "unat t = length (got s) mod ?N" using inv assms(4) index_mo_last by auto
  have k: "k = length (sent s)" "k < length (head_mo s)" "c_view s \<le> k"
    using inv by (auto simp: k_def index_mo_def)
  have "unat (head_mo s ! k) = k mod ?N" using index_mo_nth k inv by blast
  moreover have "length (got s) mod ?N \<noteq> k mod ?N"
    using mod_eq_within[of "length (got s)" ?N k] assms(5) k inv by auto
  ultimately have ne: "t \<noteq> head_mo s ! k" using u by metis
  define s1 where "s1 = s\<lparr>c_view := k, cpc := C_Checked t\<rparr>"
  define s2 where "s2 = s1\<lparr>cpc := C_Read t ?x\<rparr>"
  define s3 where "s3 = s2\<lparr>tail_mo := tail_mo s2 @ [next_index s2 t], cpc := C_Idle, got := got s2 @ [?x]\<rparr>"
  have "spsc_step s s1" unfolding s1_def by (rule spsc_step.pop_not_empty[OF assms(4) k(3,2) ne])
  moreover have "load (ss_buffer s1) (unat t) = Some ?x"
    using u N inv assms(5) by (auto simp: s1_def load_eq_Some_iff)
  then have "spsc_step s1 s2" unfolding s2_def by (intro spsc_step.pop_read) (simp_all add: s1_def)
  moreover have "spsc_step s2 s3" unfolding s3_def
    by (intro spsc_step.pop_store_tail) (simp add: s2_def)
  moreover have "c_view s1 = k" "cpc s3 = C_Idle" "got s3 = got s @ [?x]"
    by (simp_all add: s1_def s2_def s3_def)
  ultimately show ?thesis by blast
qed

theorem spsc_pop_progress_witness:
  "\<exists>s1 s2 s3. spsc_step demo_popping s1 \<and> spsc_step s1 s2 \<and> spsc_step s2 s3 \<and> got s3 = [7]"
proof -
  have "size_assert 4" "(4 :: size_t) \<noteq> 0" by (simp_all add: size_assert_def)
  moreover have "cpc demo_popping = C_Loaded 0" "length (got demo_popping) < length (sent demo_popping)"
    by (simp_all add: demo_popping_def)
  ultimately show ?thesis
    using spsc_pop_progress[OF demo_popping_reach] by (fastforce simp: demo_popping_def)
qed

end
