(* ===== verification/MPSC_Queue.thy ===== *)
theory MPSC_Queue
  imports Queue_Interface
begin

text \<open>
  \<open>MPSCQueue\<close> of \<open>core/distribution/lockfree_queue.hpp\<close>, operation by operation, as one thread sees
  it.  Positions count pushes and pops; a node's sequence number is the position it is free for, or
  one more than the position published in it.  The code subtracts sequence numbers as
  \<open>intptr_t\<close>, where an overflow is undefined behaviour.  \<open>compare_exchange_weak\<close> may fail
  spuriously: \<open>spurious\<close> lists, for the successive attempts of a call, whether the attempt fails.
\<close>

section \<open>Definitions\<close>

record 'a MPSCNode =
  nd_sequence :: size_t
  nd_data :: 'a

record 'a MPSCQueue =
  mq_Size :: size_t
  mq_head :: size_t
  mq_tail :: size_t
  mq_nodes :: "'a MPSCNode list"

definition MPSCQueue_new :: "size_t \<Rightarrow> 'a \<Rightarrow> 'a MPSCQueue" where
  "MPSCQueue_new Size dflt = \<lparr>mq_Size = Size, mq_head = 0, mq_tail = 0,
     mq_nodes = map (\<lambda>i. \<lparr>nd_sequence = of_nat i, nd_data = dflt\<rparr>) [0..<unat Size]\<rparr>"

text \<open>\<open>static_cast<intptr_t>(a) - static_cast<intptr_t>(b)\<close>.\<close>

definition intptr_diff :: "size_t \<Rightarrow> size_t \<Rightarrow> int option" where
  "intptr_diff a b = (let d = sint a - sint b in if - (2 ^ 63) \<le> d \<and> d < 2 ^ 63 then Some d else None)"

text \<open>\<open>None\<close> is undefined behaviour or a loop that does not end.\<close>

partial_function (option) mpsc_push ::
  "bool list \<Rightarrow> 'a \<Rightarrow> 'a MPSCQueue \<Rightarrow> (bool \<times> 'a MPSCQueue) option" where
  "mpsc_push spurious item q =
     Option.bind (load (mq_nodes q) (unat (mq_head q AND (mq_Size q - 1)))) (\<lambda>node.
     Option.bind (intptr_diff (nd_sequence node) (mq_head q)) (\<lambda>diff.
       if diff = 0 then
         if spurious \<noteq> [] \<and> hd spurious then mpsc_push (tl spurious) item q
         else Some (True, q\<lparr>mq_head := mq_head q + 1,
           mq_nodes := (mq_nodes q)[unat (mq_head q AND (mq_Size q - 1)) :=
             node\<lparr>nd_data := item, nd_sequence := mq_head q + 1\<rparr>]\<rparr>)
       else if diff < 0 then Some (False, q)
       else mpsc_push spurious item q))"

definition mpsc_pop :: "'a MPSCQueue \<Rightarrow> ('a option \<times> 'a MPSCQueue) option" where
  "mpsc_pop q = do {
     let tail = mq_tail q;
     let idx = unat (tail AND (mq_Size q - 1));
     node \<leftarrow> load (mq_nodes q) idx;
     diff \<leftarrow> intptr_diff (nd_sequence node) (tail + 1);
     if diff = 0 then
       Some (Some (nd_data node), q\<lparr>mq_nodes := (mq_nodes q)[idx :=
         node\<lparr>nd_sequence := tail + mq_Size q\<rparr>], mq_tail := tail + 1\<rparr>)
     else Some (None, q)
   }"

definition mpsc_empty :: "'a MPSCQueue \<Rightarrow> bool option" where
  "mpsc_empty q = do {
     node \<leftarrow> load (mq_nodes q) (unat (mq_tail q AND (mq_Size q - 1)));
     diff \<leftarrow> intptr_diff (nd_sequence node) (mq_tail q + 1);
     Some (diff < 0)
   }"

section \<open>Invariant\<close>

definition mpsc_cap :: "'a MPSCQueue \<Rightarrow> nat" where
  "mpsc_cap q = unat (mq_Size q)"

definition mpsc_contents :: "'a MPSCQueue \<Rightarrow> 'a list" where
  "mpsc_contents q =
     map (\<lambda>p. nd_data (mq_nodes q ! (p mod mpsc_cap q))) [unat (mq_tail q)..<unat (mq_head q)]"

text \<open>
  \<open>mpsc_inv n q\<close>: with positions below 2^63 for \<open>n\<close> more calls, the nodes of the positions between
  tail and head are published, those of the following positions up to tail plus size are free.
\<close>

definition mpsc_inv :: "nat \<Rightarrow> 'a MPSCQueue \<Rightarrow> bool" where
  "mpsc_inv n q \<longleftrightarrow>
     (let N = mpsc_cap q; h = unat (mq_head q); t = unat (mq_tail q);
          sq = (\<lambda>p. unat (nd_sequence (mq_nodes q ! (p mod N)))) in
      size_assert (mq_Size q) \<and> 2 \<le> N \<and> length (mq_nodes q) = N \<and>
      t \<le> h \<and> h \<le> t + N \<and> h + N + n < 2 ^ 63 \<and>
      (\<forall>p. t \<le> p \<and> p < h \<longrightarrow> sq p = p + 1) \<and> (\<forall>p. h \<le> p \<and> p < t + N \<longrightarrow> sq p = p))"

lemma position_diff:
  "x < 2 ^ 63 \<Longrightarrow> y < 2 ^ 63 \<Longrightarrow> - (2 ^ 63) \<le> int x - int y \<and> int x - int y < 2 ^ 63"
  by simp

lemma intptr_diff_small:
  assumes "unat a < 2 ^ 63" "unat b < 2 ^ 63"
  shows "intptr_diff a b = Some (int (unat a) - int (unat b))"
proof -
  have "sint w = int (unat w)" if "unat w < 2 ^ 63" for w :: size_t
  proof -
    have u: "uint w = int (unat w)" by simp
    then have "uint w < 2 ^ 63" using that by (metis of_nat_less_iff of_nat_numeral of_nat_power)
    then show ?thesis
      using signed_take_bit_int_eq_self[of 63 "uint w"] by (simp add: sint_uint u del: of_nat_unat)
  qed
  with assms have "sint a = int (unat a)" "sint b = int (unat b)" by blast+
  then show ?thesis using position_diff[OF assms] by (simp only: intptr_diff_def Let_def if_True simp_thms)
qed


lemma mpsc_invD:
  assumes "mpsc_inv n q"
  defines "N \<equiv> mpsc_cap q"
  shows "2 \<le> N" "length (mq_nodes q) = N" "unat (mq_tail q) \<le> unat (mq_head q)"
    "unat (mq_head q) \<le> unat (mq_tail q) + N" "unat (mq_head q) + N + n < 2 ^ 63"
    "\<And>p. unat (mq_tail q) \<le> p \<Longrightarrow> p < unat (mq_head q) \<Longrightarrow>
      unat (nd_sequence (mq_nodes q ! (p mod N))) = p + 1"
    "\<And>p. unat (mq_head q) \<le> p \<Longrightarrow> p < unat (mq_tail q) + N \<Longrightarrow>
      unat (nd_sequence (mq_nodes q ! (p mod N))) = p"
    "\<And>x. unat (x AND (mq_Size q - 1)) = unat x mod N" "\<And>p. p mod N < length (mq_nodes q)"
proof -
  have "2 \<le> unat (mq_Size q)" using assms(1) by (simp add: mpsc_inv_def Let_def mpsc_cap_def)
  then have "mq_Size q \<noteq> 0" by auto
  then show "\<And>x. unat (x AND (mq_Size q - 1)) = unat x mod N"
    using assms mask_index[of "mq_Size q"] by (simp add: mpsc_inv_def Let_def mpsc_cap_def)
qed (use assms in \<open>auto simp: mpsc_inv_def Let_def\<close>)

lemma length_mpsc_contents [simp]: "length (mpsc_contents q) = unat (mq_head q) - unat (mq_tail q)"
  by (simp add: mpsc_contents_def)

lemma unat_plus_1: "unat x + 1 < 2 ^ 63 \<Longrightarrow> unat (x + 1 :: size_t) = unat x + 1"
  by (simp add: unat_word_ariths)

text \<open>The node a push or a pop looks at, and what the signed difference is there.\<close>

lemma mpsc_head_node:
  assumes "mpsc_inv n q"
  defines "node \<equiv> mq_nodes q ! (unat (mq_head q) mod mpsc_cap q)"
  shows "intptr_diff (nd_sequence node) (mq_head q) =
    Some (if length (mpsc_contents q) < mpsc_cap q then 0 else 1 - int (mpsc_cap q))"
proof (cases "unat (mq_head q) < unat (mq_tail q) + mpsc_cap q")
  case True
  note d = mpsc_invD[OF assms(1)]
  have "unat (nd_sequence node) = unat (mq_head q)" using d(7)[of "unat (mq_head q)"] True by (simp add: node_def)
  moreover have "unat (mq_head q) - unat (mq_tail q) < mpsc_cap q" using True d(3) by arith
  ultimately show ?thesis using d(5) by (simp add: intptr_diff_small)
next
  case False
  note d = mpsc_invD[OF assms(1)]
  have h: "unat (mq_head q) = unat (mq_tail q) + mpsc_cap q" using False d(4) by simp
  then have "unat (nd_sequence node) = unat (mq_tail q) + 1"
    using d(6)[of "unat (mq_tail q)"] d(1) by (simp add: node_def)
  then show ?thesis using d(1,5) h by (simp add: intptr_diff_small)
qed

lemma mpsc_tail_node:
  assumes "mpsc_inv n q"
  defines "node \<equiv> mq_nodes q ! (unat (mq_tail q) mod mpsc_cap q)"
  shows "intptr_diff (nd_sequence node) (mq_tail q + 1) =
    Some (if mpsc_contents q = [] then - 1 else 0)"
proof -
  note d = mpsc_invD[OF assms(1)]
  have t1: "unat (mq_tail q + 1) = unat (mq_tail q) + 1" using d(1,3,5) by (intro unat_plus_1) simp
  have "mpsc_contents q = [] \<longleftrightarrow> unat (mq_tail q) = unat (mq_head q)"
    using d(3) by (auto simp: mpsc_contents_def)
  moreover have "unat (nd_sequence node) = unat (mq_tail q) + of_bool (mpsc_contents q \<noteq> [])"
    using d(1,3) d(6)[of "unat (mq_tail q)"] d(7)[of "unat (mq_tail q)"] calculation by (auto simp: node_def)
  ultimately show ?thesis using d(1,3,5) by (subst intptr_diff_small) (auto simp: t1)
qed

lemma mpsc_push_full:
  assumes "mpsc_inv n q" "length (mpsc_contents q) = mpsc_cap q"
  shows "mpsc_push spurious x q = Some (False, q)"
proof -
  note d = mpsc_invD[OF assms(1)]
  show ?thesis using mpsc_head_node[OF assms(1)] assms(2) d(1)
    by (subst mpsc_push.simps) (simp add: d(8,9))
qed

text \<open>The queue after a successful push and after a successful pop.\<close>

definition mpsc_pushed :: "'a \<Rightarrow> 'a MPSCQueue \<Rightarrow> 'a MPSCQueue" where
  "mpsc_pushed x q = (let i = unat (mq_head q) mod mpsc_cap q in
     q\<lparr>mq_head := mq_head q + 1, mq_nodes := (mq_nodes q)[i :=
       (mq_nodes q ! i)\<lparr>nd_data := x, nd_sequence := mq_head q + 1\<rparr>]\<rparr>)"

definition mpsc_popped :: "'a MPSCQueue \<Rightarrow> 'a MPSCQueue" where
  "mpsc_popped q = (let i = unat (mq_tail q) mod mpsc_cap q in
     q\<lparr>mq_nodes := (mq_nodes q)[i := (mq_nodes q ! i)\<lparr>nd_sequence := mq_tail q + mq_Size q\<rparr>],
       mq_tail := mq_tail q + 1\<rparr>)"

lemma mpsc_after_fields [simp]:
  "mq_Size (mpsc_pushed x q) = mq_Size q" "mq_Size (mpsc_popped q) = mq_Size q"
  "mpsc_cap (mpsc_pushed x q) = mpsc_cap q" "mpsc_cap (mpsc_popped q) = mpsc_cap q"
  "mq_head (mpsc_pushed x q) = mq_head q + 1" "mq_head (mpsc_popped q) = mq_head q"
  "mq_tail (mpsc_pushed x q) = mq_tail q" "mq_tail (mpsc_popped q) = mq_tail q + 1"
  "length (mq_nodes (mpsc_pushed x q)) = length (mq_nodes q)"
  "length (mq_nodes (mpsc_popped q)) = length (mq_nodes q)"
  by (simp_all add: mpsc_pushed_def mpsc_popped_def mpsc_cap_def Let_def)

lemma mpsc_push_room:
  assumes "mpsc_inv n q" "length (mpsc_contents q) < mpsc_cap q"
  shows "mpsc_push spurious x q = Some (True, mpsc_pushed x q)"
proof (induction spurious)
  case Nil
  note d = mpsc_invD[OF assms(1)]
  show ?case using mpsc_head_node[OF assms(1)] assms(2)
    by (subst mpsc_push.simps) (simp add: d(8,9) mpsc_pushed_def Let_def)
next
  case (Cons b sp)
  note d = mpsc_invD[OF assms(1)]
  show ?case using mpsc_head_node[OF assms(1)] assms(2) Cons
    by (subst mpsc_push.simps) (simp add: d(8,9) mpsc_pushed_def Let_def)
qed

section \<open>The queue implements the contract\<close>

text \<open>Writing the node of one position of a window leaves the nodes of the others.\<close>

lemma window_update:
  assumes "p \<noteq> k" "lo \<le> p" "p < lo + N" "lo \<le> k" "k < lo + N"
  shows "(xs[k mod N := y]) ! (p mod N) = xs ! (p mod N)"
  using mod_eq_within_window[of p N k lo] assms by (metis nth_list_update_neq)

lemma mpsc_push_inv:
  assumes inv: "mpsc_inv (Suc n) q" and room: "length (mpsc_contents q) < mpsc_cap q"
  shows "mpsc_inv n (mpsc_pushed x q)" "mpsc_contents (mpsc_pushed x q) = mpsc_contents q @ [x]"
proof -
  let ?q' = "mpsc_pushed x q"
  let ?N = "mpsc_cap q" and ?h = "unat (mq_head q)" and ?t = "unat (mq_tail q)"
  note d = mpsc_invD[OF inv]
  have lt: "?h < ?t + ?N" using room d(3) by simp
  have h1: "unat (mq_head q + 1) = ?h + 1" using d(5) by (intro unat_plus_1) simp
  have other: "mq_nodes ?q' ! (p mod ?N) = mq_nodes q ! (p mod ?N)"
    if "p \<noteq> ?h" "?t \<le> p" "p < ?t + ?N" for p
    using window_update[OF that d(3) lt] by (simp add: mpsc_pushed_def Let_def)
  have here: "mq_nodes ?q' ! (?h mod ?N) =
      (mq_nodes q ! (?h mod ?N))\<lparr>nd_data := x, nd_sequence := mq_head q + 1\<rparr>"
    using d(9) by (simp add: mpsc_pushed_def Let_def)
  have pub: "unat (nd_sequence (mq_nodes ?q' ! (p mod ?N))) = p + 1" if "?t \<le> p" "p < ?h + 1" for p
    using that other[of p] here h1 d(6)[of p] lt by (cases "p = ?h") simp_all
  have free: "unat (nd_sequence (mq_nodes ?q' ! (p mod ?N))) = p" if "?h + 1 \<le> p" "p < ?t + ?N" for p
    using that other[of p] d(3) d(7)[of p] by simp
  show "mpsc_contents ?q' = mpsc_contents q @ [x]"
    using d(3) other here h1 lt by (simp add: mpsc_contents_def)
  show "mpsc_inv n ?q'"
    using inv pub free h1 lt by (auto simp: mpsc_inv_def Let_def)
qed

lemma mpsc_pop_inv:
  assumes inv: "mpsc_inv n q" and ne: "mpsc_contents q \<noteq> []"
  shows "mpsc_pop q = Some (Some (hd (mpsc_contents q)), mpsc_popped q)"
    "mpsc_inv n (mpsc_popped q)" "mpsc_contents (mpsc_popped q) = tl (mpsc_contents q)"
proof -
  let ?q' = "mpsc_popped q"
  let ?N = "mpsc_cap q" and ?h = "unat (mq_head q)" and ?t = "unat (mq_tail q)"
  note d = mpsc_invD[OF inv]
  have lt: "?t < ?h" using ne d(3) by (metis length_mpsc_contents length_greater_0_conv zero_less_diff)
  have t1: "unat (mq_tail q + 1) = ?t + 1" using d(5) lt by (intro unat_plus_1) simp
  have tN: "unat (mq_tail q + mq_Size q) = ?t + ?N"
    using d(5) lt by (simp add: unat_word_ariths mpsc_cap_def)
  have c: "mpsc_contents q = nd_data (mq_nodes q ! (?t mod ?N)) #
      map (\<lambda>p. nd_data (mq_nodes q ! (p mod ?N))) [?t + 1..<?h]"
    using lt by (simp add: mpsc_contents_def upt_conv_Cons)
  show "mpsc_pop q = Some (Some (hd (mpsc_contents q)), mpsc_popped q)"
    using mpsc_tail_node[OF inv] ne c by (simp add: mpsc_pop_def d(8,9) mpsc_popped_def Let_def)
  have other: "mq_nodes ?q' ! (p mod ?N) = mq_nodes q ! (p mod ?N)"
    if "p \<noteq> ?t" "?t \<le> p" "p < ?t + ?N" for p
    using window_update[OF that order_refl] d(1) by (simp add: mpsc_popped_def Let_def)
  have here: "mq_nodes ?q' ! ((?t + ?N) mod ?N) =
      (mq_nodes q ! (?t mod ?N))\<lparr>nd_sequence := mq_tail q + mq_Size q\<rparr>"
    using d(9) by (simp add: mpsc_popped_def Let_def)
  have free: "unat (nd_sequence (mq_nodes ?q' ! (p mod ?N))) = p" if "?h \<le> p" "p < ?t + 1 + ?N" for p
    using that other[of p] here tN d(7)[of p] lt by (cases "p = ?t + ?N") simp_all
  have pub: "unat (nd_sequence (mq_nodes ?q' ! (p mod ?N))) = p + 1" if "?t + 1 \<le> p" "p < ?h" for p
    using that other[of p] d(4) d(6)[of p] by simp
  show "mpsc_contents ?q' = tl (mpsc_contents q)"
    unfolding c using other d(4) by (simp add: mpsc_contents_def t1)
  show "mpsc_inv n ?q'"
    using inv pub free t1 lt by (auto simp: mpsc_inv_def Let_def)
qed

lemma mpsc_inv_less: "mpsc_inv (Suc n) q \<Longrightarrow> mpsc_inv n q"
  by (simp add: mpsc_inv_def Let_def)

interpretation mpsc: budgeted_fifo "mpsc_push spurious" mpsc_pop mpsc_contents mpsc_cap mpsc_inv
  for spurious
proof unfold_locales
  fix n and q :: "'a MPSCQueue" and x :: 'a and xs
  show "mpsc_push spurious x q = Some (False, q)"
    if "mpsc_inv (Suc n) q" "length (mpsc_contents q) = mpsc_cap q"
    by (rule mpsc_push_full[OF that])
  show "\<exists>q'. mpsc_push spurious x q = Some (True, q') \<and> mpsc_inv n q' \<and>
      mpsc_contents q' = mpsc_contents q @ [x] \<and> mpsc_cap q' = mpsc_cap q"
    if "mpsc_inv (Suc n) q" "length (mpsc_contents q) < mpsc_cap q"
    using mpsc_push_room[OF that] mpsc_push_inv[OF that] by simp
  show "mpsc_pop q = Some (None, q)" if "mpsc_inv (Suc n) q" "mpsc_contents q = []"
    using mpsc_tail_node[OF that(1)] that(2) mpsc_invD(8,9)[OF that(1)] by (simp add: mpsc_pop_def Let_def)
  show "\<exists>q'. mpsc_pop q = Some (Some x, q') \<and> mpsc_inv n q' \<and> mpsc_contents q' = xs \<and>
      mpsc_cap q' = mpsc_cap q" if "mpsc_inv (Suc n) q" "mpsc_contents q = x # xs"
    using mpsc_pop_inv[OF that(1)] that(2) mpsc_inv_less by fastforce
  show "length (mpsc_contents q) \<le> mpsc_cap q" if "mpsc_inv n q"
    using mpsc_invD(4)[OF that] by simp
  show "mpsc_inv n q" if "mpsc_inv (Suc n) q"
    using mpsc_inv_less[OF that] .
qed

lemma mpsc_new:
  assumes "size_assert N" "2 \<le> unat N" "unat N + n < 2 ^ 63"
  shows "mpsc_inv n (MPSCQueue_new N d)" "mpsc_contents (MPSCQueue_new N d) = []"
    "mpsc_cap (MPSCQueue_new N d) = unat N"
  using assms by (auto simp: mpsc_inv_def Let_def MPSCQueue_new_def mpsc_cap_def mpsc_contents_def
      unat_of_nat)

section \<open>Size one\<close>

text \<open>A queue of size 1 that took two pushes, good for \<open>n\<close> more.\<close>

definition wedged :: "'a MPSCQueue \<Rightarrow> nat \<Rightarrow> bool" where
  "wedged q n \<longleftrightarrow> mq_Size q = 1 \<and> mq_tail q = 0 \<and> 2 \<le> unat (mq_head q) \<and>
     unat (mq_head q) + n < 2 ^ 63 \<and> length (mq_nodes q) = 1 \<and>
     nd_sequence (mq_nodes q ! 0) = mq_head q"

lemma wedged_push:
  assumes "wedged q (Suc n)"
  shows "\<exists>q'. mpsc_push [] x q = Some (True, q') \<and> wedged q' n"
proof -
  have h: "unat (mq_head q) < 2 ^ 63" "unat (mq_head q + 1) = unat (mq_head q) + 1"
    using assms by (simp_all add: wedged_def unat_plus_1)
  have "intptr_diff (mq_head q) (mq_head q) = Some 0" using h(1) by (simp add: intptr_diff_small)
  with assms h(2) show ?thesis
    by (subst mpsc_push.simps) (auto simp: wedged_def)
qed

lemma wedged_pop:
  assumes "wedged q n"
  shows "mpsc_pop q = Some (None, q)"
proof -
  have h: "unat (mq_head q) < 2 ^ 63" "2 \<le> unat (mq_head q)" using assms by (simp_all add: wedged_def)
  then have "intptr_diff (mq_head q) (0 + 1) = Some (int (unat (mq_head q)) - 1)"
    by (subst intptr_diff_small) simp_all
  moreover have "int (unat (mq_head q)) - 1 \<noteq> 0" using h(2) by linarith
  ultimately show ?thesis using assms by (simp add: mpsc_pop_def wedged_def Let_def)
qed

lemma wedged_run:
  "wedged q (length ps) \<Longrightarrow> \<exists>rs q'. run_ops (mpsc_push []) mpsc_pop ps q = Some (rs, q') \<and> handed_out rs = []"
proof (induction ps arbitrary: q)
  case (Cons p ps)
  show ?case
  proof (cases p)
    case (Push x)
    obtain q1 where "mpsc_push [] x q = Some (True, q1)" "wedged q1 (length ps)"
      using wedged_push[of q "length ps" x] Cons.prems by auto
    with Cons.IH Push show ?thesis by fastforce
  next
    case Pop
    have "wedged q (length ps)" using Cons.prems by (simp add: wedged_def)
    with Cons.IH[OF this] Pop wedged_pop[OF this] show ?thesis by auto
  qed
qed simp

section \<open>Properties\<close>

text \<open>
  C13: every sequence of calls on a fresh queue of size at least 2 that passes the
  \<open>static_assert\<close>, short enough that positions stay below 2^63, runs without undefined behaviour and
  returns however often \<open>compare_exchange_weak\<close> fails spuriously, and answers exactly as the abstract
  bounded queue of capacity \<open>Size\<close>; \<open>empty\<close> afterwards reports whether the queue is empty.
\<close>

theorem mpsc_calls_refine_fifo:
  assumes "size_assert N" "2 \<le> unat N" "unat N + length ps < 2 ^ 63"
  shows "\<exists>q'. run_ops (mpsc_push spurious) mpsc_pop ps (MPSCQueue_new N d) =
      Some (fst (spec_run (unat N) ps []), q') \<and>
      accepted ps (fst (spec_run (unat N) ps [])) =
        handed_out (fst (spec_run (unat N) ps [])) @ mpsc_contents q' \<and>
      mpsc_empty q' = Some (mpsc_contents q' = [])"
proof -
  obtain q' where q': "run_ops (mpsc_push spurious) mpsc_pop ps (MPSCQueue_new N d) =
      Some (fst (spec_run (unat N) ps []), q')" "mpsc_inv 0 q'"
      "mpsc_contents q' = snd (spec_run (unat N) ps [])"
    using mpsc.run_refines[OF mpsc_new(1)[OF assms], of spurious d] mpsc_new(2,3)[OF assms, of d] by auto
  have "mpsc_empty q' = Some (mpsc_contents q' = [])"
    using mpsc_tail_node[OF q'(2)] mpsc_invD(8,9)[OF q'(2)] by (simp add: mpsc_empty_def)
  then show ?thesis using q' spec_run_fifo[of "[]" ps "unat N"] by auto
qed

theorem mpsc_calls_refine_fifo_witness:
  "\<exists>q'. run_ops (mpsc_push [True]) mpsc_pop [Push 1, Push (2::int), Push 3, Pop, Push 4, Pop]
        (MPSCQueue_new 2 0) =
      Some ([Pushed True, Pushed True, Pushed False, Popped (Some 1), Pushed True, Popped (Some 2)], q') \<and>
    mpsc_contents q' = [4]"
  using mpsc_calls_refine_fifo[of 2 "[Push 1, Push (2::int), Push 3, Pop, Push 4, Pop]" "[True]" 0]
  by (auto simp: size_assert_def)

text \<open>
  C40: with \<open>Size = 1\<close>, which the \<open>static_assert\<close> admits, the node of a published position looks free
  to the next push.  After a first push the only node holds its item; the second push succeeds although
  nothing was popped, and the node then holds the second item, so the first one is lost.  From then on
  no sequence of fewer than 2^62 further calls hands out anything, whatever is pushed.
\<close>

theorem mpsc_size_one_wedges:
  "size_assert 1 \<and>
   (\<exists>q1 q2. mpsc_push [] a (MPSCQueue_new 1 d) = Some (True, q1) \<and> map nd_data (mq_nodes q1) = [a] \<and>
     mpsc_push [] b q1 = Some (True, q2) \<and> map nd_data (mq_nodes q2) = [b] \<and>
     (\<forall>ps. length ps < 2 ^ 62 \<longrightarrow>
       (\<exists>rs q'. run_ops (mpsc_push []) mpsc_pop ps q2 = Some (rs, q') \<and> handed_out rs = [])))"
proof -
  have idiff: "intptr_diff 0 0 = Some 0" "intptr_diff 1 1 = Some 0" by (simp_all add: intptr_diff_small)
  define q1 where "q1 = \<lparr>mq_Size = 1, mq_head = 1, mq_tail = 0,
    mq_nodes = [\<lparr>nd_sequence = 1, nd_data = a\<rparr>]\<rparr>"
  define q2 where "q2 = \<lparr>mq_Size = 1, mq_head = 2, mq_tail = 0,
    mq_nodes = [\<lparr>nd_sequence = 2, nd_data = b\<rparr>]\<rparr>"
  have "mpsc_push [] a (MPSCQueue_new 1 d) = Some (True, q1)"
    by (subst mpsc_push.simps) (simp add: MPSCQueue_new_def idiff q1_def)
  moreover have "mpsc_push [] b q1 = Some (True, q2)"
    by (subst mpsc_push.simps) (simp add: q1_def q2_def idiff)
  moreover have "map nd_data (mq_nodes q1) = [a]" "map nd_data (mq_nodes q2) = [b]"
    by (simp_all add: q1_def q2_def)
  moreover have "\<exists>rs q'. run_ops (mpsc_push []) mpsc_pop ps q2 = Some (rs, q') \<and> handed_out rs = []"
    if "length ps < 2 ^ 62" for ps
  proof -
    have "wedged q2 (length ps)" using that by (simp add: wedged_def q2_def)
    then show ?thesis using wedged_run by blast
  qed
  moreover have "size_assert 1" by (simp add: size_assert_def)
  ultimately show ?thesis by (intro conjI exI[of _ q1] exI[of _ q2]) simp_all
qed

theorem mpsc_size_one_wedges_witness:
  "\<exists>q1 q2 rs q'. mpsc_push [] 1 (MPSCQueue_new 1 0) = Some (True, q1) \<and>
     mpsc_push [] (2 :: int) q1 = Some (True, q2) \<and> map nd_data (mq_nodes q2) = [2] \<and>
     run_ops (mpsc_push []) mpsc_pop [Pop, Push 3, Pop] q2 = Some (rs, q') \<and> handed_out rs = []"
proof -
  obtain q1 q2 where q: "mpsc_push [] 1 (MPSCQueue_new 1 0) = Some (True, q1)"
    "mpsc_push [] (2 :: int) q1 = Some (True, q2)" "map nd_data (mq_nodes q2) = [2]"
    and run: "\<forall>ps. length ps < 2 ^ 62 \<longrightarrow>
      (\<exists>rs q'. run_ops (mpsc_push []) mpsc_pop ps q2 = Some (rs, q') \<and> handed_out rs = [])"
    using mpsc_size_one_wedges[of 1 0 "2 :: int"] by (elim conjE exE)
  show ?thesis using q run[rule_format, of "[Pop, Push 3, Pop]"] by auto
qed

end
