(* ===== verification/MPSC_Concurrent.thy ===== *)
theory MPSC_Concurrent
  imports MPSC_Queue
begin

text \<open>
  \<open>MPSCQueue\<close> with any number of producer threads and one consumer thread, interleaved access by
  access.  A load of \<open>head_\<close> may return any earlier value, and a load of a node's sequence number
  may return any value of that node's modification order, which is kept as a list; the
  compare-exchange reads the current \<open>head_\<close> and may fail spuriously.  History variables record the
  claimed items with their producer in claim order, the items whose \<open>push\<close> has returned \<open>true\<close> per
  producer, and the popped items.
\<close>

section \<open>Threads and steps\<close>

datatype 'a mpsc_producer_pc =
    M_Idle | M_Load 'a | M_Seq 'a size_t | M_Cas 'a size_t | M_Write 'a size_t | M_Publish 'a size_t

datatype mpsc_consumer_pc =
    K_Idle | K_Seq size_t | K_Read size_t | K_Release size_t | K_Tail size_t

record 'a mpsc_sys =
  ms_Size :: size_t
  ms_head :: size_t
  ms_tail :: size_t
  ms_data :: "'a list"
  ms_seqs :: "size_t list list"
  ms_prod :: "nat \<Rightarrow> 'a mpsc_producer_pc"
  ms_cons :: mpsc_consumer_pc
  ms_claimed :: "(nat \<times> 'a) list"
  ms_done :: "nat \<Rightarrow> 'a list"
  ms_popped :: "'a list"

definition mpsc_sys_init :: "size_t \<Rightarrow> 'a \<Rightarrow> 'a mpsc_sys" where
  "mpsc_sys_init Size dflt = \<lparr>ms_Size = Size, ms_head = 0, ms_tail = 0,
     ms_data = replicate (unat Size) dflt, ms_seqs = map (\<lambda>i. [of_nat i]) [0..<unat Size],
     ms_prod = (\<lambda>_. M_Idle), ms_cons = K_Idle, ms_claimed = [], ms_done = (\<lambda>_. []), ms_popped = []\<rparr>"

abbreviation slot :: "'a mpsc_sys \<Rightarrow> size_t \<Rightarrow> nat" where
  "slot s x \<equiv> unat (x AND (ms_Size s - 1))"

inductive mpsc_step :: "'a mpsc_sys \<Rightarrow> 'a mpsc_sys \<Rightarrow> bool" where
  push_call:
    "ms_prod s j = M_Idle \<Longrightarrow> mpsc_step s (s\<lparr>ms_prod := (ms_prod s)(j := M_Load x)\<rparr>)"
| push_load_head:
    "ms_prod s j = M_Load x \<Longrightarrow> h \<le> ms_head s \<Longrightarrow>
     mpsc_step s (s\<lparr>ms_prod := (ms_prod s)(j := M_Seq x h)\<rparr>)"
| push_load_free:
    "ms_prod s j = M_Seq x h \<Longrightarrow> v \<in> set (ms_seqs s ! slot s h) \<Longrightarrow> intptr_diff v h = Some 0 \<Longrightarrow>
     mpsc_step s (s\<lparr>ms_prod := (ms_prod s)(j := M_Cas x h)\<rparr>)"
| push_full:
    "ms_prod s j = M_Seq x h \<Longrightarrow> v \<in> set (ms_seqs s ! slot s h) \<Longrightarrow> intptr_diff v h = Some d \<Longrightarrow>
     d < 0 \<Longrightarrow> mpsc_step s (s\<lparr>ms_prod := (ms_prod s)(j := M_Idle)\<rparr>)"
| push_behind:
    "ms_prod s j = M_Seq x h \<Longrightarrow> v \<in> set (ms_seqs s ! slot s h) \<Longrightarrow> intptr_diff v h = Some d \<Longrightarrow>
     d > 0 \<Longrightarrow> mpsc_step s (s\<lparr>ms_prod := (ms_prod s)(j := M_Load x)\<rparr>)"
| push_claim:
    "ms_prod s j = M_Cas x h \<Longrightarrow> ms_head s = h \<Longrightarrow>
     mpsc_step s (s\<lparr>ms_head := h + 1, ms_claimed := ms_claimed s @ [(j, x)],
       ms_prod := (ms_prod s)(j := M_Write x h)\<rparr>)"
| push_claim_fails:
    "ms_prod s j = M_Cas x h \<Longrightarrow> mpsc_step s (s\<lparr>ms_prod := (ms_prod s)(j := M_Load x)\<rparr>)"
| push_write:
    "ms_prod s j = M_Write x h \<Longrightarrow>
     mpsc_step s (s\<lparr>ms_data := (ms_data s)[slot s h := x], ms_prod := (ms_prod s)(j := M_Publish x h)\<rparr>)"
| push_publish:
    "ms_prod s j = M_Publish x h \<Longrightarrow>
     mpsc_step s (s\<lparr>ms_seqs := (ms_seqs s)[slot s h := ms_seqs s ! slot s h @ [h + 1]],
       ms_done := (ms_done s)(j := ms_done s j @ [x]), ms_prod := (ms_prod s)(j := M_Idle)\<rparr>)"
| pop_call:
    "ms_cons s = K_Idle \<Longrightarrow> mpsc_step s (s\<lparr>ms_cons := K_Seq (ms_tail s)\<rparr>)"
| pop_hit:
    "ms_cons s = K_Seq t \<Longrightarrow> v \<in> set (ms_seqs s ! slot s t) \<Longrightarrow> intptr_diff v (t + 1) = Some 0 \<Longrightarrow>
     mpsc_step s (s\<lparr>ms_cons := K_Read t\<rparr>)"
| pop_miss:
    "ms_cons s = K_Seq t \<Longrightarrow> v \<in> set (ms_seqs s ! slot s t) \<Longrightarrow> intptr_diff v (t + 1) = Some d \<Longrightarrow>
     d \<noteq> 0 \<Longrightarrow> mpsc_step s (s\<lparr>ms_cons := K_Idle\<rparr>)"
| pop_read:
    "ms_cons s = K_Read t \<Longrightarrow>
     mpsc_step s (s\<lparr>ms_popped := ms_popped s @ [ms_data s ! slot s t], ms_cons := K_Release t\<rparr>)"
| pop_release:
    "ms_cons s = K_Release t \<Longrightarrow>
     mpsc_step s (s\<lparr>ms_seqs := (ms_seqs s)[slot s t := ms_seqs s ! slot s t @ [t + ms_Size s]],
       ms_cons := K_Tail t\<rparr>)"
| pop_tail:
    "ms_cons s = K_Tail t \<Longrightarrow> mpsc_step s (s\<lparr>ms_tail := t + 1, ms_cons := K_Idle\<rparr>)"

inductive mpsc_reach :: "size_t \<Rightarrow> 'a \<Rightarrow> 'a mpsc_sys \<Rightarrow> bool" for Size dflt where
  reach_init: "mpsc_reach Size dflt (mpsc_sys_init Size dflt)"
| reach_step: "mpsc_reach Size dflt s \<Longrightarrow> mpsc_step s s' \<Longrightarrow> mpsc_reach Size dflt s'"

section \<open>Invariant\<close>

abbreviation width :: "'a mpsc_sys \<Rightarrow> nat" where "width s \<equiv> unat (ms_Size s)"

abbreviation claims :: "'a mpsc_sys \<Rightarrow> nat" where "claims s \<equiv> length (ms_claimed s)"

text \<open>Positions whose node has been released, and positions claimed and not yet published.\<close>

definition released :: "'a mpsc_sys \<Rightarrow> nat" where
  "released s = unat (ms_tail s) + (case ms_cons s of K_Tail t \<Rightarrow> 1 | _ \<Rightarrow> 0)"

fun pos_of :: "'a mpsc_producer_pc \<Rightarrow> nat option" where
  "pos_of (M_Write x h) = Some (unat h)"
| "pos_of (M_Publish x h) = Some (unat h)"
| "pos_of _ = None"

fun item_of :: "'a mpsc_producer_pc \<Rightarrow> 'a list" where
  "item_of (M_Write x h) = [x]"
| "item_of (M_Publish x h) = [x]"
| "item_of _ = []"

definition pending :: "'a mpsc_sys \<Rightarrow> nat \<Rightarrow> bool" where
  "pending s p \<longleftrightarrow> (\<exists>j. pos_of (ms_prod s j) = Some p)"

text \<open>What the local variables of the threads promise.\<close>

fun prod_ok :: "'a mpsc_sys \<Rightarrow> nat \<Rightarrow> 'a mpsc_producer_pc \<Rightarrow> bool" where
  "prod_ok s j (M_Seq x h) \<longleftrightarrow> unat h \<le> claims s"
| "prod_ok s j (M_Cas x h) \<longleftrightarrow> unat h \<le> claims s \<and> unat h < released s + width s"
| "prod_ok s j (M_Write x h) \<longleftrightarrow> released s \<le> unat h \<and> unat h < claims s \<and>
     ms_claimed s ! unat h = (j, x)"
| "prod_ok s j (M_Publish x h) \<longleftrightarrow> released s \<le> unat h \<and> unat h < claims s \<and>
     ms_claimed s ! unat h = (j, x) \<and> ms_data s ! (unat h mod width s) = x"
| "prod_ok s j _ \<longleftrightarrow> True"

fun cons_ok :: "'a mpsc_sys \<Rightarrow> mpsc_consumer_pc \<Rightarrow> bool" where
  "cons_ok s K_Idle \<longleftrightarrow> True"
| "cons_ok s (K_Seq t) \<longleftrightarrow> t = ms_tail s"
| "cons_ok s (K_Read t) \<longleftrightarrow> t = ms_tail s \<and> unat t < claims s \<and> \<not> pending s (unat t)"
| "cons_ok s (K_Release t) \<longleftrightarrow> t = ms_tail s \<and> unat t < claims s \<and> \<not> pending s (unat t)"
| "cons_ok s (K_Tail t) \<longleftrightarrow> t = ms_tail s \<and> unat t < claims s"

text \<open>The values a node's sequence number has taken.\<close>

definition seq_ok :: "'a mpsc_sys \<Rightarrow> nat \<Rightarrow> size_t \<Rightarrow> bool" where
  "seq_ok s i v \<longleftrightarrow> (if unat v mod width s = i then unat v < released s + width s
     else 0 < unat v \<and> (unat v - 1) mod width s = i \<and> unat v - 1 < claims s \<and> \<not> pending s (unat v - 1))"

definition mpsc_sys_inv :: "'a mpsc_sys \<Rightarrow> bool" where
  "mpsc_sys_inv s \<longleftrightarrow>
     size_assert (ms_Size s) \<and> 2 \<le> width s \<and> length (ms_data s) = width s \<and>
     length (ms_seqs s) = width s \<and> claims s + width s < 2 ^ 63 \<and>
     unat (ms_head s) = claims s \<and> released s \<le> claims s \<and> claims s \<le> released s + width s \<and>
     (\<forall>p. released s \<le> p \<and> p < released s + width s \<longrightarrow> ms_seqs s ! (p mod width s) \<noteq> [] \<and>
        unat (last (ms_seqs s ! (p mod width s))) = (if p < claims s \<and> \<not> pending s p then p + 1 else p)) \<and>
     (\<forall>p. released s \<le> p \<and> p < claims s \<and> \<not> pending s p \<longrightarrow>
        ms_data s ! (p mod width s) = snd (ms_claimed s ! p)) \<and>
     (\<forall>j. prod_ok s j (ms_prod s j)) \<and> cons_ok s (ms_cons s) \<and>
     (\<forall>i<width s. \<forall>v\<in>set (ms_seqs s ! i). seq_ok s i v) \<and>
     (\<forall>j. map snd (filter (\<lambda>c. fst c = j) (ms_claimed s)) = ms_done s j @ item_of (ms_prod s j)) \<and>
     ms_popped s = map snd (take (released s + (case ms_cons s of K_Release t \<Rightarrow> 1 | _ \<Rightarrow> 0)) (ms_claimed s))"

lemma mpsc_sys_inv_init:
  assumes "size_assert N" "2 \<le> unat N" "unat N < 2 ^ 63"
  shows "mpsc_sys_inv (mpsc_sys_init N d)"
  using assms
  by (auto simp: mpsc_sys_inv_def mpsc_sys_init_def released_def pending_def seq_ok_def unat_of_nat)

lemma mpsc_step_claims: "mpsc_step s s' \<Longrightarrow> claims s \<le> claims s' \<and> ms_Size s' = ms_Size s"
  by (induction rule: mpsc_step.induct) auto

lemma invD:
  assumes "mpsc_sys_inv s"
  shows "2 \<le> width s" "length (ms_data s) = width s" "length (ms_seqs s) = width s"
    "claims s + width s < 2 ^ 63" "unat (ms_head s) = claims s" "released s \<le> claims s"
    "claims s \<le> released s + width s"
    "\<And>p. released s \<le> p \<Longrightarrow> p < released s + width s \<Longrightarrow> ms_seqs s ! (p mod width s) \<noteq> [] \<and>
       unat (last (ms_seqs s ! (p mod width s))) = (if p < claims s \<and> \<not> pending s p then p + 1 else p)"
    "\<And>p. released s \<le> p \<Longrightarrow> p < claims s \<Longrightarrow> \<not> pending s p \<Longrightarrow>
       ms_data s ! (p mod width s) = snd (ms_claimed s ! p)"
    "\<And>j. prod_ok s j (ms_prod s j)" "cons_ok s (ms_cons s)"
    "\<And>i v. i < width s \<Longrightarrow> v \<in> set (ms_seqs s ! i) \<Longrightarrow> seq_ok s i v"
    "\<And>j. map snd (filter (\<lambda>c. fst c = j) (ms_claimed s)) = ms_done s j @ item_of (ms_prod s j)"
    "ms_popped s = map snd (take (released s + (case ms_cons s of K_Release t \<Rightarrow> 1 | _ \<Rightarrow> 0)) (ms_claimed s))"
  using assms by (auto simp: mpsc_sys_inv_def)

lemma inv_slot:
  assumes "mpsc_sys_inv s"
  shows "slot s x = unat x mod width s"
proof -
  have "size_assert (ms_Size s)" "ms_Size s \<noteq> 0" using assms by (auto simp: mpsc_sys_inv_def)
  then show ?thesis by (rule mask_index)
qed

lemma intptr_diff_zero: "intptr_diff a b = Some 0 \<Longrightarrow> a = b"
  by (auto simp: intptr_diff_def Let_def split: if_splits intro: signed_word_eqI)

lemma released_frame [simp]:
  "released (s\<lparr>ms_prod := f\<rparr>) = released s" "released (s\<lparr>ms_head := h\<rparr>) = released s"
  "released (s\<lparr>ms_claimed := c\<rparr>) = released s" "released (s\<lparr>ms_data := xs\<rparr>) = released s"
  "released (s\<lparr>ms_seqs := ss\<rparr>) = released s" "released (s\<lparr>ms_done := dn\<rparr>) = released s"
  "released (s\<lparr>ms_popped := pp\<rparr>) = released s"
  by (simp_all add: released_def)

lemma pending_simps [simp]:
  "pending (s\<lparr>ms_tail := t\<rparr>) = pending s" "pending (s\<lparr>ms_head := h\<rparr>) = pending s"
  "pending (s\<lparr>ms_claimed := c\<rparr>) = pending s" "pending (s\<lparr>ms_data := xs\<rparr>) = pending s"
  "pending (s\<lparr>ms_seqs := ss\<rparr>) = pending s" "pending (s\<lparr>ms_done := dn\<rparr>) = pending s"
  "pending (s\<lparr>ms_popped := pp\<rparr>) = pending s" "pending (s\<lparr>ms_cons := k\<rparr>) = pending s"
  by (simp_all add: pending_def fun_eq_iff)

lemma prod_ok_frame [simp]: "prod_ok (s\<lparr>ms_prod := f\<rparr>) j pc = prod_ok s j pc"
  by (cases pc) simp_all

lemma pending_frame:
  "pos_of pc = pos_of (ms_prod s j) \<Longrightarrow> pending (s\<lparr>ms_prod := (ms_prod s)(j := pc)\<rparr>) = pending s"
  by (auto simp: pending_def fun_eq_iff)

lemma inv_local:
  assumes inv: "mpsc_sys_inv s" and ok: "prod_ok s j pc"
    and same: "pos_of pc = pos_of (ms_prod s j)" "item_of pc = item_of (ms_prod s j)"
  shows "mpsc_sys_inv (s\<lparr>ms_prod := (ms_prod s)(j := pc)\<rparr>)"
proof -
  let ?s' = "s\<lparr>ms_prod := (ms_prod s)(j := pc)\<rparr>"
  note pf = pending_frame[OF same(1)]
  have "cons_ok ?s' k = cons_ok s k" for k by (cases k) (simp_all add: pf)
  moreover have "seq_ok ?s' i v = seq_ok s i v" for i v by (simp add: seq_ok_def pf)
  moreover have "item_of (((ms_prod s)(j := pc)) k) = item_of (ms_prod s k)" for k by (simp add: same(2))
  moreover have "prod_ok s k (((ms_prod s)(j := pc)) k)" for k using ok invD(10)[OF inv, of k] by simp
  ultimately show ?thesis using inv by (simp add: mpsc_sys_inv_def pf)
qed

lemma pending_pos:
  assumes "mpsc_sys_inv s" "pos_of (ms_prod s j) = Some p"
  shows "released s \<le> p" "p < claims s" "fst (ms_claimed s ! p) = j" "item_of (ms_prod s j) = [snd (ms_claimed s ! p)]"
  using invD(10)[OF assms(1), of j] assms(2) by (cases "ms_prod s j"; simp)+

lemma pending_other:
  assumes "mpsc_sys_inv s" "pos_of (ms_prod s j) = Some p"
  shows "pos_of (ms_prod s k) = Some p \<longleftrightarrow> k = j"
  using pending_pos(3)[OF assms(1), of k p] pending_pos(3)[OF assms] assms(2) by auto

lemma pending_update:
  assumes "mpsc_sys_inv s" "ms_prod s' = (ms_prod s)(j := pc)"
  shows "pending s' p \<longleftrightarrow> pos_of pc = Some p \<or> pending s p \<and> pos_of (ms_prod s j) \<noteq> Some p"
  unfolding pending_def assms(2) using pending_other[OF assms(1)] by (metis fun_upd_apply)

lemma inv_claim:
  assumes inv: "mpsc_sys_inv s" and pc: "ms_prod s j = M_Cas x h" and h: "ms_head s = h"
    and bound: "claims s + 1 + width s < 2 ^ 63"
  shows "mpsc_sys_inv (s\<lparr>ms_head := h + 1, ms_claimed := ms_claimed s @ [(j, x)],
       ms_prod := (ms_prod s)(j := M_Write x h)\<rparr>)" (is "mpsc_sys_inv ?s'")
proof -
  note d = invD[OF inv]
  have H: "unat h = claims s" "unat h < released s + width s" using d(5) d(10)[of j] h pc by simp_all
  have h1: "unat (h + 1) = claims s + 1" using bound H(1) by (subst unat_plus_1) simp_all
  have R: "released ?s' = released s" by (simp add: released_def)
  have pend: "pending ?s' p \<longleftrightarrow> pending s p \<or> p = claims s" for p
    using pending_update[OF inv, of ?s' j "M_Write x h" p] pc H(1) by auto
  have np: "\<not> pending s (claims s)" using pending_pos(2)[OF inv] by (fastforce simp: pending_def)
  have prod: "prod_ok ?s' k (ms_prod ?s' k)" for k
  proof (cases "k = j")
    case True
    then show ?thesis using H d(6) by (simp add: R)
  next
    case False
    then show ?thesis using d(10)[of k] by (cases "ms_prod s k") (auto simp: R nth_append)
  qed
  have cons: "cons_ok ?s' (ms_cons ?s')"
    using d(11) by (cases "ms_cons s") (auto simp: pend)
  have seq: "seq_ok ?s' i v" if "i < width s" "v \<in> set (ms_seqs s ! i)" for i v
    using d(12)[OF that] by (auto simp: seq_ok_def R pend)
  have fin: "map snd (filter (\<lambda>c. fst c = k) (ms_claimed ?s')) = ms_done ?s' k @ item_of (ms_prod ?s' k)" for k
    using d(13)[of k] pc by simp
  have pop: "ms_popped ?s' = map snd (take (released ?s' + (case ms_cons ?s' of K_Release t \<Rightarrow> 1 | _ \<Rightarrow> 0)) (ms_claimed ?s'))"
    using d(14) d(6) d(11) unfolding R by (cases "ms_cons s") (auto simp: released_def)
  show ?thesis
    using inv H h1 bound np prod cons seq fin pop
    by (simp add: mpsc_sys_inv_def R pend nth_append less_Suc_eq)
qed

lemma inv_write:
  assumes inv: "mpsc_sys_inv s" and pc: "ms_prod s j = M_Write x h"
  shows "mpsc_sys_inv (s\<lparr>ms_data := (ms_data s)[slot s h := x],
    ms_prod := (ms_prod s)(j := M_Publish x h)\<rparr>)" (is "mpsc_sys_inv ?s'")
proof -
  note d = invD[OF inv] and sl = inv_slot[OF inv]
  have hp: "released s \<le> unat h" "unat h < claims s" "ms_claimed s ! unat h = (j, x)"
    using d(10)[of j] pc by simp_all
  have win: "unat h < released s + width s" using hp(2) d(7) by simp
  have ph: "pending s (unat h)" using pc by (auto simp: pending_def intro: exI[of _ j])
  have pend: "pending ?s' = pending s"
    using pending_update[OF inv, of ?s' j "M_Publish x h"] pc ph by (auto simp: fun_eq_iff)
  have keep: "(ms_data s)[slot s h := x] ! (p mod width s) = ms_data s ! (p mod width s)"
    if "p \<noteq> unat h" "released s \<le> p" "p < claims s" for p
    unfolding sl using that d(7) by (intro window_update[OF _ _ _ hp(1) win]) simp_all
  have prod: "prod_ok ?s' k (ms_prod ?s' k)" for k
  proof (cases "k = j")
    case True
    have "unat h mod width s < length (ms_data s)" using d(1,2) by simp
    then show ?thesis using True hp by (simp add: sl)
  next
    case False
    show ?thesis
    proof (cases "ms_prod s k")
      case (M_Publish y h')
      then have "unat h' \<noteq> unat h" using d(10)[of k] hp(3) False by auto
      then show ?thesis using M_Publish False d(10)[of k] keep[of "unat h'"] by simp
    qed (use False d(10)[of k] in simp_all)
  qed
  have cons: "cons_ok ?s' (ms_cons ?s')" using d(11) by (cases "ms_cons s") (auto simp: pend)
  have seq: "seq_ok ?s' i v = seq_ok s i v" for i v by (simp add: seq_ok_def pend)
  have dat: "ms_data ?s' ! (p mod width s) = snd (ms_claimed s ! p)"
    if "released s \<le> p" "p < claims s" "\<not> pending s p" for p
    using keep[of p] d(9)[of p] that ph by auto
  have fin: "item_of (ms_prod ?s' k) = item_of (ms_prod s k)" for k using pc by simp
  show ?thesis
    using inv prod cons dat fin by (simp add: mpsc_sys_inv_def pend seq)
qed

lemma inv_publish:
  assumes inv: "mpsc_sys_inv s" and pc: "ms_prod s j = M_Publish x h"
  shows "mpsc_sys_inv (s\<lparr>ms_seqs := (ms_seqs s)[slot s h := ms_seqs s ! slot s h @ [h + 1]],
       ms_done := (ms_done s)(j := ms_done s j @ [x]), ms_prod := (ms_prod s)(j := M_Idle)\<rparr>)"
    (is "mpsc_sys_inv ?s'")
proof -
  note d = invD[OF inv] and sl = inv_slot[OF inv]
  have hp: "released s \<le> unat h" "unat h < claims s" "ms_claimed s ! unat h = (j, x)"
    "ms_data s ! (unat h mod width s) = x" using d(10)[of j] pc by simp_all
  have win: "unat h < released s + width s" using hp(2) d(7) by simp
  have h1: "unat (h + 1) = unat h + 1" using hp(2) d(4) by (intro unat_plus_1) simp
  have ix: "unat h mod width s < length (ms_seqs s)" using d(1,3) by simp
  have pend: "pending ?s' p \<longleftrightarrow> pending s p \<and> p \<noteq> unat h" for p
    using pending_update[OF inv, of ?s' j M_Idle p] pc by auto
  have seqs: "ms_seqs ?s' ! (p mod width s) = ms_seqs s ! (p mod width s)"
    if "p \<noteq> unat h" "released s \<le> p" "p < released s + width s" for p
    using window_update[OF that hp(1) win] by (simp add: sl)
  have here: "ms_seqs ?s' ! (unat h mod width s) = ms_seqs s ! (unat h mod width s) @ [h + 1]"
    using ix by (simp add: sl)
  have cur: "ms_seqs ?s' ! (p mod width s) \<noteq> [] \<and> unat (last (ms_seqs ?s' ! (p mod width s))) =
      (if p < claims s \<and> \<not> pending ?s' p then p + 1 else p)"
    if "released s \<le> p" "p < released s + width s" for p
  proof (cases "p = unat h")
    case True
    then show ?thesis using here h1 hp(2) by (simp add: pend)
  next
    case False
    then show ?thesis using seqs[OF False that] d(8)[OF that] by (simp add: pend)
  qed
  have neq: "(unat h + 1) mod width s \<noteq> unat h mod width s"
    using mod_eq_within[of "unat h" "width s" "unat h + 1"] d(1) by auto
  have seq: "seq_ok ?s' i v" if "i < width s" "v \<in> set (ms_seqs ?s' ! i)" for i v
  proof (cases "v \<in> set (ms_seqs s ! i)")
    case True
    then show ?thesis using d(12)[OF that(1) True] by (auto simp: seq_ok_def pend)
  next
    case False
    then have "i = unat h mod width s" "v = h + 1"
      using that ix by (auto simp: sl nth_list_update split: if_splits)
    then show ?thesis using h1 neq hp(2) by (simp add: seq_ok_def pend)
  qed
  have prod: "prod_ok ?s' k (ms_prod ?s' k)" for k
    using d(10)[of k] by (cases "ms_prod s k") auto
  have cons: "cons_ok ?s' (ms_cons ?s')" using d(11) by (cases "ms_cons s") (auto simp: pend)
  have fin: "map snd (filter (\<lambda>c. fst c = k) (ms_claimed s)) = ms_done ?s' k @ item_of (ms_prod ?s' k)" for k
    using d(13)[of k] pc by simp
  have dat: "ms_data s ! (p mod width s) = snd (ms_claimed s ! p)"
    if "released s \<le> p" "p < claims s" "\<not> pending ?s' p" for p
    using hp(3,4) d(9)[of p] that by (cases "p = unat h") (auto simp: pend)
  show ?thesis unfolding mpsc_sys_inv_def
    using inv prod cons dat fin cur seq by (simp add: mpsc_sys_inv_def)
qed

lemma inv_release:
  assumes inv: "mpsc_sys_inv s" and pc: "ms_cons s = K_Release t"
  shows "mpsc_sys_inv (s\<lparr>ms_seqs := (ms_seqs s)[slot s t := ms_seqs s ! slot s t @ [t + ms_Size s]],
       ms_cons := K_Tail t\<rparr>)" (is "mpsc_sys_inv ?s'")
proof -
  note d = invD[OF inv] and sl = inv_slot[OF inv]
  have t: "t = ms_tail s" "unat t < claims s" "\<not> pending s (unat t)" and R: "released s = unat t"
    using d(11) pc by (auto simp: released_def)
  have R': "released ?s' = unat t + 1" using t by (simp add: released_def)
  have tN: "unat (t + ms_Size s) = unat t + width s" using t(2) d(4) by (simp add: unat_word_ariths)
  have ix: "unat t mod width s < length (ms_seqs s)" using d(1,3) by simp
  have pend: "pending ?s' = pending s" by (simp add: pending_def fun_eq_iff)
  have here: "ms_seqs ?s' ! (unat t mod width s) = ms_seqs s ! (unat t mod width s) @ [t + ms_Size s]"
    using ix by (simp add: sl)
  have cur: "ms_seqs ?s' ! (p mod width s) \<noteq> [] \<and> unat (last (ms_seqs ?s' ! (p mod width s))) =
      (if p < claims s \<and> \<not> pending s p then p + 1 else p)"
    if "unat t + 1 \<le> p" "p < unat t + 1 + width s" for p
  proof (cases "p = unat t + width s")
    case True
    then show ?thesis using here tN d(7) R by simp
  next
    case False
    then have p: "p \<noteq> unat t" "unat t \<le> p" "p < unat t + width s" using that by simp_all
    have "ms_seqs ?s' ! (p mod width s) = ms_seqs s ! (p mod width s)"
      using window_update[OF p order_refl] d(1) by (simp add: sl)
    then show ?thesis using d(8)[of p] p R by simp
  qed
  have seq: "seq_ok ?s' i v" if "i < width s" "v \<in> set (ms_seqs ?s' ! i)" for i v
  proof (cases "v \<in> set (ms_seqs s ! i)")
    case True
    then show ?thesis using d(12)[OF that(1) True] R R' by (auto simp: seq_ok_def pend)
  next
    case False
    then have "i = unat t mod width s" "v = t + ms_Size s"
      using that ix by (auto simp: sl nth_list_update split: if_splits)
    then show ?thesis using tN R' by (simp add: seq_ok_def)
  qed
  have later: "unat t + 1 \<le> p" if "pos_of (ms_prod s k) = Some p" for k p
    using pending_pos(1)[OF inv that] t(3) that R by (auto simp: pending_def Suc_le_eq order.order_iff_strict)
  have prod: "prod_ok ?s' k (ms_prod s k)" for k
    using d(10)[of k] R R' later[of k] by (cases "ms_prod s k") auto
  have pop: "ms_popped s = map snd (take (unat t + 1) (ms_claimed s))"
    using d(14) pc R by simp
  show ?thesis unfolding mpsc_sys_inv_def
    using inv R R' prod cur seq pop t d(7,9) by (simp add: mpsc_sys_inv_def pend)
qed

lemma inv_tail:
  assumes inv: "mpsc_sys_inv s" and pc: "ms_cons s = K_Tail t"
  shows "mpsc_sys_inv (s\<lparr>ms_tail := t + 1, ms_cons := K_Idle\<rparr>)"
proof -
  let ?s' = "s\<lparr>ms_tail := ms_tail s + 1, ms_cons := K_Idle\<rparr>"
  note d = invD[OF inv]
  have t: "t = ms_tail s" "unat (ms_tail s) < claims s" using d(11) pc by auto
  then have "unat (ms_tail s + 1) = unat (ms_tail s) + 1" using d(4) by (intro unat_plus_1) simp
  then have R: "released ?s' = released s" using pc by (simp add: released_def)
  have "prod_ok ?s' k c = prod_ok s k c" for k c by (cases c) (simp_all add: R)
  moreover have "seq_ok ?s' i v = seq_ok s i v" for i v by (simp add: seq_ok_def R)
  ultimately show ?thesis using inv pc unfolding t(1) by (simp add: mpsc_sys_inv_def R)
qed

lemma inv_consumer_pc:
  assumes inv: "mpsc_sys_inv s" and ok: "cons_ok s k" and "\<forall>t. ms_cons s \<noteq> K_Tail t \<and> k \<noteq> K_Tail t"
    and pop: "pp = map snd (take (unat (ms_tail s) + (case k of K_Release t \<Rightarrow> 1 | _ \<Rightarrow> 0)) (ms_claimed s))"
  shows "mpsc_sys_inv (s\<lparr>ms_popped := pp, ms_cons := k\<rparr>)" (is "mpsc_sys_inv ?s'")
proof -
  have R: "released ?s' = unat (ms_tail s)" "released s = unat (ms_tail s)"
    using assms(3) by (auto simp: released_def split: mpsc_consumer_pc.split)
  have "prod_ok ?s' j c = prod_ok s j c" for j c by (cases c) (simp_all add: R)
  moreover have "cons_ok ?s' k" using ok by (cases k) simp_all
  moreover have "seq_ok ?s' i v = seq_ok s i v" for i v by (simp add: seq_ok_def R)
  ultimately show ?thesis using inv by (simp add: mpsc_sys_inv_def R pop[symmetric])
qed

lemma inv_consumer_same:
  assumes "mpsc_sys_inv s" "cons_ok s k" "\<forall>t. ms_cons s \<noteq> K_Tail t \<and> k \<noteq> K_Tail t"
    "\<forall>t. ms_cons s \<noteq> K_Release t \<and> k \<noteq> K_Release t"
  shows "mpsc_sys_inv (s\<lparr>ms_cons := k\<rparr>)"
proof -
  have "released s = unat (ms_tail s)" "(case ms_cons s of K_Release t \<Rightarrow> (1::nat) | _ \<Rightarrow> 0) = 0"
    "(case k of K_Release t \<Rightarrow> (1::nat) | _ \<Rightarrow> 0) = 0"
    using assms(3,4) by (auto simp: released_def split: mpsc_consumer_pc.split)
  then have "ms_popped s = map snd (take (unat (ms_tail s) + (case k of K_Release t \<Rightarrow> 1 | _ \<Rightarrow> 0)) (ms_claimed s))"
    using invD(14)[OF assms(1)] by simp
  from inv_consumer_pc[OF assms(1-3) this] show ?thesis by simp
qed

text \<open>What a loaded sequence number says about its node.\<close>

lemma seq_loaded:
  assumes "mpsc_sys_inv s" "v \<in> set (ms_seqs s ! slot s h)"
  shows "seq_ok s (slot s h) v"
  using invD(12)[OF assms(1) _ assms(2)] invD(1)[OF assms(1)] by (simp add: inv_slot[OF assms(1)])

lemma inv_seq_free:
  assumes inv: "mpsc_sys_inv s" and "ms_prod s j = M_Seq x h" "v \<in> set (ms_seqs s ! slot s h)"
    "intptr_diff v h = Some 0"
  shows "mpsc_sys_inv (s\<lparr>ms_prod := (ms_prod s)(j := M_Cas x h)\<rparr>)"
proof -
  have "unat h < released s + width s"
    using seq_loaded[OF inv assms(3)] intptr_diff_zero[OF assms(4)] by (simp add: seq_ok_def inv_slot[OF inv])
  then show ?thesis
    using assms(2) inv_local[OF inv, of j "M_Cas x h"] invD(10)[OF inv, of j] by simp
qed

lemma inv_hit:
  assumes inv: "mpsc_sys_inv s" and pc: "ms_cons s = K_Seq t" and "v \<in> set (ms_seqs s ! slot s t)"
    "intptr_diff v (t + 1) = Some 0"
  shows "mpsc_sys_inv (s\<lparr>ms_cons := K_Read t\<rparr>)"
proof -
  have t: "t = ms_tail s" using invD(11)[OF inv] pc by simp
  have t1: "unat t + 1 < 2 ^ 63" using invD(1,4,6)[OF inv] pc t by (simp add: released_def)
  have "(unat t + 1) mod width s \<noteq> unat t mod width s"
    using mod_eq_within[of "unat t" "width s" "unat t + 1"] invD(1)[OF inv] by auto
  then have "unat t < claims s" "\<not> pending s (unat t)"
    using seq_loaded[OF inv assms(3)] intptr_diff_zero[OF assms(4)] unat_plus_1[OF t1]
    by (simp_all add: seq_ok_def inv_slot[OF inv])
  then show ?thesis using inv_consumer_same[OF inv, of "K_Read t"] pc t by simp
qed

lemma inv_pop_read:
  assumes inv: "mpsc_sys_inv s" and pc: "ms_cons s = K_Read t"
  shows "mpsc_sys_inv (s\<lparr>ms_popped := ms_popped s @ [ms_data s ! slot s t], ms_cons := K_Release t\<rparr>)"
proof -
  have t: "t = ms_tail s" "unat t < claims s" "\<not> pending s (unat t)" and R: "released s = unat t"
    using invD(11)[OF inv] pc by (auto simp: released_def)
  have "ms_data s ! slot s t = snd (ms_claimed s ! unat t)"
    using invD(9)[OF inv, of "unat t"] t R by (simp add: inv_slot[OF inv])
  then have "ms_popped s @ [ms_data s ! slot s t] = map snd (take (unat (ms_tail s) + 1) (ms_claimed s))"
    using invD(14)[OF inv] pc t R by (simp add: take_Suc_conv_app_nth)
  then show ?thesis using inv_consumer_pc[OF inv, of "K_Release t"] pc t by simp
qed

lemma mpsc_sys_inv_step:
  assumes "mpsc_step s s'" and inv: "mpsc_sys_inv s" and bound: "claims s' + width s' < 2 ^ 63"
  shows "mpsc_sys_inv s'"
  using assms(1)
proof cases
  case (push_call j x)
  then show ?thesis using inv_local[OF inv] by simp
next
  case (push_load_head j x h)
  then show ?thesis using inv_local[OF inv, of j "M_Seq x h"] invD(5)[OF inv] by (simp add: word_le_nat_alt)
next
  case (push_load_free j x h v)
  then show ?thesis using inv_seq_free[OF inv] by simp
next
  case (push_full j x h v d)
  then show ?thesis using inv_local[OF inv] by simp
next
  case (push_behind j x h v d)
  then show ?thesis using inv_local[OF inv] by simp
next
  case (push_claim j x h)
  then show ?thesis using inv_claim[OF inv] bound by simp
next
  case (push_claim_fails j x h)
  then show ?thesis using inv_local[OF inv] by simp
next
  case (push_write j x h)
  then show ?thesis using inv_write[OF inv] by simp
next
  case (push_publish j x h)
  then show ?thesis using inv_publish[OF inv] by simp
next
  case pop_call
  then show ?thesis
    using inv_consumer_same[OF inv, of "K_Seq (ms_tail s)"] by simp
next
  case (pop_hit t v)
  then show ?thesis using inv_hit[OF inv] by simp
next
  case (pop_miss t v d)
  then show ?thesis
    using inv_consumer_same[OF inv, of K_Idle] by simp
next
  case (pop_read t)
  then show ?thesis using inv_pop_read[OF inv] by simp
next
  case (pop_release t)
  then show ?thesis using inv_release[OF inv] by simp
next
  case (pop_tail t)
  then show ?thesis using inv_tail[OF inv] by simp
qed

lemma mpsc_reach_inv:
  assumes "mpsc_reach N d s" "size_assert N" "2 \<le> unat N" "claims s + unat N < 2 ^ 63"
  shows "mpsc_sys_inv s \<and> ms_Size s = N"
  using assms(1,4)
proof (induction rule: mpsc_reach.induct)
  case reach_init
  then show ?case using mpsc_sys_inv_init[OF assms(2,3)] by (simp add: mpsc_sys_init_def)
next
  case (reach_step s s')
  have mono: "claims s \<le> claims s'" "ms_Size s' = ms_Size s" using mpsc_step_claims[OF reach_step(2)] by auto
  then have "mpsc_sys_inv s" "ms_Size s = N" using reach_step by auto
  then show ?case using mpsc_sys_inv_step[OF reach_step(2)] reach_step.prems mono by simp
qed

section \<open>What the threads compute\<close>

lemma seq_small:
  assumes inv: "mpsc_sys_inv s" and "v \<in> set (ms_seqs s ! slot s x)"
  shows "unat v < 2 ^ 63"
proof -
  have "seq_ok s (slot s x) v"
    using invD(12)[OF inv _ assms(2)] invD(1)[OF inv] by (simp add: inv_slot[OF inv])
  then show ?thesis using invD(4,6)[OF inv] by (auto simp: seq_ok_def split: if_splits)
qed

lemma head_node:
  assumes inv: "mpsc_sys_inv s"
  shows "ms_seqs s ! slot s (ms_head s) \<noteq> []"
    "\<exists>d. intptr_diff (last (ms_seqs s ! slot s (ms_head s))) (ms_head s) = Some d \<and>
      (d < 0 \<longleftrightarrow> claims s = released s + width s) \<and> (d = 0 \<longleftrightarrow> claims s < released s + width s)"
proof -
  note d = invD[OF inv]
  define p where "p = (if claims s < released s + width s then claims s else released s)"
  have p: "released s \<le> p" "p < released s + width s" using d(1,6) by (auto simp: p_def)
  have sl: "slot s (ms_head s) = p mod width s"
    using d(5,7) by (auto simp: inv_slot[OF inv] p_def)
  have np: "\<not> pending s (claims s)" using pending_pos(2)[OF inv] by (fastforce simp: pending_def)
  let ?v = "last (ms_seqs s ! (p mod width s))"
  have v: "ms_seqs s ! (p mod width s) \<noteq> []"
    "unat ?v = (if p < claims s \<and> \<not> pending s p then p + 1 else p)" using d(8)[OF p] by auto
  show "ms_seqs s ! slot s (ms_head s) \<noteq> []" using v(1) sl by simp
  have vs: "unat ?v < 2 ^ 63" using v(2) p d(4,6,7) by (auto simp: p_def split: if_splits)
  have "intptr_diff ?v (ms_head s) = Some (int (unat ?v) - int (claims s))"
    using intptr_diff_small[OF vs, of "ms_head s"] d(4,5) by simp
  moreover have "int (unat ?v) - int (claims s) < 0 \<longleftrightarrow> claims s = released s + width s"
    "int (unat ?v) - int (claims s) = 0 \<longleftrightarrow> claims s < released s + width s"
    using v(2) d(1,7) by (auto simp: p_def split: if_splits)
  ultimately show "\<exists>d. intptr_diff (last (ms_seqs s ! slot s (ms_head s))) (ms_head s) = Some d \<and>
      (d < 0 \<longleftrightarrow> claims s = released s + width s) \<and> (d = 0 \<longleftrightarrow> claims s < released s + width s)"
    unfolding sl by blast
qed

section \<open>A concrete execution\<close>

text \<open>A queue of size 2; producer 0 has claimed position 0 for the item 7 and not written it.\<close>

definition demo_mpsc :: "int mpsc_sys" where
  "demo_mpsc = (mpsc_sys_init 2 0)\<lparr>ms_head := 1, ms_claimed := [(0, 7)],
     ms_prod := (\<lambda>_. M_Idle)(0 := M_Write 7 0)\<rparr>"

lemma demo_mpsc_reach: "mpsc_reach 2 (0::int) demo_mpsc"
proof -
  let ?at = "\<lambda>pc :: int mpsc_producer_pc. (mpsc_sys_init 2 0)\<lparr>ms_prod := (\<lambda>_. M_Idle)(0 := pc)\<rparr>"
  have f: "ms_prod (mpsc_sys_init 2 (0::int)) = (\<lambda>_. M_Idle)" "ms_head (mpsc_sys_init 2 (0::int)) = 0"
    "ms_claimed (mpsc_sys_init 2 (0::int)) = []" "ms_seqs (mpsc_sys_init 2 (0::int)) = [[0], [1]]"
    "ms_Size (mpsc_sys_init 2 (0::int)) = 2"
    by (simp_all add: mpsc_sys_init_def upt_rec)
  have "mpsc_reach 2 (0::int) (?at (M_Load 7))"
    using reach_step[OF reach_init push_call[of "mpsc_sys_init 2 (0::int)" 0 7]] f by simp
  then have "mpsc_reach 2 (0::int) (?at (M_Seq 7 0))"
    using push_load_head[of "?at (M_Load 7)" 0 7 0] by (auto dest: reach_step)
  then have "mpsc_reach 2 (0::int) (?at (M_Cas 7 0))"
    using push_load_free[of "?at (M_Seq 7 0)" 0 7 0 0] f by (auto simp: intptr_diff_def dest: reach_step)
  then show ?thesis
    using push_claim[of "?at (M_Cas 7 0)" 0 7 0] f by (auto simp: demo_mpsc_def dest: reach_step)
qed

lemma demo_mpsc_facts:
  "size_assert 2" "2 \<le> unat (2 :: size_t)" "claims demo_mpsc + unat (2 :: size_t) < 2 ^ 63"
  by (simp_all add: size_assert_def demo_mpsc_def)

section \<open>Properties\<close>

text \<open>
  C4: with any number of producers, in every interleaving and with stale loads, the consumer has
  popped exactly the first claimed items, in claim order, at most \<open>Size\<close> claimed items are not yet
  popped, and the claims of each producer are the items whose \<open>push\<close> has returned \<open>true\<close>, in call
  order, followed by at most the one it is publishing: nothing is lost, duplicated or reordered.
\<close>

theorem mpsc_concurrent_fifo:
  assumes "mpsc_reach N dflt s" "size_assert N" "2 \<le> unat N" "length (ms_claimed s) + unat N < 2 ^ 63"
  shows "\<exists>n. ms_popped s = map snd (take n (ms_claimed s)) \<and> n \<le> length (ms_claimed s) \<and>
      length (ms_claimed s) \<le> n + unat N \<and>
      (\<forall>j. \<exists>publishing. length publishing \<le> 1 \<and>
        map snd (filter (\<lambda>c. fst c = j) (ms_claimed s)) = ms_done s j @ publishing)"
proof -
  have inv: "mpsc_sys_inv s" "ms_Size s = N" using mpsc_reach_inv[OF assms] by auto
  note d = invD[OF inv(1)]
  let ?n = "released s + (case ms_cons s of K_Release t \<Rightarrow> 1 | _ \<Rightarrow> 0)"
  have "?n \<le> claims s"
    using d(6,11) by (auto simp: released_def split: mpsc_consumer_pc.splits)
  moreover have "length (item_of (ms_prod s j)) \<le> 1" for j by (cases "ms_prod s j") simp_all
  ultimately show ?thesis using d(7,13,14) inv(2) by (intro exI[of _ ?n]) auto
qed

theorem mpsc_concurrent_fifo_witness:
  "\<exists>n. ms_popped demo_mpsc = map snd (take n (ms_claimed demo_mpsc)) \<and> n \<le> 1 \<and> 1 \<le> n + 2"
  using mpsc_concurrent_fifo[OF demo_mpsc_reach demo_mpsc_facts] by (auto simp: demo_mpsc_def)

text \<open>
  C19: no data race: in no reachable state are two producers about to write the data of the same
  node, or a producer about to write the data of the node the consumer is about to read; and every
  node index is inside the array.
\<close>

theorem mpsc_race_free:
  assumes "mpsc_reach N dflt s" "size_assert N" "2 \<le> unat N" "length (ms_claimed s) + unat N < 2 ^ 63"
  shows "(\<forall>i j x y g h. ms_prod s i = M_Write x g \<and> ms_prod s j = M_Write y h \<and>
        unat (g AND (N - 1)) = unat (h AND (N - 1)) \<longrightarrow> i = j) \<and>
    (\<forall>j x h t. ms_prod s j = M_Write x h \<and> ms_cons s = K_Read t \<longrightarrow>
        unat (h AND (N - 1)) \<noteq> unat (t AND (N - 1))) \<and>
    (\<forall>x. unat (x AND (N - 1)) < length (ms_data s) \<and> unat (x AND (N - 1)) < length (ms_seqs s))"
proof -
  have inv: "mpsc_sys_inv s" and N: "ms_Size s = N" using mpsc_reach_inv[OF assms] by auto
  note d = invD[OF inv]
  have sl: "unat (x AND (N - 1)) = unat x mod width s" for x using inv_slot[OF inv, of x] N by simp
  have win: "released s \<le> unat h \<and> unat h < released s + width s \<and> pending s (unat h) \<and>
      fst (ms_claimed s ! unat h) = j" if "ms_prod s j = M_Write x h" for j x h
    using d(7) d(10)[of j] that by (auto simp: pending_def intro: exI[of _ j])
  have "i = j" if "ms_prod s i = M_Write x g" "ms_prod s j = M_Write y h"
    "unat g mod width s = unat h mod width s" for i j x y g h
    using mod_eq_within_window[OF that(3), of "released s"] win[OF that(1)] win[OF that(2)] by simp
  moreover have "unat h mod width s \<noteq> unat t mod width s"
    if "ms_prod s j = M_Write x h" "ms_cons s = K_Read t" for j x h t
  proof
    assume eq: "unat h mod width s = unat t mod width s"
    have "released s = unat t" "\<not> pending s (unat t)" using d(11) that(2) by (auto simp: released_def)
    then show False
      using mod_eq_within_window[OF eq, of "released s"] win[OF that(1)] d(1) by auto
  qed
  moreover have "unat x mod width s < length (ms_data s)" "unat x mod width s < length (ms_seqs s)" for x :: size_t
    using d(1-3) by simp_all
  ultimately show ?thesis unfolding sl by (intro conjI allI impI) (elim conjE, assumption | simp)+
qed

theorem mpsc_race_free_witness:
  "\<forall>x. unat (x AND ((2 :: size_t) - 1)) < length (ms_data demo_mpsc) \<and> unat (x AND (2 - 1)) < length (ms_seqs demo_mpsc)"
  by (rule conjunct2[OF conjunct2[OF mpsc_race_free[OF demo_mpsc_reach demo_mpsc_facts]]])

text \<open>
  C26: the decisions of \<open>push\<close> are right.  Every signed difference a thread can compute is free of
  overflow, and with current values it is negative exactly when all \<open>Size\<close> nodes are claimed and not
  released, where \<open>push\<close> returns \<open>false\<close>, and zero exactly when there is room, where it claims.
\<close>

theorem mpsc_push_outcome:
  assumes "mpsc_reach N dflt s" "size_assert N" "2 \<le> unat N" "length (ms_claimed s) + unat N < 2 ^ 63"
  shows "(\<forall>h. \<forall>v\<in>set (ms_seqs s ! unat (h AND (N - 1))). h \<le> ms_head s \<longrightarrow> intptr_diff v h \<noteq> None) \<and>
    (\<exists>d. intptr_diff (last (ms_seqs s ! unat (ms_head s AND (N - 1)))) (ms_head s) = Some d \<and>
      (d < 0 \<longleftrightarrow> length (ms_claimed s) = released s + unat N) \<and>
      (d = 0 \<longleftrightarrow> length (ms_claimed s) < released s + unat N))"
proof -
  have inv: "mpsc_sys_inv s" and N: "ms_Size s = N" using mpsc_reach_inv[OF assms] by auto
  have "intptr_diff v h \<noteq> None" if "v \<in> set (ms_seqs s ! unat (h AND (N - 1)))" "h \<le> ms_head s" for v h
  proof -
    have "unat h < 2 ^ 63" using that(2) invD(4,5)[OF inv] by (simp add: word_le_nat_alt)
    then show ?thesis using seq_small[OF inv, of v h] that(1) N by (simp add: intptr_diff_small)
  qed
  then show ?thesis using head_node(2)[OF inv] N by auto
qed

theorem mpsc_push_outcome_witness:
  "\<exists>d. intptr_diff (last (ms_seqs demo_mpsc ! unat (ms_head demo_mpsc AND (2 - 1)))) (ms_head demo_mpsc) =
     Some d \<and> (d = 0 \<longleftrightarrow> length (ms_claimed demo_mpsc) < released demo_mpsc + unat (2 :: size_t))"
  using mpsc_push_outcome[OF demo_mpsc_reach demo_mpsc_facts] by blast

end
