(* ===== verification/Console.thy ===== *)
theory Console
  imports Prelude
begin

text \<open>
  Text as the example programs read and write it: decimal numbers as \<open>operator<<\<close> and
  \<open>snprintf\<close> print them, \<open>atoi\<close> and \<open>atoll\<close> on command-line arguments, \<open>snprintf\<close> into a buffer,
  and the standard streams as the text written to them so far.
\<close>

section \<open>Definitions\<close>

definition nl :: string where "nl = [CHR 0x0A]"

definition digit :: "nat \<Rightarrow> char" where "digit d = char_of (48 + d)"

fun dec :: "nat \<Rightarrow> string" where
  "dec n = (if n < 10 then [digit n] else dec (n div 10) @ [digit (n mod 10)])"

declare dec.simps [simp del]

definition dec_int :: "int \<Rightarrow> string" where
  "dec_int i = (if i < 0 then ''-'' @ dec (nat (- i)) else dec (nat i))"

definition dec_word :: "'w::len word \<Rightarrow> string" where "dec_word w = dec (unat w)"

definition is_digit :: "char \<Rightarrow> bool" where
  "is_digit c \<longleftrightarrow> 48 \<le> (of_char c :: nat) \<and> (of_char c :: nat) \<le> 57"

definition digit_val :: "char \<Rightarrow> nat" where "digit_val c = of_char c - 48"

fun read_digits :: "nat \<Rightarrow> string \<Rightarrow> nat \<times> string" where
  "read_digits acc [] = (acc, [])"
| "read_digits acc (c # cs) =
     (if is_digit c then read_digits (10 * acc + digit_val c) cs else (acc, c # cs))"

definition is_space :: "char \<Rightarrow> bool" where
  "is_space c \<longleftrightarrow> c \<in> {CHR '' '', CHR 0x09, CHR 0x0A, CHR 0x0B, CHR 0x0C, CHR 0x0D}"

text \<open>
  \<open>atoi\<close> and \<open>atoll\<close>: white space, an optional sign, digits; no digits give 0.  A value outside
  \<open>w\<close> bits is undefined behaviour.
\<close>

definition ato :: "nat \<Rightarrow> string \<Rightarrow> int option" where
  "ato w s =
     (let s = dropWhile is_space s;
          v = (case s of [] \<Rightarrow> 0
               | c # cs \<Rightarrow> if c = CHR ''-'' then - int (fst (read_digits 0 cs))
                          else if c = CHR ''+'' then int (fst (read_digits 0 cs))
                          else int (fst (read_digits 0 s)))
      in if - (2 ^ (w - 1)) \<le> v \<and> v < 2 ^ (w - 1) then Some v else None)"

definition atoi :: "string \<Rightarrow> int option" where "atoi = ato 32"
definition atoll :: "string \<Rightarrow> int option" where "atoll = ato 64"

text \<open>\<open>argc > i ? argv[i] : d\<close>, as a string and as a number.\<close>

definition arg_str :: "string list \<Rightarrow> nat \<Rightarrow> string \<Rightarrow> string" where
  "arg_str argv i d = (if length argv > i then argv ! i else d)"

definition arg_int :: "string list \<Rightarrow> nat \<Rightarrow> int \<Rightarrow> int option" where
  "arg_int argv i d = (if length argv > i then atoi (argv ! i) else Some d)"

text \<open>
  \<open>snprintf(buffer, size, ...)\<close> for a formatted text: it writes at most \<open>size - 1\<close> characters and a
  terminating zero and returns the length of the whole text.
\<close>

definition snprintf_buf :: "bytes \<Rightarrow> string \<Rightarrow> bytes \<times> nat" where
  "snprintf_buf buffer text =
     (let out = map of_char (take (length buffer - 1) text) @ [0]
      in (out @ drop (length out) buffer, length text))"

section \<open>Numbers\<close>

lemma digit_facts [simp]:
  assumes "d < 10"
  shows "is_digit (digit d)" "digit_val (digit d) = d"
  using assms by (simp_all add: is_digit_def digit_def digit_val_def)

lemma dec_nonempty [simp]: "dec n \<noteq> []"
  by (simp add: dec.simps)

lemma dec_digits: "c \<in> set (dec n) \<Longrightarrow> is_digit c"
  by (induction n rule: dec.induct) (subst (asm) (2) dec.simps, auto split: if_splits)

lemma read_digits_append:
  "\<forall>c\<in>set xs. is_digit c \<Longrightarrow> read_digits acc (xs @ ys) = read_digits (fst (read_digits acc xs)) ys"
  by (induction acc xs rule: read_digits.induct) auto

lemma read_digits_dec: "fst (read_digits acc (dec n)) = acc * 10 ^ length (dec n) + n"
proof (induction n arbitrary: acc rule: dec.induct)
  case (1 n)
  show ?case
  proof (cases "n < 10")
    case True
    then show ?thesis by (simp add: dec.simps[of n])
  next
    case False
    have d: "\<forall>c\<in>set (dec (n div 10)). is_digit c" using dec_digits by blast
    have "dec n = dec (n div 10) @ [digit (n mod 10)]" using False by (simp add: dec.simps[of n])
    then show ?thesis using 1[OF False, of acc] read_digits_append[OF d]
      by (simp add: algebra_simps)
  qed
qed

lemma read_digits_stop: "xs = [] \<or> \<not> is_digit (hd xs) \<Longrightarrow> read_digits acc xs = (acc, xs)"
  by (cases xs) auto

text \<open>Printing and reading back a number, followed by anything that is not a digit.\<close>

lemma read_dec [simp]:
  assumes "rest = [] \<or> \<not> is_digit (hd rest)"
  shows "read_digits 0 (dec n @ rest) = (n, rest)"
proof -
  have "\<forall>c\<in>set (dec n). is_digit c" using dec_digits by blast
  from read_digits_append[OF this, of 0 rest] show ?thesis
    using read_digits_stop[OF assms] read_digits_dec[of 0 n] by simp
qed

lemma hd_dec_digit: "is_digit (hd (dec n))"
  using dec_digits[of "hd (dec n)" n] by simp

lemma digit_not_special: "is_digit c \<Longrightarrow> \<not> is_space c \<and> c \<noteq> CHR ''-'' \<and> c \<noteq> CHR ''+''"
  by (auto simp: is_digit_def is_space_def)

lemma read_dec_end [simp]: "read_digits 0 (dec n) = (n, [])"
  using read_dec[of "[]" n] by simp

lemma ato_dec_int:
  assumes "- (2 ^ (w - 1)) \<le> i" "i < 2 ^ (w - 1)"
  shows "ato w (dec_int i) = Some i"
proof (cases "i < 0")
  case True
  have "\<not> is_space CHR ''-''" by (simp add: is_space_def)
  then show ?thesis using True assms by (simp add: ato_def dec_int_def)
next
  case False
  obtain c cs where c: "dec (nat i) = c # cs" by (cases "dec (nat i)") auto
  then have "is_digit c" using hd_dec_digit[of "nat i"] by simp
  from digit_not_special[OF this] c False assms read_dec_end[of "nat i"] show ?thesis
    by (simp add: ato_def dec_int_def del: read_dec_end)
qed

lemma length_dec: "n < 10 ^ k \<Longrightarrow> 0 < k \<Longrightarrow> length (dec n) \<le> k"
proof (induction n arbitrary: k rule: dec.induct)
  case (1 n)
  show ?case
  proof (cases "n < 10")
    case True
    then show ?thesis using "1.prems" by (simp add: dec.simps[of n])
  next
    case False
    then have "k \<noteq> 1" using "1.prems"(1) by auto
    with "1.prems" obtain j where j: "k = Suc j" "0 < j" by (cases k) auto
    then have "n div 10 < 10 ^ j" using "1.prems"(1) by (simp add: less_mult_imp_div_less mult.commute)
    with 1(1)[OF False this j(2)] False j show ?thesis by (subst dec.simps) simp
  qed
qed

lemma length_dec_u64: "length (dec (unat (w :: u64))) \<le> 20"
  using unsigned_less[of w, where 'a = nat] by (intro length_dec) simp_all

lemma length_dec_s64: "length (dec_int (sint (w :: u64))) \<le> 20"
proof -
  have "- (2 ^ 63) \<le> sint w" "sint w < 2 ^ 63" using sint_ge[of w] sint_lt[of w] by simp_all
  then have "nat (- sint w) < 10 ^ 19" "nat (sint w) < 10 ^ 19" by simp_all
  then show ?thesis using length_dec[of "nat (- sint w)" 19] length_dec[of "nat (sint w)" 19]
    by (simp add: dec_int_def)
qed

lemma snprintf_fits:
  assumes "length text < length buffer"
  shows "take (snd (snprintf_buf buffer text)) (fst (snprintf_buf buffer text)) = map of_char text"
    "snd (snprintf_buf buffer text) = length text"
    "length (fst (snprintf_buf buffer text)) = length buffer"
  using assms by (simp_all add: snprintf_buf_def Let_def)

end
