(* ===== verification/Floating.thy ===== *)
theory Floating
  imports Console "HOL-Library.Log_Nat"
begin

text \<open>
  The \<open>double\<close> arithmetic the programs print with: IEEE binary64, round to nearest with ties to
  even, and the correctly rounded decimal conversion of \<open>std::fixed\<close>.  All values that occur are not
  negative and far below the overflow threshold.  A non-negative finite double is a multiple of the
  smallest subnormal 2^-1074, and is represented by that multiple.
\<close>

section \<open>Definitions\<close>

definition unit64 :: nat where "unit64 = 2 ^ 1074"

text \<open>The integer nearest to \<open>p / q\<close>, the even one of two.\<close>

definition rne :: "nat \<Rightarrow> nat \<Rightarrow> nat" where
  "rne p q = (let n = p div q; r = p mod q
     in if 2 * r < q \<or> 2 * r = q \<and> even n then n else n + 1)"

text \<open>The double nearest to \<open>p / q\<close>: 53 significant bits, fewer for subnormals.\<close>

definition round64 :: "nat \<Rightarrow> nat \<Rightarrow> nat" where
  "round64 p q = (let ulp = 2 ^ (floorlog 2 (p * unit64 div q) - 53)
     in ulp * rne (p * unit64) (q * ulp))"

text \<open>Conversion from integers, product and quotient of doubles.\<close>

definition double_of :: "nat \<Rightarrow> nat" where "double_of n = round64 n 1"

definition double_mul :: "nat \<Rightarrow> nat \<Rightarrow> nat" where "double_mul a b = round64 (a * b) (unit64 * unit64)"

definition double_div :: "nat \<Rightarrow> nat \<Rightarrow> nat" where "double_div a b = round64 a b"

text \<open>\<open>std::fixed << std::setprecision(k)\<close>, and a decimal fraction \<open>n / 10 ^ k\<close> with \<open>k\<close> digits.\<close>

definition pad_left :: "char \<Rightarrow> nat \<Rightarrow> string \<Rightarrow> string" where
  "pad_left c w s = replicate (w - length s) c @ s"

definition decimal :: "nat \<Rightarrow> nat \<Rightarrow> string" where
  "decimal k n = dec (n div 10 ^ k) @ ''.'' @ pad_left CHR ''0'' k (dec (n mod 10 ^ k))"

definition fixed :: "nat \<Rightarrow> nat \<Rightarrow> string" where
  "fixed k d = decimal k (rne (d * 10 ^ k) unit64)"

section \<open>Rounding\<close>

lemma unit64_pos [simp]: "0 < unit64" "unit64 \<noteq> 0"
  by (simp_all add: unit64_def)

lemma rne_error:
  assumes "0 < q"
  shows "2 * p \<le> 2 * (rne p q * q) + q" "2 * (rne p q * q) \<le> 2 * p + q"
proof -
  define n r where "n = p div q" and "r = p mod q"
  have p: "p = n * q + r" "r < q" using assms by (simp_all add: n_def r_def)
  have "rne p q = n \<and> 2 * r \<le> q \<or> rne p q = n + 1 \<and> q \<le> 2 * r"
    by (auto simp: rne_def Let_def n_def r_def)
  then show "2 * p \<le> 2 * (rne p q * q) + q" "2 * (rne p q * q) \<le> 2 * p + q"
    using p by (auto simp: add_mult_distrib)
qed

lemma rne_exact [simp]: "0 < q \<Longrightarrow> rne (n * q) q = n"
  by (simp add: rne_def)

lemma rne_unique:
  assumes "0 < q" "2 * p < 2 * (n * q) + q" "2 * (n * q) < 2 * p + q"
  shows "rne p q = n"
proof -
  have "2 * (rne p q * q) < 2 * (n * q) + 2 * q" "2 * (n * q) < 2 * (rne p q * q) + 2 * q"
    using rne_error[OF assms(1), of p] assms(2,3) by linarith+
  then have "rne p q * q < (n + 1) * q" "n * q < (rne p q + 1) * q" by (simp_all add: algebra_simps)
  then have "rne p q < n + 1" "n < rne p q + 1" by (simp_all only: mult_less_cancel2)
  then show ?thesis by simp
qed

text \<open>The error of a rounding is at most half a unit in the last place.\<close>

lemma round64_error:
  fixes p q :: nat
  assumes "0 < q"
  defines "ulp \<equiv> 2 ^ (floorlog 2 (p * unit64 div q) - 53)"
  shows "2 * (p * unit64) \<le> 2 * (round64 p q * q) + q * ulp"
    "2 * (round64 p q * q) \<le> 2 * (p * unit64) + q * ulp"
  using rne_error[of "q * ulp" "p * unit64"] assms(1) by (simp_all add: round64_def ulp_def Let_def ac_simps)

lemma double_of_exact:
  assumes "n < 2 ^ 53"
  shows "double_of n = n * unit64"
proof -
  have "floorlog 2 (n * unit64) \<le> 53 + 1074"
    using assms by (cases "n = 0") (simp_all add: floorlog_le_iff unit64_def power_add)
  define e where "e = floorlog 2 (n * unit64) - 53"
  have "e \<le> 1074" using \<open>floorlog 2 (n * unit64) \<le> 53 + 1074\<close> by (simp add: e_def)
  then have "unit64 = 2 ^ (1074 - e) * 2 ^ e" by (simp add: unit64_def flip: power_add)
  then have eq: "n * unit64 = (n * 2 ^ (1074 - e)) * 2 ^ e" by simp
  have "rne ((n * 2 ^ (1074 - e)) * 2 ^ e) (2 ^ e) = n * 2 ^ (1074 - e)" by (rule rne_exact) simp
  then have "rne (n * unit64) (2 ^ e) * 2 ^ e = n * unit64" by (simp only: eq)
  then show ?thesis by (simp add: double_of_def round64_def Let_def e_def ac_simps)
qed

lemma rne_ge: "0 < q \<Longrightarrow> k * q \<le> p \<Longrightarrow> k \<le> rne p q"
  using div_le_mono[of "k * q" p q] by (simp add: rne_def Let_def)

lemma rne_le:
  assumes "0 < q" "p \<le> k * q"
  shows "rne p q \<le> k"
proof (cases "p div q < k")
  case True
  then show ?thesis by (simp add: rne_def Let_def)
next
  case False
  then have "p = k * q" using assms by (metis div_le_mono le_antisym nonzero_mult_div_cancel_right
        not_less div_times_less_eq_dividend le_trans mult_le_mono1 neq0_conv)
  then show ?thesis using assms(1) by simp
qed

text \<open>Integers below 2^53 are doubles, so a quotient below 2^53 is not rounded past them.\<close>

lemma round64_bounds:
  assumes "0 < q" "p < 2 ^ 53 * q"
  shows "m * q \<le> p \<Longrightarrow> m * unit64 \<le> round64 p q" "p \<le> m * q \<Longrightarrow> round64 p q \<le> m * unit64"
proof -
  define e where "e = floorlog 2 (p * unit64 div q) - 53"
  have "p * unit64 div q < 2 ^ (53 + 1074)"
    using assms by (intro less_mult_imp_div_less) (simp add: unit64_def power_add algebra_simps)
  then have "floorlog 2 (p * unit64 div q) \<le> 53 + 1074"
    by (cases "p * unit64 div q = 0") (simp_all add: floorlog_le_iff del: power_add_numeral)
  then have "e \<le> 1074" by (simp add: e_def)
  then have u: "unit64 = 2 ^ (1074 - e) * 2 ^ e" by (simp add: unit64_def flip: power_add)
  have r: "round64 p q = 2 ^ e * rne (p * unit64) (q * 2 ^ e)" by (simp add: round64_def Let_def e_def)
  have mu: "m * unit64 = 2 ^ e * (m * 2 ^ (1074 - e))" by (simp add: u)
  have mq: "m * 2 ^ (1074 - e) * (q * 2 ^ e) = m * q * unit64" by (simp add: u)
  show "m * unit64 \<le> round64 p q" if "m * q \<le> p"
    unfolding r mu using assms(1) that by (intro mult_le_mono2 rne_ge) (simp_all only: mq mult_le_mono1, simp_all)
  show "round64 p q \<le> m * unit64" if "p \<le> m * q"
    unfolding r mu using assms(1) that by (intro mult_le_mono2 rne_le) (simp_all only: mq mult_le_mono1, simp_all)
qed

text \<open>The value of a double, and the relative error of a rounding in the normal range.\<close>

definition value64 :: "nat \<Rightarrow> real" where "value64 d = real d / real unit64"

lemma half_ulp:
  fixes r p u :: real
  assumes "2 * p \<le> 2 * r + u" "2 * r \<le> 2 * p + u" "2 ^ 52 * u \<le> p"
  shows "2 ^ 53 * \<bar>r - p\<bar> \<le> p"
proof -
  have "\<bar>r - p\<bar> \<le> u / 2" unfolding abs_le_iff using assms(1,2) by simp
  then have "2 ^ 53 * \<bar>r - p\<bar> \<le> 2 ^ 52 * u" by simp
  also note assms(3)
  finally show ?thesis .
qed

lemma quotient_scale:
  fixes p d c :: real
  assumes "2 ^ 53 * \<bar>d\<bar> \<le> p" "0 < c"
  shows "\<bar>d / c\<bar> \<le> p / c / 2 ^ 53"
proof -
  have "\<bar>d\<bar> / c \<le> (p / 2 ^ 53) / c" using assms by (intro divide_right_mono) simp_all
  then show ?thesis using assms(2) by (simp add: abs_divide)
qed

lemma round64_relative:
  assumes "0 < q" "q \<le> 2 ^ 1000 * p"
  shows "\<bar>value64 (round64 p q) - real p / real q\<bar> \<le> real p / real q / 2 ^ 53"
proof -
  define n where "n = p * unit64 div q"
  define L where "L = floorlog 2 n"
  have "2 ^ 74 * q \<le> p * unit64"
    using mult_le_mono2[OF assms(2), of "2 ^ 74"] by (simp add: unit64_def mult.assoc[symmetric] flip: power_add)
  then have n: "2 ^ 74 \<le> n" using assms(1) by (simp add: n_def less_eq_div_iff_mult_less_eq)
  have "0 < n" using n by (simp add: less_le_trans[OF _ n])
  then have L1: "2 ^ (L - 1) \<le> n" "n < 2 ^ L" using floorlog_bounds[of n 2] by (simp_all add: L_def)
  have "54 \<le> L"
  proof (rule ccontr)
    assume "\<not> 54 \<le> L"
    then have "(2 :: nat) ^ L \<le> 2 ^ 74" by (intro power_increasing) simp_all
    then show False using L1 n by simp
  qed
  then have "(2 :: nat) ^ (L - 1) = 2 ^ (52 + (L - 53))" by simp
  then have "(2 :: nat) ^ (L - 1) = 2 ^ 52 * 2 ^ (L - 53)" by (simp only: power_add)
  then have "2 ^ 52 * 2 ^ (L - 53) * q \<le> n * q" using L1(1) by (simp only: mult_le_mono1)
  also have "n * q \<le> p * unit64" by (simp add: n_def div_times_less_eq_dividend)
  finally have ulp: "2 ^ 52 * 2 ^ (L - 53) * q \<le> p * unit64" .
  have err: "2 * (p * unit64) \<le> 2 * (round64 p q * q) + q * 2 ^ (L - 53)"
    "2 * (round64 p q * q) \<le> 2 * (p * unit64) + q * 2 ^ (L - 53)"
    using round64_error[OF assms(1), of p] by (simp_all add: L_def n_def)
  let ?r = "real (round64 p q * q)" and ?p = "real (p * unit64)" and ?u = "real (q * 2 ^ (L - 53))"
  have "2 * ?p \<le> 2 * ?r + ?u" "2 * ?r \<le> 2 * ?p + ?u" "2 ^ 52 * ?u \<le> ?p"
    using err[THEN of_nat_mono[where ?'a = real]] ulp[THEN of_nat_mono[where ?'a = real]] by (simp_all add: ac_simps)
  then have a: "2 ^ 53 * \<bar>?r - ?p\<bar> \<le> ?p" by (rule half_ulp)
  have b: "value64 (round64 p q) - real p / real q = (?r - ?p) / (real q * real unit64)"
    using assms(1) by (simp add: value64_def field_simps)
  have c: "real p / real q = ?p / (real q * real unit64)" by simp
  have "\<bar>(?r - ?p) / (real q * real unit64)\<bar> \<le> ?p / (real q * real unit64) / 2 ^ 53"
    by (rule quotient_scale[OF a]) (simp add: assms(1))
  then show ?thesis unfolding b unfolding c .
qed

text \<open>The quotient of two 64 bit integers in \<open>double\<close>: three roundings.\<close>

lemma round64_0 [simp]: "round64 0 q = 0"
  by (auto simp: round64_def rne_def Let_def)

lemma value64_0 [simp]: "value64 0 = 0"
  by (simp add: value64_def)

lemma relative_error_le:
  fixes a x e :: real
  assumes "\<bar>a - x\<bar> \<le> x * e"
  shows "x * (1 - e) \<le> a" "a \<le> x * (1 + e)"
  using assms by (simp_all add: abs_le_iff algebra_simps)

lemma double_of_relative:
  "real n * (1 - 1 / 2 ^ 53) \<le> value64 (double_of n)" "value64 (double_of n) \<le> real n * (1 + 1 / 2 ^ 53)"
proof -
  have "\<bar>value64 (double_of n) - real n\<bar> \<le> real n * (1 / 2 ^ 53)"
    using round64_relative[of 1 n] by (cases "n = 0") (simp_all add: double_of_def)
  from relative_error_le[OF this] show "real n * (1 - 1 / 2 ^ 53) \<le> value64 (double_of n)"
    "value64 (double_of n) \<le> real n * (1 + 1 / 2 ^ 53)" .
qed

lemma quotient_factor: "(a * b) / (c * d) * e = a / c * (b / d * e)" for a b c d e :: real
  by simp

lemma double_quotient:
  assumes "t < 2 ^ 64" "0 < n" "n < 2 ^ 64"
  shows "real t / real n * (1 - 1 / 2 ^ 51) \<le> value64 (double_div (double_of t) (double_of n))"
    "value64 (double_div (double_of t) (double_of n)) \<le> real t / real n * (1 + 1 / 2 ^ 51)"
proof -
  let ?e = "1 / 2 ^ 53 :: real" and ?x = "real t / real n"
  define T N where "T = double_of t" and "N = double_of n"
  define D where "D = value64 (double_div T N)"
  define V where "V = value64 T / value64 N"
  note T = double_of_relative[of t, folded T_def] and N = double_of_relative[of n, folded N_def]
  have n: "1 \<le> real n" "real n \<le> 2 ^ 64" using assms(2,3) of_nat_mono[of n "2 ^ 64", where ?'a = real] by simp_all
  have vN: "0 < value64 N" using N(1) n(1) by (intro less_le_trans[OF _ N(1)] mult_pos_pos) simp_all
  have D: "\<bar>D - V\<bar> \<le> V * ?e"
  proof (cases "t = 0")
    case False
    then have "1 / 2 \<le> value64 T" by (intro order_trans[OF _ T(1)]) simp
    moreover have "value64 N \<le> 2 ^ 65" using n(2) by (intro order_trans[OF N(2)]) simp
    ultimately have "value64 N \<le> 2 ^ 1000 * value64 T" by simp
    then have "real N \<le> real (2 ^ 1000 * T)" by (simp add: value64_def divide_le_cancel)
    then have "N \<le> 2 ^ 1000 * T" by (simp only: of_nat_le_iff)
    moreover have "0 < N" using vN by (cases N) simp_all
    ultimately have "\<bar>D - real T / real N\<bar> \<le> real T / real N / 2 ^ 53"
      unfolding D_def double_div_def by (intro round64_relative)
    then show ?thesis by (simp add: V_def value64_def)
  qed (simp add: D_def V_def T_def double_of_def double_div_def)
  have V: "V \<le> (real t * (1 + ?e)) / (real n * (1 - ?e))" "(real t * (1 - ?e)) / (real n * (1 + ?e)) \<le> V"
    unfolding V_def using T N n vN by (intro frac_le; simp)+
  have "D \<le> V * (1 + ?e)" "V * (1 - ?e) \<le> D" using relative_error_le[OF D] by simp_all
  then have "D \<le> (real t * (1 + ?e)) / (real n * (1 - ?e)) * (1 + ?e)"
    "(real t * (1 - ?e)) / (real n * (1 + ?e)) * (1 - ?e) \<le> D"
    using mult_right_mono[OF V(1), of "1 + ?e"] mult_right_mono[OF V(2), of "1 - ?e"] by simp_all
  then have "D \<le> ?x * ((1 + ?e) / (1 - ?e) * (1 + ?e))" "?x * ((1 - ?e) / (1 + ?e) * (1 - ?e)) \<le> D"
    unfolding quotient_factor .
  moreover have "?x * ((1 + ?e) / (1 - ?e) * (1 + ?e)) \<le> ?x * (1 + 1 / 2 ^ 51)"
    "?x * (1 - 1 / 2 ^ 51) \<le> ?x * ((1 - ?e) / (1 + ?e) * (1 - ?e))"
    by (intro mult_left_mono; simp)+
  ultimately show "?x * (1 - 1 / 2 ^ 51) \<le> value64 (double_div (double_of t) (double_of n))"
    "value64 (double_div (double_of t) (double_of n)) \<le> ?x * (1 + 1 / 2 ^ 51)"
    unfolding D_def T_def N_def by linarith+
qed

text \<open>
  A decimal fraction with few enough digits survives the division and the conversion to text: the
  quotient of \<open>n\<close> and 10 ^ \<open>k\<close> prints with \<open>k\<close> digits as the fraction itself.
\<close>

lemma fixed_quotient:
  assumes "n < 2 ^ 52" "k \<le> 15"
  shows "fixed k (double_div (double_of n) (double_of (10 ^ k))) = decimal k n"
proof -
  let ?U = unit64 and ?D = "10 ^ k :: nat"
  have "?D \<le> 10 ^ 15" using assms(2) by (intro power_increasing) simp_all
  then have D: "0 < ?D" "?D < 2 ^ 53" by simp_all
  let ?p = "n * ?U" and ?q = "?D * ?U"
  define L where "L = floorlog 2 (?p * ?U div ?q)"
  define u where "u = (2 :: nat) ^ (L - 53)"
  define d where "d = round64 ?p ?q"
  have dbl: "double_div (double_of n) (double_of ?D) = d"
    using assms(1) D by (simp add: double_div_def double_of_exact d_def)
  have q: "0 < ?q" using D by simp
  have "2 * (?p * ?U) \<le> 2 * (d * ?q) + ?q * u" "2 * (d * ?q) \<le> 2 * (?p * ?U) + ?q * u"
    using round64_error[OF q, of ?p] by (simp_all add: d_def u_def L_def)
  then have "(2 * (n * ?U)) * ?U \<le> (2 * (d * ?D) + ?D * u) * ?U" "(2 * (d * ?D)) * ?U \<le> (2 * (n * ?U) + ?D * u) * ?U"
    by (simp_all add: algebra_simps)
  then have err: "2 * (n * ?U) \<le> 2 * (d * ?D) + ?D * u" "2 * (d * ?D) \<le> 2 * (n * ?U) + ?D * u"
    by (simp_all only: mult_le_cancel2 unit64_pos(1))
  have N: "?p * ?U div ?q = n * ?U div ?D" by (rule div_mult_mult2) simp
  have du: "?D * u < ?U"
  proof (cases "53 \<le> L")
    case False
    have "?D < ?U" using D(2) power_increasing[of 53 1074 "2 :: nat"] by (simp only: unit64_def) linarith
    with False show ?thesis by (simp add: u_def)
  next
    case True
    then have "0 < n * ?U div ?D" by (cases "n * ?U div ?D = 0") (simp_all add: L_def N floorlog_def)
    then have "2 ^ (L - 1) \<le> n * ?U div ?D" using floorlog_bounds[of "n * ?U div ?D" 2] by (simp add: L_def N)
    then have "?D * 2 ^ (L - 1) \<le> n * ?U"
      by (meson div_times_less_eq_dividend le_trans mult_le_mono2 mult.commute times_div_less_eq_dividend)
    also have "\<dots> < 2 ^ 52 * ?U" using assms(1) by simp
    also have "?D * 2 ^ (L - 1) = 2 ^ 52 * (?D * u)"
      using True by (auto simp: u_def power_add le_iff_add)
    finally show ?thesis by simp
  qed
  have "rne (d * ?D) ?U = n" using err du by (intro rne_unique) simp_all
  then show ?thesis by (simp add: fixed_def dbl)
qed

text \<open>The digits of a decimal fraction read back as its integer part and its fraction.\<close>

lemma read_zeros: "read_digits 0 (replicate j CHR ''0'' @ xs) = read_digits 0 xs"
  by (induction j) (simp_all add: is_digit_def digit_val_def)

lemma decimal_parts:
  assumes "0 < k"
  shows "\<exists>f. decimal k n = dec (n div 10 ^ k) @ ''.'' @ f \<and> length f = k \<and> read_digits 0 f = (n mod 10 ^ k, [])"
proof -
  have "length (dec (n mod 10 ^ k)) \<le> k" using assms by (intro length_dec) simp_all
  then show ?thesis
    by (intro exI[of _ "pad_left CHR ''0'' k (dec (n mod 10 ^ k))"]) (simp add: decimal_def pad_left_def read_zeros)
qed

end
