(* ===== verification/Core_Types.thy ===== *)
theory Core_Types
  imports Floating
begin

text \<open>
  The data of \<open>core/types.hpp\<close>: packet views, the normalized message, the configuration constants
  and the statistics counters with their latency update.  Counters are 64-bit words, so every
  increment wraps as in the source.  The clock read by \<open>get_timestamp\<close> is an argument of the
  operations that read it.  \<open>avg_latency_ns\<close> computes in \<open>double\<close> as the source does; its result is
  given as the real number that double stands for.
\<close>

section \<open>Definitions\<close>

type_synonym Timestamp = u64

text \<open>
  \<open>mv_data\<close> is the pointer: \<open>None\<close> is \<open>nullptr\<close>, \<open>Some bs\<close> points to the bytes \<open>bs\<close>.
\<close>

record MessageView =
  mv_data :: "bytes option"
  mv_length :: u32
  mv_timestamp :: Timestamp
  mv_sequence :: u32

definition MessageView_default :: MessageView where
  "MessageView_default = \<lparr>mv_data = None, mv_length = 0, mv_timestamp = 0, mv_sequence = 0\<rparr>"

definition is_valid :: "MessageView \<Rightarrow> bool" where
  "is_valid v \<longleftrightarrow> mv_data v \<noteq> None \<and> mv_length v > 0"

datatype NmType =
    NM_UNKNOWN | NM_TRADE | NM_QUOTE | NM_ORDER_ADD | NM_ORDER_MODIFY
  | NM_ORDER_DELETE | NM_ORDER_EXECUTE | NM_IMBALANCE | NM_SYSTEM_EVENT

fun NmType_code :: "NmType \<Rightarrow> u8" where
  "NmType_code NM_UNKNOWN = 0"
| "NmType_code NM_TRADE = 1"
| "NmType_code NM_QUOTE = 2"
| "NmType_code NM_ORDER_ADD = 3"
| "NmType_code NM_ORDER_MODIFY = 4"
| "NmType_code NM_ORDER_DELETE = 5"
| "NmType_code NM_ORDER_EXECUTE = 6"
| "NmType_code NM_IMBALANCE = 7"
| "NmType_code NM_SYSTEM_EVENT = 8"

text \<open>\<open>nm_price\<close> is an \<open>int64_t\<close>: a 64-bit word read with \<open>sint\<close>.\<close>

record NormalizedMessage =
  nm_type :: NmType
  nm_instrument_id :: u64
  nm_order_id :: u64
  nm_price :: u64
  nm_quantity :: u64
  nm_side :: u8
  nm_timestamp :: Timestamp
  nm_local_timestamp :: Timestamp
  nm_sequence :: u32

definition NormalizedMessage_default :: NormalizedMessage where
  "NormalizedMessage_default = \<lparr>nm_type = NM_UNKNOWN, nm_instrument_id = 0, nm_order_id = 0,
     nm_price = 0, nm_quantity = 0, nm_side = 0, nm_timestamp = 0, nm_local_timestamp = 0,
     nm_sequence = 0\<rparr>"

definition MAX_PACKET_SIZE :: nat where "MAX_PACKET_SIZE = 9000"
definition PACKET_RING_SIZE :: size_t where "PACKET_RING_SIZE = 1024 * 16"
definition DEFAULT_QUEUE_SIZE :: size_t where "DEFAULT_QUEUE_SIZE = 1024 * 64"
definition NETWORK_THREAD_CPU :: int where "NETWORK_THREAD_CPU = 2"
definition DISPATCHER_THREAD_CPU :: int where "DISPATCHER_THREAD_CPU = 3"

record Statistics =
  packets_received :: u64
  packets_dropped :: u64
  messages_parsed :: u64
  messages_dispatched :: u64
  parse_errors :: u64
  min_latency_ns :: u64
  max_latency_ns :: u64
  total_latency_ns :: u64

definition Statistics_init :: Statistics where
  "Statistics_init = \<lparr>packets_received = 0, packets_dropped = 0, messages_parsed = 0,
     messages_dispatched = 0, parse_errors = 0, min_latency_ns = - 1, max_latency_ns = 0,
     total_latency_ns = 0\<rparr>"

definition update_latency :: "u64 \<Rightarrow> Statistics \<Rightarrow> Statistics" where
  "update_latency latency_ns s =
     (let s = (if latency_ns < min_latency_ns s then s\<lparr>min_latency_ns := latency_ns\<rparr> else s);
          s = (if latency_ns > max_latency_ns s then s\<lparr>max_latency_ns := latency_ns\<rparr> else s)
      in s\<lparr>total_latency_ns := total_latency_ns s + latency_ns\<rparr>)"

definition avg_latency_ns :: "Statistics \<Rightarrow> real" where
  "avg_latency_ns s =
     (if messages_dispatched s > 0
      then value64 (double_div (double_of (unat (total_latency_ns s))) (double_of (unat (messages_dispatched s))))
      else 0)"

section \<open>Views and constants\<close>

text \<open>A view whose length stays inside the object it points to.\<close>

definition view_ok :: "MessageView \<Rightarrow> bool" where
  "view_ok v \<longleftrightarrow> (case mv_data v of None \<Rightarrow> True | Some bs \<Rightarrow> unat (mv_length v) \<le> length bs)"

lemma is_valid_default [simp]: "\<not> is_valid MessageView_default"
  by (simp add: is_valid_def MessageView_default_def)

lemma NmType_code_inj: "inj NmType_code"
proof (rule injI)
  show "x = y" if "NmType_code x = NmType_code y" for x y
    using that by (cases x; cases y; simp)
qed

lemma queue_sizes [simp]:
  "size_assert PACKET_RING_SIZE" "PACKET_RING_SIZE \<noteq> 0" "unat PACKET_RING_SIZE = 16384"
  "size_assert DEFAULT_QUEUE_SIZE" "DEFAULT_QUEUE_SIZE \<noteq> 0" "unat DEFAULT_QUEUE_SIZE = 65536"
  by (simp_all add: size_assert_def PACKET_RING_SIZE_def DEFAULT_QUEUE_SIZE_def)

section \<open>Latency accounting\<close>

lemma update_latency_fields [simp]:
  "min_latency_ns (update_latency l s) = min (min_latency_ns s) l"
  "max_latency_ns (update_latency l s) = max (max_latency_ns s) l"
  "total_latency_ns (update_latency l s) = total_latency_ns s + l"
  "packets_received (update_latency l s) = packets_received s"
  "packets_dropped (update_latency l s) = packets_dropped s"
  "messages_parsed (update_latency l s) = messages_parsed s"
  "messages_dispatched (update_latency l s) = messages_dispatched s"
  "parse_errors (update_latency l s) = parse_errors s"
  by (auto simp: update_latency_def Let_def min_def max_def)

lemma fold_update_latency:
  "min_latency_ns (fold update_latency ls s) = fold min ls (min_latency_ns s)"
  "max_latency_ns (fold update_latency ls s) = fold max ls (max_latency_ns s)"
  "total_latency_ns (fold update_latency ls s) = total_latency_ns s + sum_list ls"
  "messages_dispatched (fold update_latency ls s) = messages_dispatched s"
  by (induction ls arbitrary: s) (simp_all add: min.commute max.commute ac_simps)

lemma fold_min_top: "ls \<noteq> [] \<Longrightarrow> fold min ls (- 1 :: u64) = Min (set ls)"
  by (cases ls) (simp_all add: Min.set_eq_fold[symmetric] min_def word_order.extremum_unique del: Min_insert)

lemma fold_max_bot: "ls \<noteq> [] \<Longrightarrow> fold max ls (0 :: u64) = Max (set ls)"
  by (cases ls) (simp_all add: Max.set_eq_fold[symmetric] max_def del: Max_insert)

lemma unat_sum_list:
  fixes ls :: "'w::len word list"
  assumes "(\<Sum>l\<leftarrow>ls. unat l) < 2 ^ LENGTH('w)"
  shows "unat (sum_list ls) = (\<Sum>l\<leftarrow>ls. unat l)"
  using assms by (induction ls) (simp_all add: unat_word_ariths)

lemma sum_list_mean_bounds:
  fixes f :: "'a \<Rightarrow> nat"
  assumes "\<And>x. x \<in> set xs \<Longrightarrow> lo \<le> f x" and "\<And>x. x \<in> set xs \<Longrightarrow> f x \<le> hi"
  shows "lo * length xs \<le> (\<Sum>x\<leftarrow>xs. f x)" and "(\<Sum>x\<leftarrow>xs. f x) \<le> hi * length xs"
  using assms by (induction xs) (auto intro: add_mono)

text \<open>
  The average as the code computes it: within a relative error of 2^-51 of the exact quotient, and
  not rounded past an integer bound as long as the sum is below 2^53.
\<close>

lemma avg_latency_relative:
  assumes "0 < messages_dispatched s"
  defines "x \<equiv> real (unat (total_latency_ns s)) / real (unat (messages_dispatched s))"
  shows "x * (1 - 1 / 2 ^ 51) \<le> avg_latency_ns s" "avg_latency_ns s \<le> x * (1 + 1 / 2 ^ 51)"
proof -
  have "0 < unat (messages_dispatched s)" using assms(1) by (simp add: word_less_nat_alt)
  from double_quotient[OF unat_less_2p64[of "total_latency_ns s"] this unat_less_2p64]
  show "x * (1 - 1 / 2 ^ 51) \<le> avg_latency_ns s" "avg_latency_ns s \<le> x * (1 + 1 / 2 ^ 51)"
    using assms(1) by (simp_all only: avg_latency_ns_def x_def if_True)
qed

lemma avg_latency_exact_bounds:
  assumes "0 < messages_dispatched s" "unat (total_latency_ns s) < 2 ^ 53" "unat (messages_dispatched s) < 2 ^ 53"
  shows "m * unat (messages_dispatched s) \<le> unat (total_latency_ns s) \<Longrightarrow> real m \<le> avg_latency_ns s"
    "unat (total_latency_ns s) \<le> m * unat (messages_dispatched s) \<Longrightarrow> avg_latency_ns s \<le> real m"
proof -
  let ?t = "unat (total_latency_ns s)" and ?n = "unat (messages_dispatched s)"
  have n: "0 < ?n" using assms(1) by (simp add: word_less_nat_alt)
  have avg: "avg_latency_ns s = value64 (round64 (?t * unit64) (?n * unit64))"
    using assms by (simp add: avg_latency_ns_def double_div_def double_of_exact)
  have "?t * unit64 < 2 ^ 53 * (?n * unit64)"
    using assms(2) n mult_le_mono2[of 1 ?n "2 ^ 53"] by (simp add: mult.assoc[symmetric])
  note r = round64_bounds[OF _ this, of m]
  show "real m \<le> avg_latency_ns s" if "m * ?n \<le> ?t"
  proof -
    have "real (m * unit64) \<le> real (round64 (?t * unit64) (?n * unit64))"
      using r(1) n that by (simp add: mult.assoc[symmetric] del: of_nat_mult)
    then show ?thesis by (simp add: avg value64_def field_simps)
  qed
  show "avg_latency_ns s \<le> real m" if "?t \<le> m * ?n"
  proof -
    have "real (round64 (?t * unit64) (?n * unit64)) \<le> real (m * unit64)"
      using r(2) n that by (simp add: mult.assoc[symmetric] del: of_nat_mult)
    then show ?thesis by (simp add: avg value64_def field_simps)
  qed
qed

text \<open>
  C32: the latency counters of a fresh \<open>Statistics\<close> object after the nonempty sequence \<open>ls\<close> of
  \<open>update_latency\<close> calls hold the minimum, the maximum and the wrapped sum of \<open>ls\<close>.  When one
  message was dispatched per update and the sum did not wrap, \<open>avg_latency_ns\<close>, computed in
  \<open>double\<close>, lies between the recorded minimum and the recorded maximum up to a relative error of
  2^-51, and exactly between them when the sum (104 days in nanoseconds) and the number of updates
  are below 2^53.
\<close>

theorem latency_statistics:
  assumes "ls \<noteq> []"
  defines "s \<equiv> fold update_latency ls Statistics_init"
  shows "min_latency_ns s = Min (set ls) \<and> max_latency_ns s = Max (set ls) \<and>
    total_latency_ns s = sum_list ls \<and>
    ((\<Sum>l\<leftarrow>ls. unat l) < 2 ^ 64 \<and> length ls < 2 ^ 64 \<longrightarrow>
     (let a = avg_latency_ns (s\<lparr>messages_dispatched := of_nat (length ls)\<rparr>)
      in real (unat (min_latency_ns s)) * (1 - 1 / 2 ^ 51) \<le> a \<and>
         a \<le> real (unat (max_latency_ns s)) * (1 + 1 / 2 ^ 51) \<and>
         ((\<Sum>l\<leftarrow>ls. unat l) < 2 ^ 53 \<and> length ls < 2 ^ 53 \<longrightarrow>
           real (unat (min_latency_ns s)) \<le> a \<and> a \<le> real (unat (max_latency_ns s)))))"
proof (intro conjI impI)
  show mn: "min_latency_ns s = Min (set ls)" and mx: "max_latency_ns s = Max (set ls)"
    and tot: "total_latency_ns s = sum_list ls"
    using assms by (simp_all add: fold_update_latency fold_min_top fold_max_bot Statistics_init_def)
  assume b: "(\<Sum>l\<leftarrow>ls. unat l) < 2 ^ 64 \<and> length ls < 2 ^ 64"
  have t: "unat (sum_list ls) = (\<Sum>l\<leftarrow>ls. unat l)" using b unat_sum_list[of ls] by simp
  have n: "unat (of_nat (length ls) :: u64) = length ls" and pos: "0 < length ls"
    using b assms(1) by (simp_all add: unat_of_nat)
  then have nz: "(of_nat (length ls) :: u64) > 0" by (metis unat_gt_0 word_gt_0)
  have mean: "unat (Min (set ls)) * length ls \<le> unat (sum_list ls)"
    "unat (sum_list ls) \<le> unat (Max (set ls)) * length ls"
    unfolding t using sum_list_mean_bounds[of ls "unat (Min (set ls))" unat "unat (Max (set ls))"]
    by (simp_all add: word_le_nat_alt[symmetric])
  let ?s = "s\<lparr>messages_dispatched := of_nat (length ls)\<rparr>" and ?x = "real (unat (sum_list ls)) / real (length ls)"
  have "real (unat (Min (set ls)) * length ls) \<le> real (unat (sum_list ls))"
    "real (unat (sum_list ls)) \<le> real (unat (Max (set ls)) * length ls)"
    using mean by (simp_all only: of_nat_le_iff)
  then have x: "real (unat (Min (set ls))) \<le> ?x" "?x \<le> real (unat (Max (set ls)))"
    using pos by (simp_all add: field_simps)
  have r: "?x * (1 - 1 / 2 ^ 51) \<le> avg_latency_ns ?s" "avg_latency_ns ?s \<le> ?x * (1 + 1 / 2 ^ 51)"
    using avg_latency_relative[of ?s] nz by (simp_all add: tot n)
  have "real (unat (Min (set ls))) * (1 - 1 / 2 ^ 51) \<le> avg_latency_ns ?s"
    by (rule order_trans[OF mult_right_mono[OF x(1)] r(1)]) simp
  moreover have "avg_latency_ns ?s \<le> real (unat (Max (set ls))) * (1 + 1 / 2 ^ 51)"
    by (rule order_trans[OF r(2) mult_right_mono[OF x(2)]]) simp
  moreover have "(\<Sum>l\<leftarrow>ls. unat l) < 2 ^ 53 \<and> length ls < 2 ^ 53 \<longrightarrow>
      real (unat (Min (set ls))) \<le> avg_latency_ns ?s \<and> avg_latency_ns ?s \<le> real (unat (Max (set ls)))"
    using avg_latency_exact_bounds(1)[of ?s "unat (Min (set ls))"]
      avg_latency_exact_bounds(2)[of ?s "unat (Max (set ls))"] mean nz b by (simp add: tot n t)
  ultimately show "let a = avg_latency_ns ?s
      in real (unat (min_latency_ns s)) * (1 - 1 / 2 ^ 51) \<le> a \<and>
         a \<le> real (unat (max_latency_ns s)) * (1 + 1 / 2 ^ 51) \<and>
         ((\<Sum>l\<leftarrow>ls. unat l) < 2 ^ 53 \<and> length ls < 2 ^ 53 \<longrightarrow>
           real (unat (min_latency_ns s)) \<le> a \<and> a \<le> real (unat (max_latency_ns s)))"
    unfolding Let_def mn mx by blast
qed

theorem latency_statistics_witness:
  "min_latency_ns (fold update_latency [5, 2, 9] Statistics_init) = 2 \<and>
   max_latency_ns (fold update_latency [5, 2, 9] Statistics_init) = 9 \<and>
   2 \<le> avg_latency_ns ((fold update_latency [5, 2, 9] Statistics_init)\<lparr>messages_dispatched := 3\<rparr>) \<and>
   avg_latency_ns ((fold update_latency [5, 2, 9] Statistics_init)\<lparr>messages_dispatched := 3\<rparr>) \<le> 9"
proof -
  let ?s = "fold update_latency [5, 2, 9] Statistics_init"
  have "(\<Sum>l\<leftarrow>[5, 2, 9 :: u64]. unat l) = 16" "of_nat (length [5, 2, 9 :: u64]) = (3 :: u64)" by simp_all
  note all = latency_statistics[of "[5, 2, 9]", unfolded Let_def this]
  have m: "min_latency_ns ?s = 2" "max_latency_ns ?s = 9" using all by (simp_all add: min_def max_def)
  have "unat (2 :: u64) = 2" "unat (9 :: u64) = 9" by simp_all
  with all show ?thesis unfolding m by simp
qed

end
