(* ===== verification/Parser_Interface.thy ===== *)
theory Parser_Interface
  imports Core_Types
begin

text \<open>
  \<open>core/parser/parser_interface.hpp\<close>: the abstract class \<open>IParser\<close> as the record of its virtual
  methods over an explicit parser state, the two built-in parsers, and the contract every parser
  gives the engine.  \<open>parse\<close> gets the packet view, the output array and its size; it returns the
  number of messages written, the output array and the parser state, or \<open>None\<close> on undefined
  behaviour.
\<close>

section \<open>Definitions\<close>

type_synonym 'p parse_fn =
  "MessageView \<Rightarrow> NormalizedMessage list \<Rightarrow> size_t \<Rightarrow> 'p \<Rightarrow>
     (size_t \<times> NormalizedMessage list \<times> 'p) option"

record 'p IParser =
  ip_parse :: "'p parse_fn"
  ip_name :: string
  ip_initialize :: "'p \<Rightarrow> 'p"
  ip_reset :: "'p \<Rightarrow> 'p"
  ip_get_stats :: "'p \<Rightarrow> Statistics \<Rightarrow> Statistics"

definition NullParser_parse :: "unit parse_fn" where
  "NullParser_parse raw_packet output max_messages p =
     (if max_messages = 0 then Some (0, output, p)
      else do {
        output \<leftarrow> store output 0 (NormalizedMessage_default
          \<lparr>nm_type := NM_UNKNOWN, nm_local_timestamp := mv_timestamp raw_packet,
           nm_sequence := mv_sequence raw_packet\<rparr>);
        Some (1, output, p)
      })"

definition NullParser :: "unit IParser" where
  "NullParser = \<lparr>ip_parse = NullParser_parse, ip_name = ''NullParser'', ip_initialize = id,
     ip_reset = id, ip_get_stats = (\<lambda>_ stats. stats)\<rparr>"

text \<open>The state of \<open>EchoParser\<close> is its \<open>parse_count_\<close>.\<close>

definition EchoParser_parse :: "u64 parse_fn" where
  "EchoParser_parse raw_packet output max_messages parse_count =
     (if max_messages = 0 \<or> \<not> is_valid raw_packet then Some (0, output, parse_count)
      else do {
        output \<leftarrow> store output 0 (NormalizedMessage_default
          \<lparr>nm_type := NM_SYSTEM_EVENT, nm_local_timestamp := mv_timestamp raw_packet,
           nm_sequence := mv_sequence raw_packet, nm_quantity := ucast (mv_length raw_packet)\<rparr>);
        Some (1, output, parse_count + 1)
      })"

definition EchoParser_get_stats :: "u64 \<Rightarrow> Statistics \<Rightarrow> Statistics" where
  "EchoParser_get_stats parse_count stats = stats\<lparr>messages_parsed := parse_count\<rparr>"

definition EchoParser :: "u64 IParser" where
  "EchoParser = \<lparr>ip_parse = EchoParser_parse, ip_name = ''EchoParser'', ip_initialize = id,
     ip_reset = id, ip_get_stats = EchoParser_get_stats\<rparr>"

section \<open>The parser contract\<close>

text \<open>
  What the engine relies on: on a view that stays inside its object and an output array of at least
  \<open>max_messages\<close> slots, \<open>parse\<close> has no undefined behaviour, reports at most \<open>max_messages\<close>
  messages and leaves every slot from the reported number on as it was.
\<close>

locale parser_contract =
  fixes parse :: "'p parse_fn"
  assumes parse_spec: "view_ok v \<Longrightarrow> unat max_messages \<le> length output \<Longrightarrow>
    \<exists>c output' p'. parse v output max_messages p = Some (c, output', p') \<and> c \<le> max_messages \<and>
      length output' = length output \<and> drop (unat c) output' = drop (unat c) output"
begin

lemma parse_no_ub: "view_ok v \<Longrightarrow> unat m \<le> length out \<Longrightarrow> parse v out m p \<noteq> None"
  using parse_spec by fastforce

lemma parse_SomeD:
  assumes "view_ok v" "unat m \<le> length out" "parse v out m p = Some (c, out', p')"
  shows "c \<le> m" "length out' = length out" "unat c \<le> length out'"
    "drop (unat c) out' = drop (unat c) out"
  using parse_spec[OF assms(1,2), of p] assms(2,3) by (auto simp: word_le_nat_alt)

lemma parse_zero: "view_ok v \<Longrightarrow> parse v out 0 p = Some (c, out', p') \<Longrightarrow> c = 0 \<and> out' = out"
  using parse_SomeD[of v 0 out p c out' p'] by simp

end

lemma store_0_drop: "store xs 0 y = Some ys \<Longrightarrow> drop (Suc 0) ys = drop (Suc 0) xs"
  by (cases xs) (auto simp: store_def)

interpretation null_parser: parser_contract NullParser_parse
proof unfold_locales
  show "\<exists>c out' p'. NullParser_parse v out m p = Some (c, out', p') \<and> c \<le> m \<and>
      length out' = length out \<and> drop (unat c) out' = drop (unat c) out"
    if "unat m \<le> length out" for v m out p
    using that by (cases "m = 0"; cases out)
      (auto simp: NullParser_parse_def store_def word_le_nat_alt unat_0_iff unat_gt_0 Suc_le_eq)
qed

interpretation echo_parser: parser_contract EchoParser_parse
proof unfold_locales
  show "\<exists>c out' p'. EchoParser_parse v out m p = Some (c, out', p') \<and> c \<le> m \<and>
      length out' = length out \<and> drop (unat c) out' = drop (unat c) out"
    if "unat m \<le> length out" for v m out p
    using that by (cases "m = 0"; cases out)
      (auto simp: EchoParser_parse_def store_def word_le_nat_alt unat_0_iff unat_gt_0 Suc_le_eq)
qed

end
