(* ===== verification/Itch_Messages.thy ===== *)
theory Itch_Messages
  imports Prelude
begin

text \<open>
  \<open>protocols/itch50/itch50_messages.hpp\<close>: the big-endian readers, the message type enumeration, the
  packed message structs as layouts (the list of their fields with their sizes, in declaration
  order, so that a field's offset and the struct's size are computed as under
  \<open>#pragma pack(push, 1)\<close>), the \<open>SIZE\<close> constants and \<open>get_message_size\<close>.
\<close>

section \<open>Definitions\<close>

definition read_u16_be :: "bytes \<Rightarrow> u16 option" where
  "read_u16_be data = do {
     d0 \<leftarrow> load data 0; d1 \<leftarrow> load data 1;
     Some (push_bit 8 (ucast d0) OR ucast d1) }"

definition read_u32_be :: "bytes \<Rightarrow> u32 option" where
  "read_u32_be data = do {
     d0 \<leftarrow> load data 0; d1 \<leftarrow> load data 1; d2 \<leftarrow> load data 2; d3 \<leftarrow> load data 3;
     Some (push_bit 24 (ucast d0) OR push_bit 16 (ucast d1) OR push_bit 8 (ucast d2) OR ucast d3) }"

definition read_u64_be :: "bytes \<Rightarrow> u64 option" where
  "read_u64_be data = do {
     d0 \<leftarrow> load data 0; d1 \<leftarrow> load data 1; d2 \<leftarrow> load data 2; d3 \<leftarrow> load data 3;
     d4 \<leftarrow> load data 4; d5 \<leftarrow> load data 5; d6 \<leftarrow> load data 6; d7 \<leftarrow> load data 7;
     Some (push_bit 56 (ucast d0) OR push_bit 48 (ucast d1) OR push_bit 40 (ucast d2) OR
           push_bit 32 (ucast d3) OR push_bit 24 (ucast d4) OR push_bit 16 (ucast d5) OR
           push_bit 8 (ucast d6) OR ucast d7) }"

abbreviation chr8 :: "char \<Rightarrow> u8" where
  "chr8 c \<equiv> of_char c"

text \<open>
  \<open>MessageType\<close> has the fixed underlying type \<open>uint8_t\<close>: a cast may produce a value with no
  enumerator, which is \<open>MT_UNLISTED\<close> here.
\<close>

datatype MessageType =
    MT_SYSTEM_EVENT | MT_STOCK_DIRECTORY | MT_STOCK_TRADING_ACTION | MT_REG_SHO_RESTRICTION
  | MT_MARKET_PARTICIPANT_POSITION | MT_MWCB_DECLINE_LEVEL | MT_MWCB_STATUS
  | MT_IPO_QUOTING_PERIOD | MT_ADD_ORDER | MT_ADD_ORDER_MPID | MT_ORDER_EXECUTED
  | MT_ORDER_EXECUTED_WITH_PRICE | MT_ORDER_CANCEL | MT_ORDER_DELETE | MT_ORDER_REPLACE
  | MT_TRADE | MT_CROSS_TRADE | MT_BROKEN_TRADE | MT_NOII | MT_RPII | MT_UNLISTED u8

fun MessageType_code :: "MessageType \<Rightarrow> u8" where
  "MessageType_code MT_SYSTEM_EVENT = chr8 CHR ''S''"
| "MessageType_code MT_STOCK_DIRECTORY = chr8 CHR ''R''"
| "MessageType_code MT_STOCK_TRADING_ACTION = chr8 CHR ''H''"
| "MessageType_code MT_REG_SHO_RESTRICTION = chr8 CHR ''Y''"
| "MessageType_code MT_MARKET_PARTICIPANT_POSITION = chr8 CHR ''L''"
| "MessageType_code MT_MWCB_DECLINE_LEVEL = chr8 CHR ''V''"
| "MessageType_code MT_MWCB_STATUS = chr8 CHR ''W''"
| "MessageType_code MT_IPO_QUOTING_PERIOD = chr8 CHR ''K''"
| "MessageType_code MT_ADD_ORDER = chr8 CHR ''A''"
| "MessageType_code MT_ADD_ORDER_MPID = chr8 CHR ''F''"
| "MessageType_code MT_ORDER_EXECUTED = chr8 CHR ''E''"
| "MessageType_code MT_ORDER_EXECUTED_WITH_PRICE = chr8 CHR ''C''"
| "MessageType_code MT_ORDER_CANCEL = chr8 CHR ''X''"
| "MessageType_code MT_ORDER_DELETE = chr8 CHR ''D''"
| "MessageType_code MT_ORDER_REPLACE = chr8 CHR ''U''"
| "MessageType_code MT_TRADE = chr8 CHR ''P''"
| "MessageType_code MT_CROSS_TRADE = chr8 CHR ''Q''"
| "MessageType_code MT_BROKEN_TRADE = chr8 CHR ''B''"
| "MessageType_code MT_NOII = chr8 CHR ''I''"
| "MessageType_code MT_RPII = chr8 CHR ''N''"
| "MessageType_code (MT_UNLISTED b) = b"

definition MessageType_enumerators :: "MessageType list" where
  "MessageType_enumerators =
    [MT_SYSTEM_EVENT, MT_STOCK_DIRECTORY, MT_STOCK_TRADING_ACTION, MT_REG_SHO_RESTRICTION,
     MT_MARKET_PARTICIPANT_POSITION, MT_MWCB_DECLINE_LEVEL, MT_MWCB_STATUS, MT_IPO_QUOTING_PERIOD,
     MT_ADD_ORDER, MT_ADD_ORDER_MPID, MT_ORDER_EXECUTED, MT_ORDER_EXECUTED_WITH_PRICE,
     MT_ORDER_CANCEL, MT_ORDER_DELETE, MT_ORDER_REPLACE, MT_TRADE, MT_CROSS_TRADE,
     MT_BROKEN_TRADE, MT_NOII, MT_RPII]"

text \<open>\<open>static_cast<MessageType>(b)\<close>.\<close>

definition MessageType_of_u8 :: "u8 \<Rightarrow> MessageType" where
  "MessageType_of_u8 b =
     (case find (\<lambda>t. MessageType_code t = b) MessageType_enumerators of
        Some t \<Rightarrow> t | None \<Rightarrow> MT_UNLISTED b)"

definition Side_BUY :: u8 where "Side_BUY = chr8 CHR ''B''"
definition Side_SELL :: u8 where "Side_SELL = chr8 CHR ''S''"

subsection \<open>Packed structs\<close>

type_synonym layout = "(string \<times> nat) list"

definition sizeof :: "layout \<Rightarrow> nat" where
  "sizeof l = sum_list (map snd l)"

fun offsetof :: "layout \<Rightarrow> string \<Rightarrow> nat" where
  "offsetof [] f = 0"
| "offsetof ((g, n) # l) f = (if f = g then 0 else n + offsetof l f)"

definition MessageHeader :: layout where
  "MessageHeader =
     [(''stock_locate'', 2), (''tracking_number'', 2), (''timestamp'', 8), (''message_type'', 1)]"

definition SystemEventMessage :: layout where
  "SystemEventMessage =
     [(''stock_locate'', 2), (''tracking_number'', 2), (''timestamp'', 8), (''message_type'', 1),
      (''event_code'', 1)]"

definition StockDirectoryMessage :: layout where
  "StockDirectoryMessage =
     [(''stock_locate'', 2), (''tracking_number'', 2), (''timestamp'', 8), (''message_type'', 1),
      (''stock'', 8), (''market_category'', 1), (''financial_status'', 1), (''round_lot_size'', 4),
      (''round_lots_only'', 1), (''issue_classification'', 1), (''issue_sub_type'', 2),
      (''authenticity'', 1), (''ipo_flag'', 1), (''luld_ref_price_tier'', 1), (''etp_flag'', 1),
      (''etp_leverage_factor'', 4), (''inverse_indicator'', 1)]"

definition AddOrderMessage :: layout where
  "AddOrderMessage =
     [(''stock_locate'', 2), (''tracking_number'', 2), (''timestamp'', 8), (''message_type'', 1),
      (''order_reference_number'', 8), (''buy_sell_indicator'', 1), (''shares'', 4),
      (''stock'', 8), (''price'', 4)]"

definition AddOrderMPIDMessage :: layout where
  "AddOrderMPIDMessage =
     [(''stock_locate'', 2), (''tracking_number'', 2), (''timestamp'', 8), (''message_type'', 1),
      (''order_reference_number'', 8), (''buy_sell_indicator'', 1), (''shares'', 4),
      (''stock'', 8), (''price'', 4), (''attribution'', 4)]"

definition OrderExecutedMessage :: layout where
  "OrderExecutedMessage =
     [(''stock_locate'', 2), (''tracking_number'', 2), (''timestamp'', 8), (''message_type'', 1),
      (''order_reference_number'', 8), (''executed_shares'', 4), (''match_number'', 8)]"

definition OrderExecutedWithPriceMessage :: layout where
  "OrderExecutedWithPriceMessage =
     [(''stock_locate'', 2), (''tracking_number'', 2), (''timestamp'', 8), (''message_type'', 1),
      (''order_reference_number'', 8), (''executed_shares'', 4), (''match_number'', 8),
      (''printable'', 1), (''execution_price'', 4)]"

definition OrderCancelMessage :: layout where
  "OrderCancelMessage =
     [(''stock_locate'', 2), (''tracking_number'', 2), (''timestamp'', 8), (''message_type'', 1),
      (''order_reference_number'', 8), (''cancelled_shares'', 4)]"

definition OrderDeleteMessage :: layout where
  "OrderDeleteMessage =
     [(''stock_locate'', 2), (''tracking_number'', 2), (''timestamp'', 8), (''message_type'', 1),
      (''order_reference_number'', 8)]"

definition OrderReplaceMessage :: layout where
  "OrderReplaceMessage =
     [(''stock_locate'', 2), (''tracking_number'', 2), (''timestamp'', 8), (''message_type'', 1),
      (''original_order_reference_number'', 8), (''new_order_reference_number'', 8),
      (''shares'', 4), (''price'', 4)]"

definition TradeMessage :: layout where
  "TradeMessage =
     [(''stock_locate'', 2), (''tracking_number'', 2), (''timestamp'', 8), (''message_type'', 1),
      (''order_reference_number'', 8), (''buy_sell_indicator'', 1), (''shares'', 4),
      (''stock'', 8), (''price'', 4), (''match_number'', 8)]"

definition CrossTradeMessage :: layout where
  "CrossTradeMessage =
     [(''stock_locate'', 2), (''tracking_number'', 2), (''timestamp'', 8), (''message_type'', 1),
      (''shares'', 8), (''stock'', 8), (''cross_price'', 4), (''match_number'', 8),
      (''cross_type'', 1)]"

definition BrokenTradeMessage :: layout where
  "BrokenTradeMessage =
     [(''stock_locate'', 2), (''tracking_number'', 2), (''timestamp'', 8), (''message_type'', 1),
      (''match_number'', 8)]"

text \<open>The \<open>SIZE\<close> members.\<close>

definition SystemEventMessage_SIZE :: size_t where "SystemEventMessage_SIZE = 14"
definition StockDirectoryMessage_SIZE :: size_t where "StockDirectoryMessage_SIZE = 41"
definition AddOrderMessage_SIZE :: size_t where "AddOrderMessage_SIZE = 38"
definition AddOrderMPIDMessage_SIZE :: size_t where "AddOrderMPIDMessage_SIZE = 42"
definition OrderExecutedMessage_SIZE :: size_t where "OrderExecutedMessage_SIZE = 33"
definition OrderExecutedWithPriceMessage_SIZE :: size_t where
  "OrderExecutedWithPriceMessage_SIZE = 38"
definition OrderCancelMessage_SIZE :: size_t where "OrderCancelMessage_SIZE = 25"
definition OrderDeleteMessage_SIZE :: size_t where "OrderDeleteMessage_SIZE = 21"
definition OrderReplaceMessage_SIZE :: size_t where "OrderReplaceMessage_SIZE = 37"
definition TradeMessage_SIZE :: size_t where "TradeMessage_SIZE = 46"
definition CrossTradeMessage_SIZE :: size_t where "CrossTradeMessage_SIZE = 42"
definition BrokenTradeMessage_SIZE :: size_t where "BrokenTradeMessage_SIZE = 21"

fun get_message_size :: "MessageType \<Rightarrow> size_t" where
  "get_message_size MT_SYSTEM_EVENT = SystemEventMessage_SIZE"
| "get_message_size MT_STOCK_DIRECTORY = StockDirectoryMessage_SIZE"
| "get_message_size MT_STOCK_TRADING_ACTION = 27"
| "get_message_size MT_REG_SHO_RESTRICTION = 22"
| "get_message_size MT_MARKET_PARTICIPANT_POSITION = 28"
| "get_message_size MT_MWCB_DECLINE_LEVEL = 37"
| "get_message_size MT_MWCB_STATUS = 14"
| "get_message_size MT_IPO_QUOTING_PERIOD = 30"
| "get_message_size MT_ADD_ORDER = AddOrderMessage_SIZE"
| "get_message_size MT_ADD_ORDER_MPID = AddOrderMPIDMessage_SIZE"
| "get_message_size MT_ORDER_EXECUTED = OrderExecutedMessage_SIZE"
| "get_message_size MT_ORDER_EXECUTED_WITH_PRICE = OrderExecutedWithPriceMessage_SIZE"
| "get_message_size MT_ORDER_CANCEL = OrderCancelMessage_SIZE"
| "get_message_size MT_ORDER_DELETE = OrderDeleteMessage_SIZE"
| "get_message_size MT_ORDER_REPLACE = OrderReplaceMessage_SIZE"
| "get_message_size MT_TRADE = TradeMessage_SIZE"
| "get_message_size MT_CROSS_TRADE = CrossTradeMessage_SIZE"
| "get_message_size MT_BROKEN_TRADE = BrokenTradeMessage_SIZE"
| "get_message_size MT_NOII = 52"
| "get_message_size MT_RPII = 22"
| "get_message_size (MT_UNLISTED b) = 0"

text \<open>The struct the source declares for a message type, when it declares one.\<close>

fun struct_of :: "MessageType \<Rightarrow> layout option" where
  "struct_of MT_SYSTEM_EVENT = Some SystemEventMessage"
| "struct_of MT_STOCK_DIRECTORY = Some StockDirectoryMessage"
| "struct_of MT_ADD_ORDER = Some AddOrderMessage"
| "struct_of MT_ADD_ORDER_MPID = Some AddOrderMPIDMessage"
| "struct_of MT_ORDER_EXECUTED = Some OrderExecutedMessage"
| "struct_of MT_ORDER_EXECUTED_WITH_PRICE = Some OrderExecutedWithPriceMessage"
| "struct_of MT_ORDER_CANCEL = Some OrderCancelMessage"
| "struct_of MT_ORDER_DELETE = Some OrderDeleteMessage"
| "struct_of MT_ORDER_REPLACE = Some OrderReplaceMessage"
| "struct_of MT_TRADE = Some TradeMessage"
| "struct_of MT_CROSS_TRADE = Some CrossTradeMessage"
| "struct_of MT_BROKEN_TRADE = Some BrokenTradeMessage"
| "struct_of _ = None"

section \<open>Message types\<close>

lemma MessageType_code_of_u8 [simp]: "MessageType_code (MessageType_of_u8 b) = b"
proof (cases "find (\<lambda>t. MessageType_code t = b) MessageType_enumerators")
  case (Some t)
  then have "MessageType_code t = b" by (auto simp: find_Some_iff)
  with Some show ?thesis by (simp add: MessageType_of_u8_def)
qed (simp add: MessageType_of_u8_def)

lemma find_distinct_key:
  "distinct (map f xs) \<Longrightarrow> x \<in> set xs \<Longrightarrow> find (\<lambda>y. f y = f x) xs = Some x"
  by (induction xs) (auto simp: image_iff)

lemma MessageType_codes_distinct: "distinct (map MessageType_code MessageType_enumerators)"
  by code_simp

lemma MessageType_of_code:
  "t \<in> set MessageType_enumerators \<Longrightarrow> MessageType_of_u8 (MessageType_code t) = t"
  by (simp add: MessageType_of_u8_def find_distinct_key[OF MessageType_codes_distinct])

lemma MessageType_of_u8_iff:
  "t \<in> set MessageType_enumerators \<Longrightarrow> MessageType_of_u8 b = t \<longleftrightarrow> b = MessageType_code t"
  using MessageType_of_code by fastforce

section \<open>Layouts\<close>

lemma header_offsets [layout_simps]:
  assumes "l \<in> {SystemEventMessage, StockDirectoryMessage, AddOrderMessage, AddOrderMPIDMessage,
    OrderExecutedMessage, OrderExecutedWithPriceMessage, OrderCancelMessage, OrderDeleteMessage,
    OrderReplaceMessage, TradeMessage, CrossTradeMessage, BrokenTradeMessage}"
  shows "offsetof l ''stock_locate'' = 0" "offsetof l ''tracking_number'' = 2"
    "offsetof l ''timestamp'' = 4" "offsetof l ''message_type'' = 12"
  using assms by (auto simp: SystemEventMessage_def StockDirectoryMessage_def AddOrderMessage_def
      AddOrderMPIDMessage_def OrderExecutedMessage_def OrderExecutedWithPriceMessage_def
      OrderCancelMessage_def OrderDeleteMessage_def OrderReplaceMessage_def TradeMessage_def
      CrossTradeMessage_def BrokenTradeMessage_def)

lemma body_offsets [layout_simps]:
  "offsetof StockDirectoryMessage ''stock'' = 13"
  "offsetof AddOrderMessage ''order_reference_number'' = 13"
  "offsetof AddOrderMessage ''buy_sell_indicator'' = 21"
  "offsetof AddOrderMessage ''shares'' = 22" "offsetof AddOrderMessage ''price'' = 34"
  "offsetof AddOrderMPIDMessage ''order_reference_number'' = 13"
  "offsetof AddOrderMPIDMessage ''buy_sell_indicator'' = 21"
  "offsetof AddOrderMPIDMessage ''shares'' = 22" "offsetof AddOrderMPIDMessage ''price'' = 34"
  "offsetof OrderExecutedMessage ''order_reference_number'' = 13"
  "offsetof OrderExecutedMessage ''executed_shares'' = 21"
  "offsetof OrderExecutedWithPriceMessage ''order_reference_number'' = 13"
  "offsetof OrderExecutedWithPriceMessage ''executed_shares'' = 21"
  "offsetof OrderExecutedWithPriceMessage ''execution_price'' = 34"
  "offsetof OrderCancelMessage ''order_reference_number'' = 13"
  "offsetof OrderCancelMessage ''cancelled_shares'' = 21"
  "offsetof OrderDeleteMessage ''order_reference_number'' = 13"
  "offsetof OrderReplaceMessage ''new_order_reference_number'' = 21"
  "offsetof OrderReplaceMessage ''shares'' = 29" "offsetof OrderReplaceMessage ''price'' = 33"
  "offsetof TradeMessage ''order_reference_number'' = 13"
  "offsetof TradeMessage ''buy_sell_indicator'' = 21"
  "offsetof TradeMessage ''shares'' = 22" "offsetof TradeMessage ''price'' = 34"
  by (simp_all add: StockDirectoryMessage_def AddOrderMessage_def
      AddOrderMPIDMessage_def OrderExecutedMessage_def OrderExecutedWithPriceMessage_def
      OrderCancelMessage_def OrderDeleteMessage_def OrderReplaceMessage_def TradeMessage_def)

lemmas SIZE_defs [layout_simps] = SystemEventMessage_SIZE_def StockDirectoryMessage_SIZE_def
  AddOrderMessage_SIZE_def AddOrderMPIDMessage_SIZE_def OrderExecutedMessage_SIZE_def
  OrderExecutedWithPriceMessage_SIZE_def OrderCancelMessage_SIZE_def OrderDeleteMessage_SIZE_def
  OrderReplaceMessage_SIZE_def TradeMessage_SIZE_def CrossTradeMessage_SIZE_def
  BrokenTradeMessage_SIZE_def

lemmas struct_defs = MessageHeader_def SystemEventMessage_def StockDirectoryMessage_def
  AddOrderMessage_def AddOrderMPIDMessage_def OrderExecutedMessage_def
  OrderExecutedWithPriceMessage_def OrderCancelMessage_def OrderDeleteMessage_def
  OrderReplaceMessage_def TradeMessage_def CrossTradeMessage_def BrokenTradeMessage_def

section \<open>Reads\<close>

text \<open>The value a read returns when it stays in bounds.\<close>

definition u16_at :: "bytes \<Rightarrow> u16" where "u16_at d = the (read_u16_be d)"
definition u32_at :: "bytes \<Rightarrow> u32" where "u32_at d = the (read_u32_be d)"
definition u64_at :: "bytes \<Rightarrow> u64" where "u64_at d = the (read_u64_be d)"

lemma read_Some [simp]:
  "2 \<le> length d \<Longrightarrow> read_u16_be d = Some (u16_at d)"
  "4 \<le> length d \<Longrightarrow> read_u32_be d = Some (u32_at d)"
  "8 \<le> length d \<Longrightarrow> read_u64_be d = Some (u64_at d)"
  by (auto simp: u16_at_def u32_at_def u64_at_def read_u16_be_def read_u32_be_def
      read_u64_be_def load_def)

lemma read_None_iff:
  "read_u16_be d = None \<longleftrightarrow> length d < 2"
  "read_u32_be d = None \<longleftrightarrow> length d < 4"
  "read_u64_be d = None \<longleftrightarrow> length d < 8"
  by (auto simp: read_u16_be_def read_u32_be_def read_u64_be_def load_def split: if_splits)

lemma at_take [simp]:
  "2 \<le> n \<Longrightarrow> u16_at (take n d) = u16_at d"
  "4 \<le> n \<Longrightarrow> u32_at (take n d) = u32_at d"
  "8 \<le> n \<Longrightarrow> u64_at (take n d) = u64_at d"
  by (simp_all add: u16_at_def u32_at_def u64_at_def read_u16_be_def read_u32_be_def
      read_u64_be_def)

section \<open>The codec contract\<close>

text \<open>
  A reader and an encoder of a fixed number of bytes that are inverse to each other: what a client
  that writes a message field by field and parses it back relies on.
\<close>

locale be_codec =
  fixes rd :: "bytes \<Rightarrow> 'v option" and enc :: "'v \<Rightarrow> bytes" and width :: nat
  assumes length_enc: "length (enc v) = width"
    and rd_short: "rd bs = None \<longleftrightarrow> length bs < width"
    and rd_enc: "rd (enc v @ rest) = Some v"
    and enc_rd: "rd bs = Some v \<Longrightarrow> enc v = take width bs"
begin

lemma rd_enc_alone: "rd (enc v) = Some v"
  using rd_enc[of v "[]"] by simp

lemma enc_inj: "enc v = enc w \<Longrightarrow> v = w"
  using rd_enc_alone by (metis option.inject)

lemma rd_field:
  assumes "length pre = k"
  shows "rd (ptr_add (pre @ enc v @ post) k) = Some v"
  using assms by (simp add: rd_enc)

lemma rd_only_prefix: "rd bs = Some v \<Longrightarrow> rd (take width bs @ rest) = Some v"
  using enc_rd rd_enc by metis

end

section \<open>Properties\<close>

text \<open>
  C27: every declared message struct starts with the common header, so the type byte of every message
  is at offset 12, and \<open>get_message_size\<close> is the packed size of the struct for every type that has
  one, with a single exception: \<open>StockDirectoryMessage::SIZE\<close> is one byte larger than the struct.
\<close>

theorem message_sizes:
  assumes "struct_of t = Some l"
  shows "take 4 l = MessageHeader \<and> offsetof l ''message_type'' = 12 \<and>
    unat (get_message_size t) = (if t = MT_STOCK_DIRECTORY then sizeof l + 1 else sizeof l)"
  using assms by (cases t) (auto simp: struct_defs sizeof_def SIZE_defs)

theorem message_sizes_witness:
  "unat (get_message_size MT_TRADE) = sizeof TradeMessage \<and>
   unat (get_message_size MT_STOCK_DIRECTORY) = sizeof StockDirectoryMessage + 1"
  using message_sizes[of MT_TRADE TradeMessage]
    message_sizes[of MT_STOCK_DIRECTORY StockDirectoryMessage] by simp

end
