(* ===== verification/Itch_Parser.thy ===== *)
theory Itch_Parser
  imports Parser_Interface Itch_Messages
begin

text \<open>
  \<open>protocols/itch50/itch50_parser.hpp\<close>: the ITCH 5.0 parser.  The parser state is its two counters
  and the stock map.  A message handler gets the pointer to the message, its length, the output slot
  and the reception timestamp, checks the length against the struct's \<open>SIZE\<close> before it reads any
  field, and assigns only some of the slot's fields.
\<close>

section \<open>Definitions\<close>

record ItchParser =
  ip_messages_parsed :: u64
  ip_parse_errors :: u64
  ip_stock_map :: "u16 \<rightharpoonup> string"

definition ItchParser_new :: ItchParser where
  "ItchParser_new = \<lparr>ip_messages_parsed = 0, ip_parse_errors = 0, ip_stock_map = Map.empty\<rparr>"

text \<open>\<open>std::string(p, n)\<close> copies \<open>n\<close> characters from \<open>p\<close>.\<close>

definition string_from :: "bytes \<Rightarrow> nat \<Rightarrow> string option" where
  "string_from p n = (if n \<le> length p then Some (map (\<lambda>b. char_of (unat b)) (take n p)) else None)"

text \<open>\<open>&msg->f\<close> for \<open>msg\<close> cast from \<open>data\<close> to a pointer to the struct \<open>l\<close>.\<close>

abbreviation field :: "bytes \<Rightarrow> layout \<Rightarrow> string \<Rightarrow> bytes" where
  "field data l f \<equiv> ptr_add data (offsetof l f)"

type_synonym handler =
  "bytes \<Rightarrow> size_t \<Rightarrow> NormalizedMessage \<Rightarrow> Timestamp \<Rightarrow> (bool \<times> NormalizedMessage) option"

definition parse_system_event :: handler where
  "parse_system_event data len output local_timestamp =
     (if len < SystemEventMessage_SIZE then Some (False, output)
      else do {
        timestamp \<leftarrow> read_u64_be (field data SystemEventMessage ''timestamp'');
        tracking \<leftarrow> read_u16_be (field data SystemEventMessage ''tracking_number'');
        Some (True, output\<lparr>nm_type := NM_SYSTEM_EVENT, nm_timestamp := timestamp,
          nm_local_timestamp := local_timestamp, nm_instrument_id := 0,
          nm_sequence := ucast tracking\<rparr>)
      })"

definition parse_stock_directory ::
  "bytes \<Rightarrow> size_t \<Rightarrow> NormalizedMessage \<Rightarrow> Timestamp \<Rightarrow> ItchParser \<Rightarrow>
     (bool \<times> NormalizedMessage \<times> ItchParser) option" where
  "parse_stock_directory data len output local_timestamp p =
     (if len < StockDirectoryMessage_SIZE then Some (False, output, p)
      else do {
        stock_locate \<leftarrow> read_u16_be (field data StockDirectoryMessage ''stock_locate'');
        stock \<leftarrow> string_from (field data StockDirectoryMessage ''stock'') 8;
        let p = p\<lparr>ip_stock_map := (ip_stock_map p)(stock_locate \<mapsto> stock)\<rparr>;
        timestamp \<leftarrow> read_u64_be (field data StockDirectoryMessage ''timestamp'');
        tracking \<leftarrow> read_u16_be (field data StockDirectoryMessage ''tracking_number'');
        Some (True, output\<lparr>nm_type := NM_SYSTEM_EVENT, nm_timestamp := timestamp,
          nm_local_timestamp := local_timestamp, nm_instrument_id := ucast stock_locate,
          nm_sequence := ucast tracking\<rparr>, p)
      })"

definition parse_add_order :: handler where
  "parse_add_order data len output local_timestamp =
     (if len < AddOrderMessage_SIZE then Some (False, output)
      else do {
        stock_locate \<leftarrow> read_u16_be (field data AddOrderMessage ''stock_locate'');
        order_ref \<leftarrow> read_u64_be (field data AddOrderMessage ''order_reference_number'');
        timestamp \<leftarrow> read_u64_be (field data AddOrderMessage ''timestamp'');
        buy_sell \<leftarrow> load (field data AddOrderMessage ''buy_sell_indicator'') 0;
        shares \<leftarrow> read_u32_be (field data AddOrderMessage ''shares'');
        price \<leftarrow> read_u32_be (field data AddOrderMessage ''price'');
        tracking \<leftarrow> read_u16_be (field data AddOrderMessage ''tracking_number'');
        Some (True, output\<lparr>nm_type := NM_ORDER_ADD, nm_instrument_id := ucast stock_locate,
          nm_order_id := order_ref, nm_timestamp := timestamp,
          nm_local_timestamp := local_timestamp, nm_side := (if buy_sell = Side_BUY then 0 else 1),
          nm_quantity := ucast shares, nm_price := ucast price, nm_sequence := ucast tracking\<rparr>)
      })"

definition parse_add_order_mpid :: handler where
  "parse_add_order_mpid data len output local_timestamp =
     (if len < AddOrderMPIDMessage_SIZE then Some (False, output)
      else do {
        stock_locate \<leftarrow> read_u16_be (field data AddOrderMPIDMessage ''stock_locate'');
        order_ref \<leftarrow> read_u64_be (field data AddOrderMPIDMessage ''order_reference_number'');
        timestamp \<leftarrow> read_u64_be (field data AddOrderMPIDMessage ''timestamp'');
        buy_sell \<leftarrow> load (field data AddOrderMPIDMessage ''buy_sell_indicator'') 0;
        shares \<leftarrow> read_u32_be (field data AddOrderMPIDMessage ''shares'');
        price \<leftarrow> read_u32_be (field data AddOrderMPIDMessage ''price'');
        tracking \<leftarrow> read_u16_be (field data AddOrderMPIDMessage ''tracking_number'');
        Some (True, output\<lparr>nm_type := NM_ORDER_ADD, nm_instrument_id := ucast stock_locate,
          nm_order_id := order_ref, nm_timestamp := timestamp,
          nm_local_timestamp := local_timestamp, nm_side := (if buy_sell = Side_BUY then 0 else 1),
          nm_quantity := ucast shares, nm_price := ucast price, nm_sequence := ucast tracking\<rparr>)
      })"

definition parse_order_executed :: handler where
  "parse_order_executed data len output local_timestamp =
     (if len < OrderExecutedMessage_SIZE then Some (False, output)
      else do {
        stock_locate \<leftarrow> read_u16_be (field data OrderExecutedMessage ''stock_locate'');
        order_ref \<leftarrow> read_u64_be (field data OrderExecutedMessage ''order_reference_number'');
        timestamp \<leftarrow> read_u64_be (field data OrderExecutedMessage ''timestamp'');
        shares \<leftarrow> read_u32_be (field data OrderExecutedMessage ''executed_shares'');
        tracking \<leftarrow> read_u16_be (field data OrderExecutedMessage ''tracking_number'');
        Some (True, output\<lparr>nm_type := NM_ORDER_EXECUTE, nm_instrument_id := ucast stock_locate,
          nm_order_id := order_ref, nm_timestamp := timestamp,
          nm_local_timestamp := local_timestamp, nm_quantity := ucast shares,
          nm_sequence := ucast tracking\<rparr>)
      })"

definition parse_order_executed_with_price :: handler where
  "parse_order_executed_with_price data len output local_timestamp =
     (if len < OrderExecutedWithPriceMessage_SIZE then Some (False, output)
      else do {
        stock_locate \<leftarrow> read_u16_be (field data OrderExecutedWithPriceMessage ''stock_locate'');
        order_ref \<leftarrow>
          read_u64_be (field data OrderExecutedWithPriceMessage ''order_reference_number'');
        timestamp \<leftarrow> read_u64_be (field data OrderExecutedWithPriceMessage ''timestamp'');
        shares \<leftarrow> read_u32_be (field data OrderExecutedWithPriceMessage ''executed_shares'');
        price \<leftarrow> read_u32_be (field data OrderExecutedWithPriceMessage ''execution_price'');
        tracking \<leftarrow> read_u16_be (field data OrderExecutedWithPriceMessage ''tracking_number'');
        Some (True, output\<lparr>nm_type := NM_ORDER_EXECUTE, nm_instrument_id := ucast stock_locate,
          nm_order_id := order_ref, nm_timestamp := timestamp,
          nm_local_timestamp := local_timestamp, nm_quantity := ucast shares,
          nm_price := ucast price, nm_sequence := ucast tracking\<rparr>)
      })"

definition parse_order_cancel :: handler where
  "parse_order_cancel data len output local_timestamp =
     (if len < OrderCancelMessage_SIZE then Some (False, output)
      else do {
        stock_locate \<leftarrow> read_u16_be (field data OrderCancelMessage ''stock_locate'');
        order_ref \<leftarrow> read_u64_be (field data OrderCancelMessage ''order_reference_number'');
        timestamp \<leftarrow> read_u64_be (field data OrderCancelMessage ''timestamp'');
        shares \<leftarrow> read_u32_be (field data OrderCancelMessage ''cancelled_shares'');
        tracking \<leftarrow> read_u16_be (field data OrderCancelMessage ''tracking_number'');
        Some (True, output\<lparr>nm_type := NM_ORDER_MODIFY, nm_instrument_id := ucast stock_locate,
          nm_order_id := order_ref, nm_timestamp := timestamp,
          nm_local_timestamp := local_timestamp, nm_quantity := ucast shares,
          nm_sequence := ucast tracking\<rparr>)
      })"

definition parse_order_delete :: handler where
  "parse_order_delete data len output local_timestamp =
     (if len < OrderDeleteMessage_SIZE then Some (False, output)
      else do {
        stock_locate \<leftarrow> read_u16_be (field data OrderDeleteMessage ''stock_locate'');
        order_ref \<leftarrow> read_u64_be (field data OrderDeleteMessage ''order_reference_number'');
        timestamp \<leftarrow> read_u64_be (field data OrderDeleteMessage ''timestamp'');
        tracking \<leftarrow> read_u16_be (field data OrderDeleteMessage ''tracking_number'');
        Some (True, output\<lparr>nm_type := NM_ORDER_DELETE, nm_instrument_id := ucast stock_locate,
          nm_order_id := order_ref, nm_timestamp := timestamp,
          nm_local_timestamp := local_timestamp, nm_sequence := ucast tracking\<rparr>)
      })"

definition parse_order_replace :: handler where
  "parse_order_replace data len output local_timestamp =
     (if len < OrderReplaceMessage_SIZE then Some (False, output)
      else do {
        stock_locate \<leftarrow> read_u16_be (field data OrderReplaceMessage ''stock_locate'');
        order_ref \<leftarrow> read_u64_be (field data OrderReplaceMessage ''new_order_reference_number'');
        timestamp \<leftarrow> read_u64_be (field data OrderReplaceMessage ''timestamp'');
        shares \<leftarrow> read_u32_be (field data OrderReplaceMessage ''shares'');
        price \<leftarrow> read_u32_be (field data OrderReplaceMessage ''price'');
        tracking \<leftarrow> read_u16_be (field data OrderReplaceMessage ''tracking_number'');
        Some (True, output\<lparr>nm_type := NM_ORDER_MODIFY, nm_instrument_id := ucast stock_locate,
          nm_order_id := order_ref, nm_timestamp := timestamp,
          nm_local_timestamp := local_timestamp, nm_quantity := ucast shares,
          nm_price := ucast price, nm_sequence := ucast tracking\<rparr>)
      })"

definition parse_trade :: handler where
  "parse_trade data len output local_timestamp =
     (if len < TradeMessage_SIZE then Some (False, output)
      else do {
        stock_locate \<leftarrow> read_u16_be (field data TradeMessage ''stock_locate'');
        order_ref \<leftarrow> read_u64_be (field data TradeMessage ''order_reference_number'');
        timestamp \<leftarrow> read_u64_be (field data TradeMessage ''timestamp'');
        buy_sell \<leftarrow> load (field data TradeMessage ''buy_sell_indicator'') 0;
        shares \<leftarrow> read_u32_be (field data TradeMessage ''shares'');
        price \<leftarrow> read_u32_be (field data TradeMessage ''price'');
        tracking \<leftarrow> read_u16_be (field data TradeMessage ''tracking_number'');
        Some (True, output\<lparr>nm_type := NM_TRADE, nm_instrument_id := ucast stock_locate,
          nm_order_id := order_ref, nm_timestamp := timestamp,
          nm_local_timestamp := local_timestamp, nm_side := (if buy_sell = Side_BUY then 0 else 1),
          nm_quantity := ucast shares, nm_price := ucast price, nm_sequence := ucast tracking\<rparr>)
      })"

text \<open>A handler that does not touch the parser's own state.\<close>

definition stateless :: "(bool \<times> NormalizedMessage) option \<Rightarrow> ItchParser \<Rightarrow>
    (bool \<times> NormalizedMessage \<times> ItchParser) option" where
  "stateless r p = map_option (\<lambda>(b, output). (b, output, p)) r"

definition parse_message ::
  "bytes \<Rightarrow> size_t \<Rightarrow> NormalizedMessage \<Rightarrow> Timestamp \<Rightarrow> ItchParser \<Rightarrow>
     (bool \<times> NormalizedMessage \<times> ItchParser) option" where
  "parse_message data len output local_timestamp p =
     (if len < 13 then Some (False, output, p\<lparr>ip_parse_errors := ip_parse_errors p + 1\<rparr>)
      else do {
        b \<leftarrow> load data 12;
        (case MessageType_of_u8 b of
           MT_SYSTEM_EVENT \<Rightarrow> stateless (parse_system_event data len output local_timestamp) p
         | MT_STOCK_DIRECTORY \<Rightarrow> parse_stock_directory data len output local_timestamp p
         | MT_ADD_ORDER \<Rightarrow> stateless (parse_add_order data len output local_timestamp) p
         | MT_ADD_ORDER_MPID \<Rightarrow> stateless (parse_add_order_mpid data len output local_timestamp) p
         | MT_ORDER_EXECUTED \<Rightarrow> stateless (parse_order_executed data len output local_timestamp) p
         | MT_ORDER_EXECUTED_WITH_PRICE \<Rightarrow>
             stateless (parse_order_executed_with_price data len output local_timestamp) p
         | MT_ORDER_CANCEL \<Rightarrow> stateless (parse_order_cancel data len output local_timestamp) p
         | MT_ORDER_DELETE \<Rightarrow> stateless (parse_order_delete data len output local_timestamp) p
         | MT_ORDER_REPLACE \<Rightarrow> stateless (parse_order_replace data len output local_timestamp) p
         | MT_TRADE \<Rightarrow> stateless (parse_trade data len output local_timestamp) p
         | _ \<Rightarrow> Some (False, output, p))
      })"

text \<open>
  The loop of \<open>parse\<close>: \<open>remaining\<close>, \<open>offset\<close> and \<open>n\<close> (the local \<open>messages_parsed\<close>) are its
  variables.  It ends because a frame that is consumed has a length of at least three.
\<close>

function parse_loop ::
  "bytes \<Rightarrow> Timestamp \<Rightarrow> size_t \<Rightarrow> size_t \<Rightarrow> size_t \<Rightarrow> size_t \<Rightarrow> NormalizedMessage list \<Rightarrow> ItchParser \<Rightarrow>
     (size_t \<times> NormalizedMessage list \<times> ItchParser) option" where
  "parse_loop data ts max_messages remaining offset n output p =
     (if remaining \<ge> 3 \<and> n < max_messages then
        (case read_u16_be (ptr_add data (unat offset)) of
           None \<Rightarrow> None
         | Some msg_length \<Rightarrow>
             if msg_length < 3 \<or> ucast msg_length > remaining
             then Some (n, output, p\<lparr>ip_parse_errors := ip_parse_errors p + 1\<rparr>)
             else
               (let msg_data = ptr_add data (unat offset + 2);
                    msg_size = ucast msg_length - 2
                in case load output (unat n) of
                     None \<Rightarrow> None
                   | Some slot \<Rightarrow>
                       (case parse_message msg_data msg_size slot ts p of
                          None \<Rightarrow> None
                        | Some (parsed, slot, p) \<Rightarrow>
                            parse_loop data ts max_messages (remaining - ucast msg_length)
                              (offset + ucast msg_length) (if parsed then n + 1 else n)
                              (output[unat n := slot]) p)))
      else Some (n, output, p))"
  by pat_completeness auto
termination
proof (relation "measure (\<lambda>(_, _, _, remaining, _). unat remaining)", goal_cases)
  case (2 data ts max_messages remaining offset n out p len msg_data msg_size slot b y z slot' p')
  then have "3 \<le> (ucast len :: size_t)" "ucast len \<le> remaining"
    by (auto simp: word_le_nat_alt word_less_nat_alt)
  then have "unat (remaining - ucast len) < unat remaining"
    by (auto simp: word_le_nat_alt unat_sub)
  then show ?case by simp
qed simp

declare parse_loop.simps [simp del]

definition ItchParser_parse :: "ItchParser parse_fn" where
  "ItchParser_parse raw_packet output max_messages p =
     (if \<not> is_valid raw_packet \<or> max_messages = 0 then Some (0, output, p)
      else case mv_data raw_packet of
        None \<Rightarrow> None
      | Some data \<Rightarrow> do {
          (n, output, p) \<leftarrow> parse_loop data (mv_timestamp raw_packet) max_messages
             (ucast (mv_length raw_packet)) 0 0 output p;
          Some (n, output, p\<lparr>ip_messages_parsed := ip_messages_parsed p + n\<rparr>)
        })"

definition ItchParser_get_stats :: "ItchParser \<Rightarrow> Statistics \<Rightarrow> Statistics" where
  "ItchParser_get_stats p stats =
     stats\<lparr>messages_parsed := ip_messages_parsed p, parse_errors := ip_parse_errors p\<rparr>"

definition ItchParser_reset :: "ItchParser \<Rightarrow> ItchParser" where
  "ItchParser_reset p =
     p\<lparr>ip_messages_parsed := 0, ip_parse_errors := 0, ip_stock_map := Map.empty\<rparr>"

definition ItchParser_methods :: "ItchParser IParser" where
  "ItchParser_methods = \<lparr>ip_parse = ItchParser_parse, ip_name = ''ITCH-5.0'', ip_initialize = id,
     ip_reset = ItchParser_reset, ip_get_stats = ItchParser_get_stats\<rparr>"

end
