(* ===== verification/Itch_Spec.thy ===== *)
theory Itch_Spec
  imports Itch_Parser
begin

text \<open>
  The wire format the parser implements, written as a table of absolute offsets, and the reference
  parser on it: a packet is cut into frames, and each frame's message updates one output slot.  The
  lemmas show that the code of \<open>Itch_Parser\<close>, with its struct layouts, 64-bit cursors and raw
  pointers, computes exactly this.
\<close>

section \<open>Reference definitions\<close>

text \<open>The smallest body a message type is decoded from; \<open>None\<close> for types that are skipped.\<close>

fun decoded_from :: "MessageType \<Rightarrow> nat option" where
  "decoded_from MT_SYSTEM_EVENT = Some 14"
| "decoded_from MT_STOCK_DIRECTORY = Some 41"
| "decoded_from MT_ADD_ORDER = Some 38"
| "decoded_from MT_ADD_ORDER_MPID = Some 42"
| "decoded_from MT_ORDER_EXECUTED = Some 33"
| "decoded_from MT_ORDER_EXECUTED_WITH_PRICE = Some 38"
| "decoded_from MT_ORDER_CANCEL = Some 25"
| "decoded_from MT_ORDER_DELETE = Some 21"
| "decoded_from MT_ORDER_REPLACE = Some 37"
| "decoded_from MT_TRADE = Some 46"
| "decoded_from _ = None"

definition side_of :: "u8 \<Rightarrow> u8" where
  "side_of b = (if b = chr8 CHR ''B'' then 0 else 1)"

text \<open>The fields every decoded message sets.\<close>

definition decode_header ::
  "NmType \<Rightarrow> bytes \<Rightarrow> Timestamp \<Rightarrow> NormalizedMessage \<Rightarrow> NormalizedMessage" where
  "decode_header t b ts m = m\<lparr>nm_type := t, nm_instrument_id := ucast (u16_at b),
     nm_timestamp := u64_at (drop 4 b), nm_local_timestamp := ts,
     nm_sequence := ucast (u16_at (drop 2 b))\<rparr>"

fun decode :: "MessageType \<Rightarrow> bytes \<Rightarrow> Timestamp \<Rightarrow> NormalizedMessage \<Rightarrow> NormalizedMessage" where
  "decode MT_SYSTEM_EVENT b ts m = (decode_header NM_SYSTEM_EVENT b ts m)\<lparr>nm_instrument_id := 0\<rparr>"
| "decode MT_STOCK_DIRECTORY b ts m = decode_header NM_SYSTEM_EVENT b ts m"
| "decode MT_ADD_ORDER b ts m = (decode_header NM_ORDER_ADD b ts m)
     \<lparr>nm_order_id := u64_at (drop 13 b), nm_side := side_of (b ! 21),
      nm_quantity := ucast (u32_at (drop 22 b)), nm_price := ucast (u32_at (drop 34 b))\<rparr>"
| "decode MT_ADD_ORDER_MPID b ts m = (decode_header NM_ORDER_ADD b ts m)
     \<lparr>nm_order_id := u64_at (drop 13 b), nm_side := side_of (b ! 21),
      nm_quantity := ucast (u32_at (drop 22 b)), nm_price := ucast (u32_at (drop 34 b))\<rparr>"
| "decode MT_ORDER_EXECUTED b ts m = (decode_header NM_ORDER_EXECUTE b ts m)
     \<lparr>nm_order_id := u64_at (drop 13 b), nm_quantity := ucast (u32_at (drop 21 b))\<rparr>"
| "decode MT_ORDER_EXECUTED_WITH_PRICE b ts m = (decode_header NM_ORDER_EXECUTE b ts m)
     \<lparr>nm_order_id := u64_at (drop 13 b), nm_quantity := ucast (u32_at (drop 21 b)),
      nm_price := ucast (u32_at (drop 34 b))\<rparr>"
| "decode MT_ORDER_CANCEL b ts m = (decode_header NM_ORDER_MODIFY b ts m)
     \<lparr>nm_order_id := u64_at (drop 13 b), nm_quantity := ucast (u32_at (drop 21 b))\<rparr>"
| "decode MT_ORDER_DELETE b ts m = (decode_header NM_ORDER_DELETE b ts m)
     \<lparr>nm_order_id := u64_at (drop 13 b)\<rparr>"
| "decode MT_ORDER_REPLACE b ts m = (decode_header NM_ORDER_MODIFY b ts m)
     \<lparr>nm_order_id := u64_at (drop 21 b), nm_quantity := ucast (u32_at (drop 29 b)),
      nm_price := ucast (u32_at (drop 33 b))\<rparr>"
| "decode MT_TRADE b ts m = (decode_header NM_TRADE b ts m)
     \<lparr>nm_order_id := u64_at (drop 13 b), nm_side := side_of (b ! 21),
      nm_quantity := ucast (u32_at (drop 22 b)), nm_price := ucast (u32_at (drop 34 b))\<rparr>"
| "decode _ b ts m = m"

text \<open>
  What one message does: whether it is decoded, the output slot and the parser afterwards.
\<close>

definition learn_stock :: "MessageType \<Rightarrow> bytes \<Rightarrow> ItchParser \<Rightarrow> ItchParser" where
  "learn_stock t b p = (if t = MT_STOCK_DIRECTORY
     then p\<lparr>ip_stock_map := (ip_stock_map p)
       (u16_at b \<mapsto> map (\<lambda>c. char_of (unat c)) (take 8 (drop 13 b)))\<rparr> else p)"

definition count_error :: "ItchParser \<Rightarrow> ItchParser" where
  "count_error p = p\<lparr>ip_parse_errors := ip_parse_errors p + 1\<rparr>"

definition msg_effect ::
  "bytes \<Rightarrow> Timestamp \<Rightarrow> NormalizedMessage \<Rightarrow> ItchParser \<Rightarrow> bool \<times> NormalizedMessage \<times> ItchParser"
where
  "msg_effect b ts m p =
     (if length b < 13 then (False, m, count_error p)
      else let t = MessageType_of_u8 (b ! 12) in
        case decoded_from t of
          None \<Rightarrow> (False, m, p)
        | Some k \<Rightarrow> if k \<le> length b then (True, decode t b ts m, learn_stock t b p)
                   else (False, m, p))"

text \<open>A packet as frames: message bodies, possibly ended by a malformed length field.\<close>

datatype frame = Body bytes | Malformed

function frames :: "bytes \<Rightarrow> frame list" where
  "frames bs =
     (if length bs < 3 then []
      else let n = unat (u16_at bs)
           in if n < 3 \<or> length bs < n then [Malformed]
              else Body (drop 2 (take n bs)) # frames (drop n bs))"
  by pat_completeness auto
termination
  by (relation "measure length") auto

declare frames.simps [simp del]

fun ref_parse :: "Timestamp \<Rightarrow> NormalizedMessage list \<Rightarrow> frame list \<Rightarrow> ItchParser \<Rightarrow>
    NormalizedMessage list \<times> ItchParser" where
  "ref_parse ts [] fs p = ([], p)"
| "ref_parse ts (m # ms) [] p = ([], p)"
| "ref_parse ts (m # ms) (Malformed # fs) p = ([], count_error p)"
| "ref_parse ts (m # ms) (Body b # fs) p =
     (case msg_effect b ts m p of
        (True, m', p') \<Rightarrow> (case ref_parse ts ms fs p' of (ws, p'') \<Rightarrow> (m' # ws, p''))
      | (False, m', p') \<Rightarrow> ref_parse ts (m # ms) fs p')"

text \<open>What a run of the loop returns when the reference parser wrote \<open>fst r\<close>.\<close>

definition loop_result ::
  "size_t \<Rightarrow> NormalizedMessage list \<Rightarrow> NormalizedMessage list \<times> ItchParser \<Rightarrow>
     (size_t \<times> NormalizedMessage list \<times> ItchParser) option" where
  "loop_result n out r =
     Some (n + of_nat (length (fst r)),
       take (unat n) out @ fst r @ drop (unat n + length (fst r)) out, snd r)"

text \<open>Frames that yield a message, and frames that count as parse errors.\<close>

fun decodable :: "frame \<Rightarrow> bool" where
  "decodable Malformed = False"
| "decodable (Body b) = (13 \<le> length b \<and>
     (case decoded_from (MessageType_of_u8 (b ! 12)) of None \<Rightarrow> False | Some k \<Rightarrow> k \<le> length b))"

fun erroneous :: "frame \<Rightarrow> bool" where
  "erroneous Malformed = True"
| "erroneous (Body b) = (length b < 13)"

fun frame_size :: "frame \<Rightarrow> nat" where
  "frame_size Malformed = 0"
| "frame_size (Body b) = length b + 2"

section \<open>The handlers implement the table\<close>

lemma handlers_short:
  "len < 14 \<Longrightarrow> parse_system_event data len m ts = Some (False, m)"
  "len < 41 \<Longrightarrow> parse_stock_directory data len m ts p = Some (False, m, p)"
  "len < 38 \<Longrightarrow> parse_add_order data len m ts = Some (False, m)"
  "len < 42 \<Longrightarrow> parse_add_order_mpid data len m ts = Some (False, m)"
  "len < 33 \<Longrightarrow> parse_order_executed data len m ts = Some (False, m)"
  "len < 38 \<Longrightarrow> parse_order_executed_with_price data len m ts = Some (False, m)"
  "len < 25 \<Longrightarrow> parse_order_cancel data len m ts = Some (False, m)"
  "len < 21 \<Longrightarrow> parse_order_delete data len m ts = Some (False, m)"
  "len < 37 \<Longrightarrow> parse_order_replace data len m ts = Some (False, m)"
  "len < 46 \<Longrightarrow> parse_trade data len m ts = Some (False, m)"
  by (simp_all add: SIZE_defs parse_system_event_def parse_stock_directory_def parse_add_order_def
      parse_add_order_mpid_def parse_order_executed_def parse_order_executed_with_price_def
      parse_order_cancel_def parse_order_delete_def parse_order_replace_def parse_trade_def)

lemmas long_simps = layout_simps decode_header_def side_of_def Side_BUY_def word_le_nat_alt
  word_less_nat_alt drop_take ptr_add_def load_def string_from_def learn_stock_def

lemma handlers_long:
  assumes "unat len \<le> length data"
  defines "b \<equiv> take (unat len) data"
  shows
    "14 \<le> len \<Longrightarrow> parse_system_event data len m ts = Some (True, decode MT_SYSTEM_EVENT b ts m)"
    "41 \<le> len \<Longrightarrow> parse_stock_directory data len m ts p =
       Some (True, decode MT_STOCK_DIRECTORY b ts m, learn_stock MT_STOCK_DIRECTORY b p)"
    "38 \<le> len \<Longrightarrow> parse_add_order data len m ts = Some (True, decode MT_ADD_ORDER b ts m)"
    "42 \<le> len \<Longrightarrow> parse_add_order_mpid data len m ts = Some (True, decode MT_ADD_ORDER_MPID b ts m)"
    "33 \<le> len \<Longrightarrow> parse_order_executed data len m ts = Some (True, decode MT_ORDER_EXECUTED b ts m)"
    "38 \<le> len \<Longrightarrow> parse_order_executed_with_price data len m ts =
       Some (True, decode MT_ORDER_EXECUTED_WITH_PRICE b ts m)"
    "25 \<le> len \<Longrightarrow> parse_order_cancel data len m ts = Some (True, decode MT_ORDER_CANCEL b ts m)"
    "21 \<le> len \<Longrightarrow> parse_order_delete data len m ts = Some (True, decode MT_ORDER_DELETE b ts m)"
    "37 \<le> len \<Longrightarrow> parse_order_replace data len m ts = Some (True, decode MT_ORDER_REPLACE b ts m)"
    "46 \<le> len \<Longrightarrow> parse_trade data len m ts = Some (True, decode MT_TRADE b ts m)"
  using assms(1) unfolding b_def
  by (simp_all add: parse_system_event_def parse_stock_directory_def parse_add_order_def
      parse_add_order_mpid_def parse_order_executed_def parse_order_executed_with_price_def
      parse_order_cancel_def parse_order_delete_def parse_order_replace_def parse_trade_def
      long_simps)

lemma parse_message_spec:
  assumes "unat len \<le> length data"
  shows "parse_message data len m ts p = Some (msg_effect (take (unat len) data) ts m p)"
proof (cases "len < 13")
  case True
  then show ?thesis using assms
    by (simp add: parse_message_def msg_effect_def word_less_nat_alt count_error_def)
next
  case False
  then have ld: "load data 12 = Some (data ! 12)" "12 < unat len"
    using assms by (simp_all add: word_less_nat_alt load_def)
  show ?thesis
    using assms False ld handlers_short[of len] handlers_long[OF assms]
    by (cases "MessageType_of_u8 (data ! 12)")
      (auto simp: parse_message_def msg_effect_def stateless_def learn_stock_def Let_def
        word_less_nat_alt word_le_nat_alt not_less not_le)
qed

section \<open>The loop implements the reference parser\<close>

lemma msg_effect_False: "msg_effect b ts m p = (False, m', p') \<Longrightarrow> m' = m"
  by (auto simp: msg_effect_def Let_def split: if_splits option.splits)

lemma ref_parse_no_frames [simp]: "ref_parse ts ms [] p = ([], p)"
  by (cases ms) simp_all

lemma length_ref_parse: "length (fst (ref_parse ts ms fs p)) \<le> length ms"
  by (induction ts ms fs p rule: ref_parse.induct) (auto split: prod.splits bool.splits)

lemma frames_short: "length bs < 3 \<Longrightarrow> frames bs = []"
  by (subst frames.simps) simp

lemma frames_malformed:
  "3 \<le> length bs \<Longrightarrow> unat (u16_at bs) < 3 \<or> length bs < unat (u16_at bs) \<Longrightarrow> frames bs = [Malformed]"
  by (subst frames.simps) auto

lemma frames_body:
  "3 \<le> unat (u16_at bs) \<Longrightarrow> unat (u16_at bs) \<le> length bs \<Longrightarrow>
   frames bs = Body (drop 2 (take (unat (u16_at bs)) bs)) # frames (drop (unat (u16_at bs)) bs)"
  by (subst frames.simps) (auto simp: Let_def)

lemma loop_result_step:
  assumes "msg_effect b ts (out ! unat n) p = (ok, m', p')" and "n < mx"
    and "unat n < length out" "unat n < unat mx"
  shows "loop_result (if ok then n + 1 else n) (out[unat n := m'])
      (ref_parse ts (take (unat mx - unat (if ok then n + 1 else n))
         (drop (unat (if ok then n + 1 else n)) (out[unat n := m']))) fs p') =
    loop_result n out (ref_parse ts
      (out ! unat n # take (unat mx - Suc (unat n)) (drop (Suc (unat n)) out)) (Body b # fs) p)"
proof (cases ok)
  case True
  have n1: "unat (n + 1) = Suc (unat n)"
    using assms(2) unat_less_2p64[of mx] by (simp add: unat_word_ariths word_less_nat_alt)
  show ?thesis unfolding ref_parse.simps assms(1) using True assms(3)
    by (simp add: n1 loop_result_def take_Suc_conv_app_nth split: prod.splits)
next
  case False
  then have "m' = out ! unat n" using assms(1) msg_effect_False by (cases ok) auto
  moreover have "take (unat mx - unat n) (drop (unat n) out) =
      out ! unat n # take (unat mx - Suc (unat n)) (drop (Suc (unat n)) out)"
    using assms(3,4) by (simp add: Cons_nth_drop_Suc[symmetric] take_Cons')
  ultimately show ?thesis unfolding ref_parse.simps assms(1) using False by simp
qed

lemma parse_loop_stop:
  "\<not> 3 \<le> remaining \<or> \<not> n < mx \<Longrightarrow>
     parse_loop data ts mx remaining offset n out p = Some (n, out, p)"
  by (subst parse_loop.simps) auto

lemma parse_loop_malformed:
  assumes "3 \<le> remaining" "n < mx" "unat offset + 2 \<le> length data"
    and "u16_at (drop (unat offset) data) < 3 \<or> remaining < ucast (u16_at (drop (unat offset) data))"
  shows "parse_loop data ts mx remaining offset n out p = Some (n, out, count_error p)"
proof -
  have "read_u16_be (ptr_add data (unat offset)) = Some (u16_at (drop (unat offset) data))"
    using assms(3) by (simp add: ptr_add_def)
  with assms(1,2,4) show ?thesis by (subst parse_loop.simps) (simp add: count_error_def)
qed

lemma parse_loop_body:
  fixes data :: bytes and offset :: size_t
  defines "L \<equiv> u16_at (drop (unat offset) data)"
  assumes "3 \<le> remaining" "n < mx" "unat n < length out" "\<not> L < 3" "\<not> remaining < ucast L"
    and fits: "unat offset + unat L \<le> length data"
    and me: "msg_effect (take (unat L - 2) (drop (unat offset + 2) data)) ts (out ! unat n) p =
      (ok, m', p')"
  shows "parse_loop data ts mx remaining offset n out p =
    parse_loop data ts mx (remaining - ucast L) (offset + ucast L) (if ok then n + 1 else n)
      (out[unat n := m']) p'"
proof -
  have L: "3 \<le> unat L" using assms(5) by (simp add: word_less_nat_alt)
  have rd: "read_u16_be (ptr_add data (unat offset)) = Some L"
    using L fits by (simp add: ptr_add_def L_def)
  have "unat (ucast L - 2 :: size_t) = unat L - 2"
    using L by (subst unat_sub) (simp_all add: word_le_nat_alt)
  then have "parse_message (ptr_add data (unat offset + 2)) (ucast L - 2) (out ! unat n) ts p =
      Some (ok, m', p')"
    using parse_message_spec[of "ucast L - 2" "ptr_add data (unat offset + 2)"] L fits me
    by (simp add: ptr_add_def)
  then show ?thesis using assms(2-6)
    by (subst parse_loop.simps) (simp add: rd del: add_2_eq_Suc')
qed

text \<open>One round of the loop on a frame with a body, in terms of the bytes left.\<close>

lemma parse_loop_frame:
  fixes data :: bytes and remaining offset :: size_t
  defines "bs \<equiv> take (unat remaining) (drop (unat offset) data)" and "L \<equiv> u16_at (drop (unat offset) data)"
  assumes bounds: "unat offset + unat remaining \<le> length data" "unat offset + unat remaining < 2 ^ 64"
    "unat n < length out" "n < mx" and L: "3 \<le> unat L" "unat L \<le> unat remaining"
    and me: "msg_effect (drop 2 (take (unat L) bs)) ts (out ! unat n) p = (ok, m', p')"
  shows "frames bs = Body (drop 2 (take (unat L) bs)) # frames (drop (unat L) bs)"
    "unat (remaining - ucast L) = unat remaining - unat L" "unat (offset + ucast L) = unat offset + unat L"
    "take (unat (remaining - ucast L)) (drop (unat (offset + ucast L)) data) = drop (unat L) bs"
    "parse_loop data ts mx remaining offset n out p = parse_loop data ts mx (remaining - ucast L)
       (offset + ucast L) (if ok then n + 1 else n) (out[unat n := m']) p'"
proof -
  have "u16_at bs = L" using L by (simp add: bs_def L_def)
  then show "frames bs = Body (drop 2 (take (unat L) bs)) # frames (drop (unat L) bs)"
    using L bounds(1) frames_body[of bs] by (simp add: bs_def)
  show rem: "unat (remaining - ucast L) = unat remaining - unat L"
    using L by (subst unat_sub) (simp_all add: word_le_nat_alt)
  show off: "unat (offset + ucast L) = unat offset + unat L"
    using L bounds(2) by (simp add: unat_word_ariths)
  show "take (unat (remaining - ucast L)) (drop (unat (offset + ucast L)) data) = drop (unat L) bs"
    by (simp add: rem off bs_def drop_take add.commute)
  have "take (unat L - 2) (drop (unat offset + 2) data) = drop 2 (take (unat L) bs)"
    using L by (simp add: bs_def drop_take add.commute min_def)
  moreover have "3 \<le> remaining" "\<not> L < 3" "\<not> remaining < ucast L"
    using L by (simp_all add: word_le_nat_alt word_less_nat_alt)
  ultimately show "parse_loop data ts mx remaining offset n out p = parse_loop data ts mx (remaining - ucast L)
       (offset + ucast L) (if ok then n + 1 else n) (out[unat n := m']) p'"
    using me bounds L unfolding L_def by (intro parse_loop_body) simp_all
qed

lemma parse_loop_spec:
  fixes data :: bytes
  assumes "unat offset + unat remaining \<le> length data" "unat offset + unat remaining < 2 ^ 64"
    and "unat mx \<le> length out" "n \<le> mx"
  shows "parse_loop data ts mx remaining offset n out p =
    loop_result n out (ref_parse ts (take (unat mx - unat n) (drop (unat n) out))
      (frames (take (unat remaining) (drop (unat offset) data))) p)"
  using assms
proof (induction "unat remaining" arbitrary: remaining offset n out p rule: less_induct)
  case less
  let ?bs = "take (unat remaining) (drop (unat offset) data)"
  let ?slots = "take (unat mx - unat n) (drop (unat n) out)"
  let ?L = "u16_at (drop (unat offset) data)"
  have lbs: "length ?bs = unat remaining" using less.prems by simp
  consider (short) "\<not> 3 \<le> remaining" | (no_room) "\<not> n < mx" | (go) "3 \<le> remaining" "n < mx"
    by blast
  then show ?case
  proof cases
    case short
    then have "frames ?bs = []" using lbs by (intro frames_short) (simp add: word_le_nat_alt)
    with short show ?thesis by (simp add: parse_loop_stop loop_result_def)
  next
    case no_room
    then have "unat mx - unat n = 0" by (simp add: word_less_nat_alt)
    with no_room show ?thesis by (simp add: parse_loop_stop loop_result_def del: diff_is_0_eq)
  next
    case go
    have nlt: "unat n < length out" "unat n < unat mx" and r3: "3 \<le> unat remaining"
      using go less.prems by (simp_all add: word_less_nat_alt word_le_nat_alt)
    have slots: "?slots = out ! unat n # take (unat mx - Suc (unat n)) (drop (Suc (unat n)) out)"
      using nlt by (simp add: Cons_nth_drop_Suc[symmetric] take_Cons')
    have Lbs: "u16_at ?bs = ?L" using r3 by simp
    show ?thesis
    proof (cases "?L < 3 \<or> remaining < ucast ?L")
      case True
      then have "frames ?bs = [Malformed]" using lbs r3
        by (intro frames_malformed) (auto simp: word_less_nat_alt Lbs)
      with True go slots less.prems r3 show ?thesis
        by (simp add: parse_loop_malformed loop_result_def)
    next
      case False
      then have L: "3 \<le> unat ?L" "unat ?L \<le> unat remaining"
        by (auto simp: word_less_nat_alt not_less)
      obtain ok m' p' where me: "msg_effect (drop 2 (take (unat ?L) ?bs)) ts (out ! unat n) p = (ok, m', p')"
        by (metis prod_cases3)
      note fr = parse_loop_frame[OF less.prems(1,2) nlt(1) go(2) L me]
      note fr(5)
      also have "parse_loop data ts mx (remaining - ucast ?L) (offset + ucast ?L)
          (if ok then n + 1 else n) (out[unat n := m']) p' =
        loop_result (if ok then n + 1 else n) (out[unat n := m'])
          (ref_parse ts (take (unat mx - unat (if ok then n + 1 else n))
             (drop (unat (if ok then n + 1 else n)) (out[unat n := m'])))
            (frames (drop (unat ?L) ?bs)) p')"
        unfolding fr(4)[symmetric]
        by (rule less.hyps) (use less.prems L r3 go in \<open>auto simp: fr(2,3) inc_le\<close>)
      also have "\<dots> = loop_result n out (ref_parse ts ?slots (frames ?bs) p)"
        using loop_result_step[OF me go(2) nlt] by (simp only: slots fr(1))
      finally show ?thesis .
    qed
  qed
qed

lemma ItchParser_parse_spec:
  assumes "mv_data v = Some data" "unat (mv_length v) \<le> length data" "unat mx \<le> length out"
    and "ref_parse (mv_timestamp v) (take (unat mx) out) (frames (take (unat (mv_length v)) data)) p =
      (ws, p')"
  shows "ItchParser_parse v out mx p = Some (of_nat (length ws), ws @ drop (length ws) out,
    p'\<lparr>ip_messages_parsed := ip_messages_parsed p' + of_nat (length ws)\<rparr>)"
proof (cases "\<not> is_valid v \<or> mx = 0")
  case True
  then have "mv_length v = 0 \<or> mx = 0" using assms(1) by (auto simp: is_valid_def word_gt_0)
  then have "ws = []" "p' = p" using assms(4) by (auto simp: frames_short)
  with True show ?thesis by (simp add: ItchParser_parse_def)
next
  case False
  have "unat (mv_length v) < 2 ^ 64"
    using unat_less_2p64[of "ucast (mv_length v)"] by simp
  then have "parse_loop data (mv_timestamp v) mx (ucast (mv_length v)) 0 0 out p =
      loop_result 0 out (ws, p')"
    using parse_loop_spec[of 0 "ucast (mv_length v)" data mx out 0 "mv_timestamp v" p] assms
    by simp
  with False assms(1) show ?thesis by (simp add: ItchParser_parse_def loop_result_def)
qed

interpretation itch_parser: parser_contract ItchParser_parse
proof unfold_locales
  fix v and mx :: size_t and out :: "NormalizedMessage list" and p :: ItchParser
  assume v: "view_ok v" and mx: "unat mx \<le> length out"
  show "\<exists>c out' p'. ItchParser_parse v out mx p = Some (c, out', p') \<and> c \<le> mx \<and>
      length out' = length out \<and> drop (unat c) out' = drop (unat c) out"
  proof (cases "mv_data v")
    case None
    then show ?thesis by (simp add: ItchParser_parse_def is_valid_def)
  next
    case (Some data)
    let ?r = "ref_parse (mv_timestamp v) (take (unat mx) out) (frames (take (unat (mv_length v)) data)) p"
    have len: "length (fst ?r) \<le> unat mx"
      using length_ref_parse[of "mv_timestamp v" "take (unat mx) out"] mx by (metis length_take min.absorb2)
    then have "unat (of_nat (length (fst ?r)) :: size_t) = length (fst ?r)"
      using unat_less_2p64[of mx] by (simp add: unat_of_nat)
    with len mx ItchParser_parse_spec[OF Some _ mx, of p "fst ?r" "snd ?r"] v Some show ?thesis
      by (auto simp: view_ok_def word_le_nat_alt)
  qed
qed

section \<open>Counting\<close>

lemma msg_effect_fst: "fst (msg_effect b ts m p) = decodable (Body b)"
  by (auto simp: msg_effect_def Let_def split: option.splits)

lemma msg_effect_errors:
  "msg_effect b ts m p = (ok, m', p') \<Longrightarrow>
     ip_parse_errors p' = ip_parse_errors p + of_bool (erroneous (Body b)) \<and>
     ip_messages_parsed p' = ip_messages_parsed p"
  by (auto simp: msg_effect_def Let_def count_error_def learn_stock_def
      split: option.splits if_splits)

lemma ref_parse_counts:
  assumes "length fs \<le> length ms" and "Malformed \<notin> set (butlast fs)"
  shows "length (fst (ref_parse ts ms fs p)) = length (filter decodable fs)"
    "ip_parse_errors (snd (ref_parse ts ms fs p)) =
      ip_parse_errors p + of_nat (length (filter erroneous fs))"
  using assms
proof (induction ts ms fs p rule: ref_parse.induct)
  case (4 ts m ms b fs p)
  obtain ok m' p' where me: "msg_effect b ts m p = (ok, m', p')" by (metis prod_cases3)
  note eff = msg_effect_fst[of b ts m p] msg_effect_errors[OF me]
  case 1 then show ?case using 4 me eff by (cases ok) (auto split: prod.splits if_splits)
  case 2 then show ?case using 4 me eff by (cases ok) (auto split: prod.splits if_splits)
qed (auto simp: count_error_def split: if_splits)

lemma frames_malformed_last: "Malformed \<notin> set (butlast (frames bs))"
proof (induction bs rule: frames.induct)
  case (1 bs)
  then show ?case by (subst frames.simps) (auto simp: Let_def)
qed

lemma frames_size_bound: "(\<Sum>f\<leftarrow>frames bs. frame_size f) \<le> length bs"
proof (induction bs rule: frames.induct)
  case (1 bs)
  show ?case
  proof (cases "3 \<le> length bs \<and> 3 \<le> unat (u16_at bs) \<and> unat (u16_at bs) \<le> length bs")
    case True
    then have "(\<Sum>f\<leftarrow>frames (drop (unat (u16_at bs)) bs). frame_size f) \<le> length bs - unat (u16_at bs)"
      using 1 by simp
    with True show ?thesis by (auto simp: frames_body)
  next
    case False
    then show ?thesis by (subst frames.simps) (auto simp: Let_def)
  qed
qed

lemma decodable_size: "decodable f \<Longrightarrow> 16 \<le> frame_size f"
proof (cases f)
  case (Body b)
  assume "decodable f"
  with Body show ?thesis
    by (cases "MessageType_of_u8 (b ! 12)") auto
qed simp

lemma ref_parse_bytes: "16 * length (fst (ref_parse ts ms fs p)) \<le> (\<Sum>f\<leftarrow>fs. frame_size f)"
proof (induction ts ms fs p rule: ref_parse.induct)
  case (4 ts m ms b fs p)
  obtain ok m' p' where me: "msg_effect b ts m p = (ok, m', p')" by (metis prod_cases3)
  then have "ok = decodable (Body b)" using msg_effect_fst[of b ts m p] by simp
  then have "ok \<Longrightarrow> 16 \<le> length b + 2" using decodable_size[of "Body b"] by simp
  then show ?case using 4 me by (cases ok) (fastforce split: prod.splits)+
qed auto

lemma ref_parse_messages_parsed:
  "ip_messages_parsed (snd (ref_parse ts ms fs p)) = ip_messages_parsed p"
proof (induction ts ms fs p rule: ref_parse.induct)
  case (4 ts m ms b fs p)
  obtain ok m' p' where me: "msg_effect b ts m p = (ok, m', p')" by (metis prod_cases3)
  then show ?case using 4 msg_effect_errors[OF me] by (cases ok) (auto split: prod.splits)
qed (auto simp: count_error_def)

lemma unat_length_ref_parse:
  fixes mx :: size_t
  assumes "unat mx \<le> length out"
  shows "unat (of_nat (length (fst (ref_parse ts (take (unat mx) out) fs p))) :: size_t) =
    length (fst (ref_parse ts (take (unat mx) out) fs p))"
proof -
  have "length (fst (ref_parse ts (take (unat mx) out) fs p)) \<le> unat mx"
    using length_ref_parse[of ts "take (unat mx) out" fs p] assms by simp
  then show ?thesis using unat_less_2p64[of mx] by (simp add: unat_of_nat)
qed

section \<open>A concrete packet\<close>

text \<open>
  One packet holding an add order, an order executed, a message of an unsupported type and a
  truncated trade, 102 bytes in all.
\<close>

definition demo_packet :: bytes where
  "demo_packet =
    [0, 40, 0, 7, 0, 9, 0, 0, 0, 0, 0, 0, 0, 5, 65, 0, 0, 0, 0, 0, 0, 1, 0, 66, 0, 0, 0, 100,
     65, 65, 80, 76, 32, 32, 32, 32, 0, 22, 227, 96,
     0, 35, 0, 7, 0, 10, 0, 0, 0, 0, 0, 0, 0, 6, 69, 0, 0, 0, 0, 0, 0, 1, 0, 0, 0, 0, 50,
     0, 0, 0, 0, 0, 0, 0, 1,
     0, 15, 0, 7, 0, 11, 0, 0, 0, 0, 0, 0, 0, 6, 90,
     0, 12, 0, 7, 0, 12, 0, 0, 0, 0, 0, 0]"

definition demo_view :: MessageView where
  "demo_view = \<lparr>mv_data = Some demo_packet, mv_length = 102, mv_timestamp = 1000, mv_sequence = 0\<rparr>"

lemma demo_length: "length demo_packet = 102"
  by (simp add: demo_packet_def)

lemma demo_frames:
  "frames demo_packet = [Body (take 38 (drop 2 demo_packet)), Body (take 33 (drop 42 demo_packet)),
     Body (take 13 (drop 77 demo_packet)), Body (take 10 (drop 92 demo_packet))]"
  by code_simp

lemma demo_decodable: "map decodable (frames demo_packet) = [True, True, False, False]"
  "map erroneous (frames demo_packet) = [False, False, False, True]"
  by code_simp+

section \<open>Properties\<close>

lemma demo_ref_parse:
  "ref_parse 1000 [NormalizedMessage_default, NormalizedMessage_default, NormalizedMessage_default]
     (frames demo_packet) ItchParser_new =
    ([decode MT_ADD_ORDER (take 38 (drop 2 demo_packet)) 1000 NormalizedMessage_default,
      decode MT_ORDER_EXECUTED (take 33 (drop 42 demo_packet)) 1000 NormalizedMessage_default],
     count_error ItchParser_new)"
  unfolding demo_frames by code_simp

lemma demo_fields:
  "(ucast (u32_at (drop 34 (take 38 (drop 2 demo_packet)))) :: u64) = 1500000"
  "(ucast (u32_at (drop 21 (take 33 (drop 42 demo_packet)))) :: u64) = 50"
  by code_simp+

lemma replicate_3: "replicate 3 x = [x, x, x]"
  by (simp add: numeral_eq_Suc)

text \<open>
  C1: on every view that stays inside its packet and every output array with room for
  \<open>max_messages\<close> messages, \<open>ItchParser::parse\<close> returns without undefined behaviour what the
  reference parser computes from the packet's frames: the decoded messages in order, at the front of
  the output array, the rest of the array untouched, and the counters and stock map updated.
\<close>

theorem itch_parse_refines_reference:
  assumes "mv_data v = Some data" and "unat (mv_length v) \<le> length data"
    and "unat max_messages \<le> length out"
  shows "let (ws, p') = ref_parse (mv_timestamp v) (take (unat max_messages) out)
             (frames (take (unat (mv_length v)) data)) p
    in ItchParser_parse v out max_messages p =
      Some (of_nat (length ws), ws @ drop (length ws) out,
        p'\<lparr>ip_messages_parsed := ip_messages_parsed p + of_nat (length ws)\<rparr>)"
  using ItchParser_parse_spec[OF assms] ref_parse_messages_parsed
  by (auto split: prod.splits) (metis snd_conv)

theorem itch_parse_refines_reference_witness:
  "\<exists>m1 m2 p'. ItchParser_parse demo_view (replicate 3 NormalizedMessage_default) 3 ItchParser_new =
     Some (2, [m1, m2, NormalizedMessage_default], p') \<and>
     nm_type m1 = NM_ORDER_ADD \<and> nm_price m1 = 1500000 \<and> nm_type m2 = NM_ORDER_EXECUTE \<and>
     nm_quantity m2 = 50 \<and> ip_messages_parsed p' = 2 \<and> ip_parse_errors p' = 1"
  using itch_parse_refines_reference[of demo_view demo_packet 3 
      "replicate 3 NormalizedMessage_default" ItchParser_new] demo_ref_parse
  by (simp add: replicate_3 demo_view_def demo_length demo_fields decode_header_def
      ItchParser_new_def count_error_def)

text \<open>
  C20: with room for every frame, \<open>parse\<close> returns exactly the number of complete messages of the
  supported types, and \<open>parse_errors_\<close> grows by the number of frames with a bad length field or a
  body shorter than the header; truncated bodies of a known type and unsupported types are skipped
  without being counted.
\<close>

theorem itch_parse_counts:
  assumes "mv_data v = Some data" and "unat (mv_length v) \<le> length data"
    and "unat max_messages \<le> length out"
    and "length (frames (take (unat (mv_length v)) data)) \<le> unat max_messages"
  shows "\<exists>c out' p'. ItchParser_parse v out max_messages p = Some (c, out', p') \<and>
    unat c = length (filter decodable (frames (take (unat (mv_length v)) data))) \<and>
    ip_messages_parsed p' = ip_messages_parsed p + c \<and>
    ip_parse_errors p' = ip_parse_errors p +
      of_nat (length (filter erroneous (frames (take (unat (mv_length v)) data))))"
proof -
  let ?fs = "frames (take (unat (mv_length v)) data)"
  let ?r = "ref_parse (mv_timestamp v) (take (unat max_messages) out) ?fs p"
  have "length ?fs \<le> length (take (unat max_messages) out)" using assms(3,4) by simp
  note counts = ref_parse_counts[OF this frames_malformed_last, of "mv_timestamp v" p]
  show ?thesis
    using ItchParser_parse_spec[OF assms(1-3), of p "fst ?r" "snd ?r"] counts
      unat_length_ref_parse[OF assms(3), of "mv_timestamp v" ?fs p]
    by (simp add: ref_parse_messages_parsed)
qed

theorem itch_parse_counts_witness:
  "\<exists>c out' p'. ItchParser_parse demo_view (replicate 16 NormalizedMessage_default) 16 ItchParser_new =
     Some (c, out', p') \<and> unat c = 2 \<and> ip_messages_parsed p' = c \<and> ip_parse_errors p' = 1"
proof -
  have "length (frames demo_packet) = 4" by (simp add: demo_frames)
  moreover have "length (filter decodable (frames demo_packet)) = 2"
    "length (filter erroneous (frames demo_packet)) = 1" by code_simp+
  ultimately show ?thesis
    using itch_parse_counts[of demo_view demo_packet 16
        "replicate 16 NormalizedMessage_default" ItchParser_new]
    by (simp add: demo_view_def demo_length ItchParser_new_def)
qed

text \<open>
  C21: whatever the packet holds, the number of messages is at most \<open>max_messages\<close> and at most
  one per 16 bytes of the packet, the output array keeps its length and its slots from the count on
  are untouched.
\<close>

theorem itch_parse_bounds:
  assumes "view_ok v" and "unat max_messages \<le> length out"
  shows "\<exists>c out' p'. ItchParser_parse v out max_messages p = Some (c, out', p') \<and>
    c \<le> max_messages \<and> 16 * unat c \<le> unat (mv_length v) \<and> length out' = length out \<and>
    drop (unat c) out' = drop (unat c) out"
proof (cases "mv_data v")
  case None
  then show ?thesis by (simp add: ItchParser_parse_def is_valid_def)
next
  case (Some data)
  with assms(1) have len: "unat (mv_length v) \<le> length data" by (simp add: view_ok_def)
  let ?fs = "frames (take (unat (mv_length v)) data)"
  let ?r = "ref_parse (mv_timestamp v) (take (unat max_messages) out) ?fs p"
  have "16 * length (fst ?r) \<le> (\<Sum>f\<leftarrow>?fs. frame_size f)" by (rule ref_parse_bytes)
  also have "\<dots> \<le> unat (mv_length v)"
    using frames_size_bound[of "take (unat (mv_length v)) data"] len by simp
  finally have "16 * unat (of_nat (length (fst ?r)) :: size_t) \<le> unat (mv_length v)"
    by (simp only: unat_length_ref_parse[OF assms(2)])
  moreover obtain c out' p' where r: "ItchParser_parse v out max_messages p = Some (c, out', p')"
    "c \<le> max_messages \<and> length out' = length out \<and> drop (unat c) out' = drop (unat c) out"
    using itch_parser.parse_spec[OF assms, of p] by blast
  moreover have "c = of_nat (length (fst ?r))"
    using ItchParser_parse_spec[OF Some len assms(2), of p "fst ?r" "snd ?r"] r(1) by simp
  ultimately show ?thesis by simp
qed

theorem itch_parse_bounds_witness:
  "\<exists>c out' p'. ItchParser_parse demo_view (replicate 3 NormalizedMessage_default) 1 ItchParser_new =
     Some (c, out', p') \<and> c \<le> 1 \<and> 16 * unat c \<le> 102 \<and> length out' = 3 \<and>
     drop (unat c) out' = drop (unat c) (replicate 3 NormalizedMessage_default)"
  using itch_parse_bounds[of demo_view 1 "replicate 3 NormalizedMessage_default" ItchParser_new]
  by (simp add: demo_view_def view_ok_def demo_length)

end
