(* ===== verification/Itch_Generator.thy ===== *)
theory Itch_Generator
  imports Itch_Spec
begin

text \<open>
  The message generator \<open>examples/itch_generator.cpp\<close>: big-endian writers into a byte vector, the
  three message builders, \<open>build_packet\<close> and the body of the sending loop, with the random draws,
  the clock and the result of \<open>sendto\<close> as inputs.  The writers and the readers of
  \<open>Itch_Messages\<close> are interpreted as codecs, and every packet the generator sends is parsed back
  into the messages that were drawn.
\<close>

section \<open>Writers\<close>

text \<open>A \<open>uint8_t *dest\<close> into a vector is the vector and the offset of \<open>dest\<close>.\<close>

definition write_u16_be :: "bytes \<Rightarrow> nat \<Rightarrow> u16 \<Rightarrow> bytes option" where
  "write_u16_be msg dest val = do {
     msg \<leftarrow> store msg dest (ucast (drop_bit 8 val AND 0xFF));
     store msg (dest + 1) (ucast (val AND 0xFF))
   }"

definition write_u32_be :: "bytes \<Rightarrow> nat \<Rightarrow> u32 \<Rightarrow> bytes option" where
  "write_u32_be msg dest val = do {
     msg \<leftarrow> store msg dest (ucast (drop_bit 24 val AND 0xFF));
     msg \<leftarrow> store msg (dest + 1) (ucast (drop_bit 16 val AND 0xFF));
     msg \<leftarrow> store msg (dest + 2) (ucast (drop_bit 8 val AND 0xFF));
     store msg (dest + 3) (ucast (val AND 0xFF))
   }"

definition write_u48_be :: "bytes \<Rightarrow> nat \<Rightarrow> u64 \<Rightarrow> bytes option" where
  "write_u48_be msg dest val = do {
     msg \<leftarrow> store msg dest (ucast (drop_bit 40 val AND 0xFF));
     msg \<leftarrow> store msg (dest + 1) (ucast (drop_bit 32 val AND 0xFF));
     msg \<leftarrow> store msg (dest + 2) (ucast (drop_bit 24 val AND 0xFF));
     msg \<leftarrow> store msg (dest + 3) (ucast (drop_bit 16 val AND 0xFF));
     msg \<leftarrow> store msg (dest + 4) (ucast (drop_bit 8 val AND 0xFF));
     store msg (dest + 5) (ucast (val AND 0xFF))
   }"

definition write_u64_be :: "bytes \<Rightarrow> nat \<Rightarrow> u64 \<Rightarrow> bytes option" where
  "write_u64_be msg dest val = do {
     msg \<leftarrow> store msg dest (ucast (drop_bit 56 val AND 0xFF));
     msg \<leftarrow> store msg (dest + 1) (ucast (drop_bit 48 val AND 0xFF));
     msg \<leftarrow> store msg (dest + 2) (ucast (drop_bit 40 val AND 0xFF));
     msg \<leftarrow> store msg (dest + 3) (ucast (drop_bit 32 val AND 0xFF));
     msg \<leftarrow> store msg (dest + 4) (ucast (drop_bit 24 val AND 0xFF));
     msg \<leftarrow> store msg (dest + 5) (ucast (drop_bit 16 val AND 0xFF));
     msg \<leftarrow> store msg (dest + 6) (ucast (drop_bit 8 val AND 0xFF));
     store msg (dest + 7) (ucast (val AND 0xFF))
   }"

definition memcpy :: "bytes \<Rightarrow> nat \<Rightarrow> bytes \<Rightarrow> nat \<Rightarrow> bytes option" where
  "memcpy msg dest src n =
     (if dest + n \<le> length msg \<and> n \<le> length src
      then Some (take dest msg @ take n src @ drop (dest + n) msg) else None)"

text \<open>The bytes a writer leaves, as encoders.\<close>

definition enc_u16 :: "u16 \<Rightarrow> bytes" where "enc_u16 v = the (write_u16_be [0, 0] 0 v)"
definition enc_u32 :: "u32 \<Rightarrow> bytes" where "enc_u32 v = the (write_u32_be [0, 0, 0, 0] 0 v)"
definition enc_u48 :: "u64 \<Rightarrow> bytes" where
  "enc_u48 v = the (write_u48_be [0, 0, 0, 0, 0, 0] 0 v)"
definition enc_u64 :: "u64 \<Rightarrow> bytes" where
  "enc_u64 v = the (write_u64_be [0, 0, 0, 0, 0, 0, 0, 0] 0 v)"

lemma enc_bytes:
  "enc_u16 v = [ucast (drop_bit 8 v AND 0xFF), ucast (v AND 0xFF)]"
  "enc_u32 w = [ucast (drop_bit 24 w AND 0xFF), ucast (drop_bit 16 w AND 0xFF),
     ucast (drop_bit 8 w AND 0xFF), ucast (w AND 0xFF)]"
  "enc_u48 x = [ucast (drop_bit 40 x AND 0xFF), ucast (drop_bit 32 x AND 0xFF),
     ucast (drop_bit 24 x AND 0xFF), ucast (drop_bit 16 x AND 0xFF),
     ucast (drop_bit 8 x AND 0xFF), ucast (x AND 0xFF)]"
  "enc_u64 x = [ucast (drop_bit 56 x AND 0xFF), ucast (drop_bit 48 x AND 0xFF),
     ucast (drop_bit 40 x AND 0xFF), ucast (drop_bit 32 x AND 0xFF),
     ucast (drop_bit 24 x AND 0xFF), ucast (drop_bit 16 x AND 0xFF),
     ucast (drop_bit 8 x AND 0xFF), ucast (x AND 0xFF)]"
  by (simp_all add: enc_u16_def enc_u32_def enc_u48_def enc_u64_def write_u16_be_def
      write_u32_be_def write_u48_be_def write_u64_be_def)

lemma length_encs [simp]:
  "length (enc_u16 v) = 2" "length (enc_u32 w) = 4" "length (enc_u48 x) = 6" "length (enc_u64 x) = 8"
  by (simp_all add: enc_bytes)

text \<open>One byte of a word, cut out and put back.\<close>

lemma byte_mask: "(ucast (x AND 0xFF :: 'a::len word) :: u8) = ucast x"
proof -
  have "x AND 0xFF = take_bit 8 x" by (simp add: take_bit_eq_mask mask_eq_exp_minus_1)
  then show ?thesis by (auto intro!: bit_word_eqI simp: bit_simps dest: bit_imp_le_length)
qed

lemma byte_low: "(ucast (ucast (x :: 'a::len word) :: u8) :: 'a word) = take_bit 8 x"
  by (rule bit_word_eqI) (auto simp: bit_simps dest: bit_imp_le_length)

lemma byte_join:
  fixes x :: "'a::len word"
  shows "push_bit k (ucast (ucast (drop_bit k x) :: u8)) OR take_bit k x = take_bit (k + 8) x"
  by (rule bit_word_eqI) (auto simp: bit_simps dest: bit_imp_le_length)

lemma byte_above:
  fixes r :: "'a::len word"
  assumes "k + 8 \<le> j"
  shows "(ucast (drop_bit k (push_bit j y OR r)) :: u8) = ucast (drop_bit k r)"
  using assms by (auto intro!: bit_word_eqI simp: bit_simps)

lemma byte_here:
  fixes r :: "'a::len word" and b :: u8
  assumes "drop_bit k r = 0" "k + 8 \<le> LENGTH('a)"
  shows "(ucast (drop_bit k (push_bit k (ucast b) OR r)) :: u8) = b"
proof (rule bit_word_eqI)
  fix n assume n: "n < LENGTH(8)"
  have "\<not> bit r (k + n)" using assms(1) by (metis bit_0_eq bit_drop_bit_eq bot_apply bot_bool_def comp_apply)
  then show "bit (ucast (drop_bit k (push_bit k (ucast b) OR r)) :: u8) n = bit b n"
    using n assms(2) by (auto simp: bit_simps)
qed

lemma byte_below:
  fixes r :: "'a::len word" and b :: u8
  assumes "j + 8 \<le> k" "drop_bit k r = 0"
  shows "drop_bit k (push_bit j (ucast b) OR r) = 0"
proof -
  have "drop_bit k (push_bit j (ucast b) :: 'a word) = 0"
    using assms(1) by (intro bit_word_eqI) (auto simp: bit_simps dest: bit_imp_le_length)
  then show ?thesis using assms(2) by (simp add: drop_bit_or)
qed

lemma byte_below_last: "8 \<le> k \<Longrightarrow> drop_bit k (ucast (b :: u8) :: 'a::len word) = 0"
  using byte_below[of 0 k 0 b] by simp

lemma byte_last: "8 \<le> LENGTH('a) \<Longrightarrow> (ucast (ucast (b :: u8) :: 'a::len word) :: u8) = b"
  by (auto intro!: bit_word_eqI simp: bit_simps)

lemmas byte_above_0 = byte_above[of 0, simplified]

lemma take_bit_all: "LENGTH('a) \<le> k \<Longrightarrow> take_bit k (x :: 'a::len word) = x"
  by (rule bit_word_eqI) (auto simp: bit_simps)

lemma read_enc_u16: "read_u16_be (enc_u16 v @ rest) = Some v"
  using byte_join[of 8 v] by (simp add: read_u16_be_def enc_bytes byte_mask byte_low take_bit_all)

lemma read_enc_u32: "read_u32_be (enc_u32 v @ rest) = Some v"
  using byte_join[of 8 v] byte_join[of 16 v] byte_join[of 24 v]
  by (simp add: read_u32_be_def enc_bytes byte_mask byte_low take_bit_all)

lemma read_enc_u64: "read_u64_be (enc_u64 v @ rest) = Some v"
  using byte_join[of 8 v] byte_join[of 16 v] byte_join[of 24 v] byte_join[of 32 v]
    byte_join[of 40 v] byte_join[of 48 v] byte_join[of 56 v]
  by (simp add: read_u64_be_def enc_bytes byte_mask byte_low take_bit_all)

text \<open>A 48-bit write keeps the low 48 bits.\<close>

lemma read_enc_u48: "read_u64_be (0 # 0 # enc_u48 v @ rest) = Some (take_bit 48 v)"
  using byte_join[of 8 v] byte_join[of 16 v] byte_join[of 24 v] byte_join[of 32 v]
    byte_join[of 40 v]
  by (simp add: read_u64_be_def enc_bytes byte_mask byte_low take_bit_all)

lemmas byte_simps = byte_mask byte_above byte_above_0 byte_here byte_below byte_below_last byte_last

lemma take_loads:
  "2 \<le> length bs \<Longrightarrow> take 2 bs = [bs ! 0, bs ! 1]"
  "4 \<le> length bs \<Longrightarrow> take 4 bs = [bs ! 0, bs ! 1, bs ! 2, bs ! 3]"
  "8 \<le> length bs \<Longrightarrow> take 8 bs = [bs ! 0, bs ! 1, bs ! 2, bs ! 3, bs ! 4, bs ! 5, bs ! 6, bs ! 7]"
  by (auto simp: numeral_eq_Suc Suc_le_length_iff)

lemma read_SomeD:
  "read_u16_be bs = Some v \<Longrightarrow> 2 \<le> length bs \<and> bs \<noteq> []"
  "read_u32_be bs = Some w \<Longrightarrow> 4 \<le> length bs \<and> bs \<noteq> []"
  "read_u64_be bs = Some x \<Longrightarrow> 8 \<le> length bs \<and> bs \<noteq> []"
  using read_None_iff(1-3)[of bs] by fastforce+

lemma enc_read_u16:
  assumes "read_u16_be bs = Some v"
  shows "enc_u16 v = take 2 bs"
  using assms conjunct1[OF read_SomeD(1)[OF assms]] conjunct2[OF read_SomeD(1)[OF assms]]
  by (auto simp: read_u16_be_def load_def enc_bytes take_loads byte_simps simp del: drop_bit_or)

lemma enc_read_u32:
  assumes "read_u32_be bs = Some v"
  shows "enc_u32 v = take 4 bs"
  using assms conjunct1[OF read_SomeD(2)[OF assms]] conjunct2[OF read_SomeD(2)[OF assms]]
  by (auto simp: read_u32_be_def load_def enc_bytes take_loads byte_simps simp del: drop_bit_or)

lemma enc_read_u64:
  assumes "read_u64_be bs = Some v"
  shows "enc_u64 v = take 8 bs"
  using assms conjunct1[OF read_SomeD(3)[OF assms]] conjunct2[OF read_SomeD(3)[OF assms]]
  by (auto simp: read_u64_be_def load_def enc_bytes take_loads byte_simps simp del: drop_bit_or)

interpretation u16_codec: be_codec read_u16_be enc_u16 2
  by unfold_locales (simp_all add: read_enc_u16 read_None_iff enc_read_u16)

interpretation u32_codec: be_codec read_u32_be enc_u32 4
  by unfold_locales (simp_all add: read_enc_u32 read_None_iff enc_read_u32)

interpretation u64_codec: be_codec read_u64_be enc_u64 8
  by unfold_locales (simp_all add: read_enc_u64 read_None_iff enc_read_u64)

lemma at_enc [codec_simps]:
  "u16_at (enc_u16 v @ rest) = v" "u32_at (enc_u32 w @ rest) = w" "u64_at (enc_u64 x @ rest) = x"
  "u16_at (enc_u16 v) = v" "u32_at (enc_u32 w) = w" "u64_at (enc_u64 x) = x"
  by (simp_all add: u16_at_def u32_at_def u64_at_def u16_codec.rd_enc u32_codec.rd_enc
      u64_codec.rd_enc u16_codec.rd_enc_alone u32_codec.rd_enc_alone u64_codec.rd_enc_alone)

section \<open>Builders\<close>

definition ADD_ORDER_SIZE :: nat where "ADD_ORDER_SIZE = 38"
definition ORDER_EXECUTED_SIZE :: nat where "ORDER_EXECUTED_SIZE = 33"
definition TRADE_SIZE :: nat where "TRADE_SIZE = 46"

definition build_add_order ::
  "u16 \<Rightarrow> u16 \<Rightarrow> u64 \<Rightarrow> u64 \<Rightarrow> u8 \<Rightarrow> u32 \<Rightarrow> bytes \<Rightarrow> u32 \<Rightarrow> bytes option" where
  "build_add_order stock_locate tracking timestamp order_ref side shares stock price = do {
     let msg = replicate ADD_ORDER_SIZE 0;
     msg \<leftarrow> write_u16_be msg 0 stock_locate;
     msg \<leftarrow> write_u16_be msg 2 tracking;
     msg \<leftarrow> write_u64_be msg 4 timestamp;
     msg \<leftarrow> store msg 12 (chr8 CHR ''A'');
     msg \<leftarrow> write_u64_be msg 13 order_ref;
     msg \<leftarrow> store msg 21 side;
     msg \<leftarrow> write_u32_be msg 22 shares;
     msg \<leftarrow> memcpy msg 26 stock 8;
     write_u32_be msg 34 price
   }"

definition build_order_executed ::
  "u16 \<Rightarrow> u16 \<Rightarrow> u64 \<Rightarrow> u64 \<Rightarrow> u32 \<Rightarrow> u64 \<Rightarrow> bytes option" where
  "build_order_executed stock_locate tracking timestamp order_ref shares match_number = do {
     let msg = replicate ORDER_EXECUTED_SIZE 0;
     msg \<leftarrow> write_u16_be msg 0 stock_locate;
     msg \<leftarrow> write_u16_be msg 2 tracking;
     msg \<leftarrow> write_u64_be msg 4 timestamp;
     msg \<leftarrow> store msg 12 (chr8 CHR ''E'');
     msg \<leftarrow> write_u64_be msg 13 order_ref;
     msg \<leftarrow> write_u32_be msg 21 shares;
     write_u64_be msg 25 match_number
   }"

definition build_trade ::
  "u16 \<Rightarrow> u16 \<Rightarrow> u64 \<Rightarrow> u64 \<Rightarrow> u8 \<Rightarrow> u32 \<Rightarrow> bytes \<Rightarrow> u32 \<Rightarrow> u64 \<Rightarrow> bytes option" where
  "build_trade stock_locate tracking timestamp order_ref side shares stock price match_number = do {
     let msg = replicate TRADE_SIZE 0;
     msg \<leftarrow> write_u16_be msg 0 stock_locate;
     msg \<leftarrow> write_u16_be msg 2 tracking;
     msg \<leftarrow> write_u64_be msg 4 timestamp;
     msg \<leftarrow> store msg 12 (chr8 CHR ''P'');
     msg \<leftarrow> write_u64_be msg 13 order_ref;
     msg \<leftarrow> store msg 21 side;
     msg \<leftarrow> write_u32_be msg 22 shares;
     msg \<leftarrow> memcpy msg 26 stock 8;
     msg \<leftarrow> write_u32_be msg 34 price;
     write_u64_be msg 38 match_number
   }"

text \<open>\<open>uint16_t length = msg.size() + 2\<close> wraps at 16 bits.\<close>

fun build_packet_onto :: "bytes \<Rightarrow> bytes list \<Rightarrow> bytes" where
  "build_packet_onto packet [] = packet"
| "build_packet_onto packet (msg # messages) =
     (let length_field = of_nat (length msg + 2) :: u16;
          packet = packet @ [ucast (drop_bit 8 length_field AND 0xFF)];
          packet = packet @ [ucast (length_field AND 0xFF)]
      in build_packet_onto (packet @ msg) messages)"

definition build_packet :: "bytes list \<Rightarrow> bytes" where
  "build_packet messages = build_packet_onto [] messages"

lemma store_slice [codec_simps]:
  "d < length m \<Longrightarrow> store m d x = Some (take d m @ x # drop (d + 1) m)"
  by (simp add: store_def upd_conv_take_nth_drop)

lemma write_Some [codec_simps]:
  "d + 2 \<le> length m \<Longrightarrow> write_u16_be m d v = Some (take d m @ enc_u16 v @ drop (d + 2) m)"
  "d + 4 \<le> length m \<Longrightarrow> write_u32_be m d w = Some (take d m @ enc_u32 w @ drop (d + 4) m)"
  "d + 6 \<le> length m \<Longrightarrow> write_u48_be m d x = Some (take d m @ enc_u48 x @ drop (d + 6) m)"
  "d + 8 \<le> length m \<Longrightarrow> write_u64_be m d x = Some (take d m @ enc_u64 x @ drop (d + 8) m)"
  by (simp_all add: write_u16_be_def write_u32_be_def write_u48_be_def write_u64_be_def enc_bytes
      store_slice min_def eval_nat_numeral del: store_Some)

lemma write_None_iff:
  "write_u16_be m d v = None \<longleftrightarrow> length m < d + 2"
  "write_u32_be m d w = None \<longleftrightarrow> length m < d + 4"
  "write_u64_be m d x = None \<longleftrightarrow> length m < d + 8"
  by (auto simp: write_u16_be_def write_u32_be_def write_u64_be_def store_def split: if_splits)

lemma memcpy_Some [codec_simps]:
  "d + n \<le> length m \<Longrightarrow> n \<le> length src \<Longrightarrow>
   memcpy m d src n = Some (take d m @ take n src @ drop (d + n) m)"
  by (simp add: memcpy_def)

text \<open>The bytes of the built messages.\<close>

lemma build_add_order_bytes:
  assumes "8 \<le> length stock"
  shows "build_add_order sl tr ts ref side shares stock price =
    Some (enc_u16 sl @ enc_u16 tr @ enc_u64 ts @ [chr8 CHR ''A''] @ enc_u64 ref @ [side] @
      enc_u32 shares @ take 8 stock @ enc_u32 price)"
  using assms by (simp add: build_add_order_def ADD_ORDER_SIZE_def codec_simps del: store_Some)

lemma build_order_executed_bytes:
  "build_order_executed sl tr ts ref shares mn =
    Some (enc_u16 sl @ enc_u16 tr @ enc_u64 ts @ [chr8 CHR ''E''] @ enc_u64 ref @
      enc_u32 shares @ enc_u64 mn)"
  by (simp add: build_order_executed_def ORDER_EXECUTED_SIZE_def codec_simps del: store_Some)

lemma build_trade_bytes:
  assumes "8 \<le> length stock"
  shows "build_trade sl tr ts ref side shares stock price mn =
    Some (enc_u16 sl @ enc_u16 tr @ enc_u64 ts @ [chr8 CHR ''P''] @ enc_u64 ref @ [side] @
      enc_u32 shares @ take 8 stock @ enc_u32 price @ enc_u64 mn)"
  using assms by (simp add: build_trade_def TRADE_SIZE_def codec_simps del: store_Some)

lemma build_packet_onto_append:
  "build_packet_onto packet messages =
     packet @ concat (map (\<lambda>m. enc_u16 (of_nat (length m + 2)) @ m) messages)"
  by (induction packet messages rule: build_packet_onto.induct) (simp_all add: enc_bytes Let_def)

lemma build_packet_Cons:
  "build_packet (m # ms) = enc_u16 (of_nat (length m + 2)) @ m @ build_packet ms"
  by (simp add: build_packet_def build_packet_onto_append)

lemma frames_build_packet:
  assumes "\<forall>m\<in>set messages. 1 \<le> length m \<and> length m + 2 < 2 ^ 16"
  shows "frames (build_packet messages) = map Body messages"
  using assms
proof (induction messages)
  case Nil
  then show ?case by (simp add: build_packet_def frames_short)
next
  case (Cons m ms)
  let ?bs = "build_packet (m # ms)"
  have L: "unat (u16_at ?bs) = length m + 2"
    using Cons.prems by (simp add: build_packet_Cons at_enc unat_of_nat del: of_nat_add of_nat_Suc)
  then have "frames ?bs = Body (drop 2 (take (length m + 2) ?bs)) # frames (drop (length m + 2) ?bs)"
    using Cons.prems frames_body[of ?bs] by (simp add: build_packet_Cons)
  then show ?case using Cons by (simp add: build_packet_Cons)
qed

section \<open>The sending loop\<close>

definition STOCKS :: "bytes list" where
  "STOCKS = map (map of_char)
     [''AAPL    '', ''MSFT    '', ''GOOGL   '', ''AMZN    '', ''TSLA    '',
      ''NVDA    '', ''META    '', ''NFLX    '', ''AMD     '', ''INTC    '']"

definition NUM_STOCKS :: int where "NUM_STOCKS = 10"

record Generator =
  gen_sequence :: u64
  gen_order_id_counter :: u64
  gen_match_number_counter :: u64
  gen_packets_sent :: u64

definition Generator_init :: Generator where
  "Generator_init = \<lparr>gen_sequence = 0, gen_order_id_counter = 1000000,
     gen_match_number_counter = 1, gen_packets_sent = 0\<rparr>"

text \<open>What one iteration of the inner loop draws from the five distributions.\<close>

record Draw =
  dr_stock_idx :: int
  dr_side :: int
  dr_shares :: int
  dr_price :: int
  dr_msg_type :: int

text \<open>The ranges the distributions are constructed with.\<close>

definition draw_ok :: "Draw \<Rightarrow> bool" where
  "draw_ok d \<longleftrightarrow> 0 \<le> dr_stock_idx d \<and> dr_stock_idx d \<le> NUM_STOCKS - 1 \<and>
     0 \<le> dr_side d \<and> dr_side d \<le> 1 \<and> 100 \<le> dr_shares d \<and> dr_shares d \<le> 10000 \<and>
     500000 \<le> dr_price d \<and> dr_price d \<le> 5000000 \<and> 0 \<le> dr_msg_type d \<and> dr_msg_type d \<le> 2"

definition gen_message :: "u64 \<Rightarrow> Draw \<Rightarrow> Generator \<Rightarrow> (bytes \<times> Generator) option" where
  "gen_message timestamp d g = do {
     let stock_locate = (word_of_int (dr_stock_idx d) :: u16);
     stock \<leftarrow> (if dr_stock_idx d < 0 then None else load STOCKS (nat (dr_stock_idx d)));
     let side = (if dr_side d \<noteq> 0 then chr8 CHR ''B'' else chr8 CHR ''S'');
     let shares = (word_of_int (dr_shares d) :: u32);
     let price = (word_of_int (dr_price d) :: u32);
     let tracking = (ucast (gen_sequence g) :: u16);
     let g1 = g\<lparr>gen_sequence := gen_sequence g + 1\<rparr>;
     if dr_msg_type d = 0 then do {
       msg \<leftarrow> build_add_order stock_locate tracking timestamp (gen_order_id_counter g)
         side shares stock price;
       Some (msg, g1\<lparr>gen_order_id_counter := gen_order_id_counter g + 1\<rparr>)
     } else if dr_msg_type d = 1 then do {
       msg \<leftarrow> build_order_executed stock_locate tracking timestamp
         (gen_order_id_counter g - 1000) (shares div 2) (gen_match_number_counter g);
       Some (msg, g1\<lparr>gen_match_number_counter := gen_match_number_counter g + 1\<rparr>)
     } else do {
       msg \<leftarrow> build_trade stock_locate tracking timestamp (gen_order_id_counter g)
         side shares stock price (gen_match_number_counter g);
       Some (msg, g1\<lparr>gen_order_id_counter := gen_order_id_counter g + 1,
         gen_match_number_counter := gen_match_number_counter g + 1\<rparr>)
     }
   }"

text \<open>\<open>for (int i = 0; i < msgs_per_packet; i++)\<close>, one draw per iteration.\<close>

fun gen_messages :: "u64 \<Rightarrow> Draw list \<Rightarrow> Generator \<Rightarrow> (bytes list \<times> Generator) option" where
  "gen_messages timestamp [] g = Some ([], g)"
| "gen_messages timestamp (d # ds) g = do {
     (msg, g) \<leftarrow> gen_message timestamp d g;
     (messages, g) \<leftarrow> gen_messages timestamp ds g;
     Some (msg # messages, g)
   }"

text \<open>
  One iteration of \<open>while (true)\<close>: the packet handed to \<open>sendto\<close>, the state afterwards, and
  whether the loop goes on (\<open>sent < 0\<close> breaks it).
\<close>

definition gen_iteration ::
  "u64 \<Rightarrow> Draw list \<Rightarrow> (bytes \<Rightarrow> int) \<Rightarrow> Generator \<Rightarrow> (bytes \<times> bool \<times> Generator) option" where
  "gen_iteration nanos draws sendto g = do {
     let timestamp = nanos mod (24 * 60 * 60 * 1000000000);
     (messages, g) \<leftarrow> gen_messages timestamp draws g;
     let packet = build_packet messages;
     let sent = sendto packet;
     if sent < 0 then Some (packet, False, g)
     else Some (packet, True, g\<lparr>gen_packets_sent := gen_packets_sent g + 1\<rparr>)
   }"

section \<open>What a packet decodes to\<close>

text \<open>The normalized message one draw stands for, and the generator's counters after it.\<close>

definition drawn_side :: "Draw \<Rightarrow> u8" where
  "drawn_side d = (if dr_side d \<noteq> 0 then 0 else 1)"

definition drawn_message ::
  "u64 \<Rightarrow> Timestamp \<Rightarrow> Draw \<Rightarrow> Generator \<Rightarrow> NormalizedMessage \<Rightarrow> NormalizedMessage" where
  "drawn_message ts rx d g slot =
     (let m = slot\<lparr>nm_instrument_id := word_of_int (dr_stock_idx d), nm_timestamp := ts,
        nm_local_timestamp := rx, nm_sequence := ucast (ucast (gen_sequence g) :: u16)\<rparr>
      in if dr_msg_type d = 1
         then m\<lparr>nm_type := NM_ORDER_EXECUTE, nm_order_id := gen_order_id_counter g - 1000,
           nm_quantity := word_of_int (dr_shares d) div 2\<rparr>
         else m\<lparr>nm_type := (if dr_msg_type d = 0 then NM_ORDER_ADD else NM_TRADE),
           nm_order_id := gen_order_id_counter g, nm_side := drawn_side d,
           nm_quantity := word_of_int (dr_shares d), nm_price := word_of_int (dr_price d)\<rparr>)"

definition drawn_state :: "Draw \<Rightarrow> Generator \<Rightarrow> Generator" where
  "drawn_state d g = g\<lparr>gen_sequence := gen_sequence g + 1,
     gen_order_id_counter := gen_order_id_counter g + of_bool (dr_msg_type d \<noteq> 1),
     gen_match_number_counter := gen_match_number_counter g + of_bool (dr_msg_type d \<noteq> 0)\<rparr>"

fun drawn_messages ::
  "u64 \<Rightarrow> Timestamp \<Rightarrow> Draw list \<Rightarrow> Generator \<Rightarrow> NormalizedMessage list \<Rightarrow> NormalizedMessage list" where
  "drawn_messages ts rx (d # ds) g (slot # slots) =
     drawn_message ts rx d g slot # drawn_messages ts rx ds (drawn_state d g) slots"
| "drawn_messages ts rx _ g _ = []"

lemma STOCKS_entry: "0 \<le> i \<Longrightarrow> i \<le> NUM_STOCKS - 1 \<Longrightarrow>
  \<exists>stock. load STOCKS (nat i) = Some stock \<and> length stock = 8"
proof -
  assume "0 \<le> i" "i \<le> NUM_STOCKS - 1"
  then have "nat i < length STOCKS" by (simp add: STOCKS_def NUM_STOCKS_def)
  moreover have "list_all (\<lambda>s. length s = 8) STOCKS" by (simp add: STOCKS_def)
  ultimately show ?thesis by (auto simp: list_all_length)
qed

lemma ucast_small_int:
  "0 \<le> i \<Longrightarrow> i < 2 ^ 16 \<Longrightarrow> (ucast (word_of_int i :: u16) :: u64) = word_of_int i"
  "0 \<le> j \<Longrightarrow> j < 2 ^ 32 \<Longrightarrow> (ucast (word_of_int j :: u32) :: u64) = word_of_int j"
  by (simp_all add: unsigned_of_int take_bit_int_eq_self)

lemma ucast_half: "0 \<le> j \<Longrightarrow> j < 2 ^ 32 \<Longrightarrow>
  (ucast (word_of_int j div 2 :: u32) :: u64) = word_of_int j div 2"
  by (simp add: word_unat_eq_iff unat_div_distrib flip: ucast_small_int(2))

lemma drawn_types:
  "MessageType_of_u8 (chr8 CHR ''A'') = MT_ADD_ORDER"
  "MessageType_of_u8 (chr8 CHR ''E'') = MT_ORDER_EXECUTED"
  "MessageType_of_u8 (chr8 CHR ''P'') = MT_TRADE"
  by code_simp+

lemmas built_simps = draw_ok_def gen_message_def drawn_state_def drawn_message_def drawn_side_def
  msg_effect_def learn_stock_def decode_header_def side_of_def nth_append drawn_types[simplified] at_enc

lemma gen_message_spec:
  assumes "draw_ok d"
  obtains msg where "gen_message ts d g = Some (msg, drawn_state d g)"
    "33 \<le> length msg" "length msg \<le> 46"
    "\<And>slot p. msg_effect msg rx slot p = (True, drawn_message ts rx d g slot, p)"
proof -
  obtain stock where st: "load STOCKS (nat (dr_stock_idx d)) = Some stock" "length stock = 8"
    using assms STOCKS_entry by (auto simp: draw_ok_def)
  have small: "(ucast (word_of_int (dr_stock_idx d) :: u16) :: u64) = word_of_int (dr_stock_idx d)"
    "(ucast (word_of_int (dr_shares d) :: u32) :: u64) = word_of_int (dr_shares d)"
    "(ucast (word_of_int (dr_price d) :: u32) :: u64) = word_of_int (dr_price d)"
    "(ucast (word_of_int (dr_shares d) div 2 :: u32) :: u64) = word_of_int (dr_shares d) div 2"
    using assms by (simp_all add: draw_ok_def NUM_STOCKS_def ucast_small_int ucast_half)
  have eff: "\<exists>msg. gen_message ts d g = Some (msg, drawn_state d g) \<and> 33 \<le> length msg \<and>
      length msg \<le> 46 \<and> (\<forall>slot p. msg_effect msg rx slot p = (True, drawn_message ts rx d g slot, p))"
  proof -
    consider (add) "dr_msg_type d = 0" | (exec) "dr_msg_type d = 1" | (trade) "dr_msg_type d = 2"
      using assms unfolding draw_ok_def by linarith
    then show ?thesis
    proof cases
      case add
      then show ?thesis using assms st small
        by (simp add: built_simps build_add_order_bytes)
    next
      case exec
      then show ?thesis using assms st small
        by (simp add: built_simps build_order_executed_bytes)
    next
      case trade
      then show ?thesis using assms st small
        by (simp add: built_simps build_trade_bytes)
    qed
  qed
  then show ?thesis using that by blast
qed

lemma gen_messages_spec:
  assumes "\<forall>d\<in>set ds. draw_ok d"
  obtains msgs where "gen_messages ts ds g = Some (msgs, foldl (\<lambda>g d. drawn_state d g) g ds)"
    "length msgs = length ds" "\<forall>m\<in>set msgs. 33 \<le> length m \<and> length m \<le> 46"
    "\<And>slots p. length ds \<le> length slots \<Longrightarrow>
       ref_parse rx slots (map Body msgs) p = (drawn_messages ts rx ds g slots, p)"
proof -
  have "\<exists>msgs. gen_messages ts ds g = Some (msgs, foldl (\<lambda>g d. drawn_state d g) g ds) \<and>
      length msgs = length ds \<and> (\<forall>m\<in>set msgs. 33 \<le> length m \<and> length m \<le> 46) \<and>
      (\<forall>slots p. length ds \<le> length slots \<longrightarrow>
        ref_parse rx slots (map Body msgs) p = (drawn_messages ts rx ds g slots, p))"
    using assms
  proof (induction ds arbitrary: g)
    case (Cons d ds)
    obtain msg where msg: "gen_message ts d g = Some (msg, drawn_state d g)"
      "33 \<le> length msg" "length msg \<le> 46"
      "\<And>slot p. msg_effect msg rx slot p = (True, drawn_message ts rx d g slot, p)"
      using gen_message_spec Cons.prems by (metis list.set_intros(1))
    obtain msgs where "gen_messages ts ds (drawn_state d g) =
        Some (msgs, foldl (\<lambda>g d. drawn_state d g) (drawn_state d g) ds)"
      "length msgs = length ds" "\<forall>m\<in>set msgs. 33 \<le> length m \<and> length m \<le> 46"
      "\<forall>slots p. length ds \<le> length slots \<longrightarrow> ref_parse rx slots (map Body msgs) p =
        (drawn_messages ts rx ds (drawn_state d g) slots, p)"
      using Cons.IH[of "drawn_state d g"] Cons.prems by auto
    with msg show ?case by (intro exI[of _ "msg # msgs"]) (auto simp: Suc_le_length_iff)
  qed simp
  then show ?thesis using that by blast
qed

lemma length_build_packet: "length (build_packet ms) = (\<Sum>m\<leftarrow>ms. length m + 2)"
  by (induction ms) (simp_all add: build_packet_Cons, simp add: build_packet_def)

lemma length_drawn_messages: "length ds \<le> length slots \<Longrightarrow>
  length (drawn_messages ts rx ds g slots) = length ds"
  by (induction ts rx ds g slots rule: drawn_messages.induct) auto

lemma sum_list_bounded: "\<forall>m\<in>set ms. f m \<le> (k::nat) \<Longrightarrow> (\<Sum>m\<leftarrow>ms. f m) \<le> k * length ms"
  by (induction ms) auto

lemma drawn_states:
  "gen_sequence (foldl (\<lambda>g d. drawn_state d g) g ds) = gen_sequence g + of_nat (length ds)"
  "gen_packets_sent (foldl (\<lambda>g d. drawn_state d g) g ds) = gen_packets_sent g"
  by (induction ds arbitrary: g) (simp_all add: drawn_state_def)

lemma gen_iteration_spec:
  assumes "\<forall>d\<in>set draws. draw_ok d" and "\<forall>pk. 0 \<le> sendto pk"
  obtains packet g' where "gen_iteration nanos draws sendto g = Some (packet, True, g')"
    "length packet \<le> 48 * length draws" "draws \<noteq> [] \<Longrightarrow> packet \<noteq> []"
    "gen_packets_sent g' = gen_packets_sent g + 1"
    "gen_sequence g' = gen_sequence g + of_nat (length draws)"
    "g' = (foldl (\<lambda>g d. drawn_state d g) g draws)\<lparr>gen_packets_sent := gen_packets_sent g + 1\<rparr>"
    "\<And>slots p. length draws \<le> length slots \<Longrightarrow> ref_parse rx slots (frames packet) p =
       (drawn_messages (nanos mod 86400000000000) rx draws g slots, p)"
proof -
  let ?ts = "nanos mod 86400000000000"
  obtain msgs where m: "gen_messages ?ts draws g = Some (msgs, foldl (\<lambda>g d. drawn_state d g) g draws)"
    "length msgs = length draws" "\<forall>m\<in>set msgs. 33 \<le> length m \<and> length m \<le> 46"
    and rp: "\<And>slots p. length draws \<le> length slots \<Longrightarrow>
      ref_parse rx slots (map Body msgs) p = (drawn_messages ?ts rx draws g slots, p)"
    using gen_messages_spec[OF assms(1), of ?ts g rx] by blast
  let ?packet = "build_packet msgs"
  have len: "length ?packet \<le> 48 * length draws"
    using sum_list_bounded[of msgs "\<lambda>m. length m + 2" 48] m(2,3) by (simp add: length_build_packet)
  have fr: "frames ?packet = map Body msgs" using m(3) by (intro frames_build_packet) auto
  have ne: "?packet \<noteq> []" if "draws \<noteq> []"
    using m(2) that by (cases msgs) (auto simp: build_packet_Cons enc_bytes)
  have it: "gen_iteration nanos draws sendto g = Some (?packet, True,
      (foldl (\<lambda>g d. drawn_state d g) g draws)\<lparr>gen_packets_sent := gen_packets_sent g + 1\<rparr>)"
    using assms(2) by (simp add: gen_iteration_def Let_def not_less m(1) drawn_states)
  show ?thesis by (rule that[OF it len ne]) (simp_all add: drawn_states fr rp)
qed

section \<open>Properties\<close>

text \<open>
  C15: every packet the generator sends is parsed back completely: for draws in the ranges of the
  distributions, an iteration of the sending loop has no undefined behaviour, its packet is at most
  48 bytes per message, and \<open>ItchParser::parse\<close> with room for all of them returns one message
  per draw, in order, with the drawn instrument, order number, side, shares and price, and counts no
  error.  Sequence numbers come back modulo 2^16, and an order executed leaves side and price of its
  slot.
\<close>

theorem generated_packets_parse_back:
  assumes "\<forall>d\<in>set draws. draw_ok d" and "\<forall>pk. 0 \<le> sendto pk"
    and "length draws \<le> unat mx" "unat mx \<le> length out" "48 * length draws < 2 ^ 32"
  shows "\<exists>packet g'. gen_iteration nanos draws sendto g = Some (packet, True, g') \<and>
    length packet \<le> 48 * length draws \<and> gen_packets_sent g' = gen_packets_sent g + 1 \<and>
    gen_sequence g' = gen_sequence g + of_nat (length draws) \<and>
    ItchParser_parse \<lparr>mv_data = Some packet, mv_length = of_nat (length packet),
        mv_timestamp = rx, mv_sequence = sq\<rparr> out mx p =
      Some (of_nat (length draws),
        drawn_messages (nanos mod 86400000000000) rx draws g (take (unat mx) out) @
          drop (length draws) out,
        p\<lparr>ip_messages_parsed := ip_messages_parsed p + of_nat (length draws)\<rparr>)"
proof -
  obtain packet g' where g: "gen_iteration nanos draws sendto g = Some (packet, True, g')"
    "length packet \<le> 48 * length draws" "gen_packets_sent g' = gen_packets_sent g + 1"
    "gen_sequence g' = gen_sequence g + of_nat (length draws)"
    and rp: "\<And>slots p. length draws \<le> length slots \<Longrightarrow> ref_parse rx slots (frames packet) p =
       (drawn_messages (nanos mod 86400000000000) rx draws g slots, p)"
    by (rule gen_iteration_spec[OF assms(1,2), of nanos g rx]) blast
  have "unat (of_nat (length packet) :: u32) = length packet"
    using g(2) assms(5) by (simp add: unat_of_nat)
  then show ?thesis
    using ItchParser_parse_spec[of "\<lparr>mv_data = Some packet, mv_length = of_nat (length packet),
        mv_timestamp = rx, mv_sequence = sq\<rparr>" packet mx out p] rp[of "take (unat mx) out" p]
      assms(3,4) g by (simp add: length_drawn_messages)
qed

definition demo_draws :: "Draw list" where
  "demo_draws =
     [\<lparr>dr_stock_idx = 0, dr_side = 1, dr_shares = 200, dr_price = 1500000, dr_msg_type = 0\<rparr>,
      \<lparr>dr_stock_idx = 4, dr_side = 0, dr_shares = 301, dr_price = 700000, dr_msg_type = 1\<rparr>]"

lemma replicate_2: "replicate 2 x = [x, x]"
  by (simp add: numeral_eq_Suc)

lemma demo_half: "(301 :: u64) div 2 = 150"
  by code_simp

theorem generated_packets_parse_back_witness:
  "\<exists>packet g' m1 m2. gen_iteration 5 demo_draws (\<lambda>pk. int (length pk)) Generator_init =
     Some (packet, True, g') \<and> gen_sequence g' = 2 \<and>
     ItchParser_parse \<lparr>mv_data = Some packet, mv_length = of_nat (length packet),
        mv_timestamp = 9, mv_sequence = 0\<rparr> (replicate 2 NormalizedMessage_default) 2 ItchParser_new =
      Some (2, [m1, m2], ItchParser_new\<lparr>ip_messages_parsed := 2\<rparr>) \<and>
     nm_price m1 = 1500000 \<and> nm_quantity m2 = 150 \<and> nm_order_id m2 = 999001"
  using generated_packets_parse_back[of demo_draws "\<lambda>pk. int (length pk)" 2
      "replicate 2 NormalizedMessage_default" 5 Generator_init 9 0 ItchParser_new]
  by (auto simp: demo_draws_def draw_ok_def NUM_STOCKS_def replicate_2 demo_half drawn_message_def
      drawn_state_def drawn_side_def Generator_init_def ItchParser_new_def)

text \<open>
  Each writer, at any offset that leaves room, changes exactly its own bytes of the vector, and
  the corresponding reader at that offset returns the written value; one byte short of room, the
  writer is undefined behaviour.
\<close>

theorem write_read_roundtrip:
  assumes "d + 8 \<le> length m"
  shows "\<exists>a b c. write_u16_be m d v = Some a \<and> read_u16_be (ptr_add a d) = Some v \<and>
      length a = length m \<and> take d a = take d m \<and> drop (d + 2) a = drop (d + 2) m \<and>
    write_u32_be m d w = Some b \<and> read_u32_be (ptr_add b d) = Some w \<and>
      length b = length m \<and> take d b = take d m \<and> drop (d + 4) b = drop (d + 4) m \<and>
    write_u64_be m d x = Some c \<and> read_u64_be (ptr_add c d) = Some x \<and>
      length c = length m \<and> take d c = take d m \<and> drop (d + 8) c = drop (d + 8) m \<and>
    write_u16_be (take (d + 1) m) d v = None \<and> write_u32_be (take (d + 3) m) d w = None \<and>
    write_u64_be (take (d + 7) m) d x = None"
  using assms
  by (auto simp: write_Some at_enc write_None_iff)

theorem write_read_roundtrip_witness:
  "\<exists>a. write_u16_be (replicate 10 7) 2 0x1234 = Some a \<and> read_u16_be (ptr_add a 2) = Some 0x1234 \<and>
     take 2 a = [7, 7]"
  using write_read_roundtrip[of 2 "replicate 10 7" "0x1234" 0 0] by (auto simp: replicate_2)

end
