(* ===== verification/Udp_Sender.thy ===== *)
theory Udp_Sender
  imports Console Parser_Interface
begin

text \<open>
  \<open>examples/udp_sender.cpp\<close>: the program that sends numbered text datagrams.  The operating system is
  a parameter: the results of \<open>socket\<close> and \<open>inet_pton\<close> are arguments of \<open>main\<close>, and each
  iteration of the sending loop gets the reading of the system clock and the result of \<open>sendto\<close>.  A
  run over a list of such answers is the execution up to the last of them; it ends earlier when the
  loop does.  The system calls and the text on the standard streams are recorded.  \<open>None\<close> is
  undefined behaviour.  Time points are nanoseconds without overflow.
\<close>

section \<open>The outside of a sending program\<close>

datatype tx_call =
    Tx_socket int
  | Tx_multicast_ttl int u8
  | Tx_sendto int bytes u16 u32
  | Tx_sleep_until int
  | Tx_close int

record tx_world =
  tx_out :: string
  tx_err :: string
  tx_calls :: "tx_call list"

definition tx_world_init :: tx_world where
  "tx_world_init = \<lparr>tx_out = [], tx_err = [], tx_calls = []\<rparr>"

definition put :: "string \<Rightarrow> tx_world \<Rightarrow> tx_world" where
  "put s w = w\<lparr>tx_out := tx_out w @ s\<rparr>"

definition put_err :: "string \<Rightarrow> tx_world \<Rightarrow> tx_world" where
  "put_err s w = w\<lparr>tx_err := tx_err w @ s\<rparr>"

definition call :: "tx_call \<Rightarrow> tx_world \<Rightarrow> tx_world" where
  "call c w = w\<lparr>tx_calls := tx_calls w @ [c]\<rparr>"

text \<open>\<open>addr.sin_addr\<close> stays zero when \<open>inet_pton\<close> cannot parse the group.\<close>

definition tx_addr :: "(string \<Rightarrow> u32 option) \<Rightarrow> string \<Rightarrow> u32" where
  "tx_addr inet_pton grp = (case inet_pton grp of None \<Rightarrow> 0 | Some a \<Rightarrow> a)"

text \<open>
  \<open>std::chrono::microseconds(1000000 / rate)\<close> in nanoseconds; \<open>int\<close> division truncates, and a
  division by zero is undefined behaviour.
\<close>

definition send_interval :: "int \<Rightarrow> int option" where
  "send_interval rate = (if rate = 0 then None else Some (1000 * (sgn rate * (1000000 div \<bar>rate\<bar>))))"

definition payloads :: "tx_call list \<Rightarrow> bytes list" where
  "payloads cs = concat (map (\<lambda>c. case c of Tx_sendto s b p a \<Rightarrow> [b] | _ \<Rightarrow> []) cs)"

definition sleeps :: "tx_call list \<Rightarrow> int list" where
  "sleeps cs = concat (map (\<lambda>c. case c of Tx_sleep_until t \<Rightarrow> [t] | _ \<Rightarrow> []) cs)"

section \<open>The program\<close>

definition sender_text :: "u64 \<Rightarrow> u64 \<Rightarrow> string" where
  "sender_text seq now =
     ''TEST_PACKET seq='' @ dec_word seq @ '' timestamp='' @ dec_int (sint now)"

record Sender =
  sn_seq :: u64
  sn_next_send :: int

text \<open>
  One iteration of the loop; \<open>buffer\<close> is the uninitialised local array.  \<open>sendto\<close> reads \<open>len\<close>
  bytes of it.  The result is whether the loop goes on.
\<close>

definition sender_iteration :: "int \<Rightarrow> u16 \<Rightarrow> u32 \<Rightarrow> int \<Rightarrow> bytes \<Rightarrow> u64 \<Rightarrow> int \<Rightarrow> Sender \<Rightarrow> tx_world \<Rightarrow>
    (bool \<times> Sender \<times> tx_world) option" where
  "sender_iteration sock port addr interval buffer now sent st w =
     (case snprintf_buf buffer (sender_text (sn_seq st) now) of (buffer, len) \<Rightarrow>
       let st = st\<lparr>sn_seq := sn_seq st + 1\<rparr> in
       if len > length buffer then None
       else let w = call (Tx_sendto sock (take len buffer) port addr) w in
         if sent < 0 then Some (False, st, put_err (''Send failed'' @ nl) w)
         else let st = st\<lparr>sn_next_send := sn_next_send st + interval\<rparr>;
                  w = call (Tx_sleep_until (sn_next_send st)) w;
                  w = (if sn_seq st mod 1000 = 0
                       then put (''Sent '' @ dec_word (sn_seq st) @ '' packets'' @ nl) w else w)
              in Some (True, st, w))"

text \<open>The loop over the answers of the outside, and whether the loop was left.\<close>

fun sender_loop :: "int \<Rightarrow> u16 \<Rightarrow> u32 \<Rightarrow> int \<Rightarrow> bytes \<Rightarrow> (u64 \<times> int) list \<Rightarrow> Sender \<Rightarrow> tx_world \<Rightarrow>
    (bool \<times> Sender \<times> tx_world) option" where
  "sender_loop sock port addr interval buffer [] st w = Some (False, st, w)"
| "sender_loop sock port addr interval buffer ((now, sent) # env) st w = do {
     (go_on, st, w) \<leftarrow> sender_iteration sock port addr interval buffer now sent st w;
     if go_on then sender_loop sock port addr interval buffer env st w else Some (True, st, w)
   }"

text \<open>The exit code is \<open>None\<close> while the loop is running.\<close>

definition sender_main :: "string list \<Rightarrow> int \<Rightarrow> (string \<Rightarrow> u32 option) \<Rightarrow> int \<Rightarrow> bytes \<Rightarrow>
    (u64 \<times> int) list \<Rightarrow> (int option \<times> tx_world) option" where
  "sender_main argv sock inet_pton start buffer env = do {
     let multicast_group = arg_str argv 1 ''239.1.1.1'';
     port \<leftarrow> arg_int argv 2 10000;
     rate \<leftarrow> arg_int argv 3 1000;
     let w = put (''UDP Sender'' @ nl @ ''=========='' @ nl @
       ''Target: '' @ multicast_group @ '':'' @ dec_int port @ nl @
       ''Rate: '' @ dec_int rate @ '' packets/sec'' @ nl @ nl) tx_world_init;
     let w = call (Tx_socket sock) w;
     if sock < 0 then Some (Some 1, put_err (''Failed to create socket'' @ nl) w)
     else do {
       let w = call (Tx_multicast_ttl sock 1) w;
       let sin_port = (word_of_int port :: u16);
       let sin_addr = tx_addr inet_pton multicast_group;
       interval \<leftarrow> send_interval rate;
       (ended, st, w) \<leftarrow> sender_loop sock sin_port sin_addr interval buffer env
         \<lparr>sn_seq = 0, sn_next_send = start\<rparr> w;
       if ended then Some (Some 0, call (Tx_close sock) w) else Some (None, w)
     }
   }"

section \<open>What is sent\<close>

text \<open>Reading a datagram back: the number after each equals sign.\<close>

definition sender_decode :: "bytes \<Rightarrow> nat \<times> int option" where
  "sender_decode b =
     (let s = map (\<lambda>c. char_of (unat c)) b;
          (n, rest) = read_digits 0 (drop 16 s)
      in (n, atoll (drop 11 rest)))"

lemma world_fields [simp]:
  "tx_calls (put s w) = tx_calls w" "tx_calls (put_err s w) = tx_calls w"
  "tx_calls (call c w) = tx_calls w @ [c]" "tx_err (put s w) = tx_err w" "tx_err (call c w) = tx_err w"
  "tx_err (put_err s w) = tx_err w @ s" "tx_calls tx_world_init = []" "tx_err tx_world_init = []"
  by (simp_all add: put_def put_err_def call_def tx_world_init_def)

lemma payload_simps [simp]:
  "payloads [] = []" "payloads (cs @ ds) = payloads cs @ payloads ds"
  "payloads (Tx_sendto s b p a # cs) = b # payloads cs" "payloads (Tx_socket s # cs) = payloads cs"
  "payloads (Tx_multicast_ttl s t # cs) = payloads cs" "payloads (Tx_sleep_until t' # cs) = payloads cs"
  "payloads (Tx_close s # cs) = payloads cs"
  "sleeps [] = []" "sleeps (cs @ ds) = sleeps cs @ sleeps ds"
  "sleeps (Tx_sendto s b p a # cs) = sleeps cs" "sleeps (Tx_socket s # cs) = sleeps cs"
  "sleeps (Tx_multicast_ttl s t # cs) = sleeps cs" "sleeps (Tx_sleep_until t' # cs) = t' # sleeps cs"
  "sleeps (Tx_close s # cs) = sleeps cs"
  by (simp_all add: payloads_def sleeps_def)

lemma char_byte: "char_of (unat (of_char c :: byte)) = c"
proof -
  have "(of_char c :: byte) = of_nat (of_char c)" by (simp add: of_nat_of_char)
  then have "unat (of_char c :: byte) = of_char c"
    using nat_of_char_less_256 by (simp add: unat_of_nat)
  then show ?thesis by simp
qed

lemma length_sender_text: "length (sender_text seq now) \<le> 67"
  using length_dec_u64[of seq] length_dec_s64[of now] by (simp add: sender_text_def dec_word_def)

lemma sender_decode_text: "sender_decode (map of_char (sender_text seq now)) = (unat seq, Some (sint now))"
proof -
  have "- (2 ^ 63) \<le> sint now" "sint now < 2 ^ 63" using sint_ge[of now] sint_lt[of now] by simp_all
  then have a: "atoll (dec_int (sint now)) = Some (sint now)" by (simp add: atoll_def ato_dec_int)
  have s: "map (\<lambda>c. char_of (unat c)) (map of_char (sender_text seq now) :: bytes) = sender_text seq now"
    by (simp add: o_def char_byte)
  have "drop 16 (sender_text seq now) = dec_word seq @ '' timestamp='' @ dec_int (sint now)"
    by (simp add: sender_text_def)
  then show ?thesis using a
    by (simp add: sender_decode_def s dec_word_def is_digit_def del: map_map)
qed

fun sender_calls :: "int \<Rightarrow> u16 \<Rightarrow> u32 \<Rightarrow> int \<Rightarrow> (u64 \<times> int) list \<Rightarrow> u64 \<Rightarrow> int \<Rightarrow> tx_call list" where
  "sender_calls sock port addr interval [] seq t = []"
| "sender_calls sock port addr interval ((now, sent) # env) seq t =
     Tx_sendto sock (map of_char (sender_text seq now)) port addr #
     (if sent < 0 then []
      else Tx_sleep_until (t + interval) # sender_calls sock port addr interval env (seq + 1) (t + interval))"

definition failing :: "(u64 \<times> int) list \<Rightarrow> bool" where
  "failing env \<longleftrightarrow> (\<exists>e\<in>set env. snd e < 0)"

lemma failing_simps [simp]:
  "\<not> failing []" "failing (e # env) \<longleftrightarrow> snd e < 0 \<or> failing env"
  "failing (env @ env') \<longleftrightarrow> failing env \<or> failing env'"
  by (auto simp: failing_def)

lemma sender_loop_spec:
  assumes "length buffer = 1024"
  shows "\<exists>st' w'. sender_loop sock port addr interval buffer env st w = Some (failing env, st', w') \<and>
    tx_calls w' = tx_calls w @ sender_calls sock port addr interval env (sn_seq st) (sn_next_send st) \<and>
    tx_err w' = tx_err w @ (if failing env then ''Send failed'' @ nl else [])"
proof (induction env arbitrary: st w)
  case Nil
  then show ?case by simp
next
  case (Cons e env)
  obtain now sent where e: "e = (now, sent)" by fastforce
  let ?text = "sender_text (sn_seq st) now"
  have "length ?text < length buffer" using length_sender_text[of "sn_seq st" now] assms by simp
  note f = snprintf_fits[OF this]
  have "\<exists>w1. sender_iteration sock port addr interval buffer now sent st w =
      Some (0 \<le> sent, st\<lparr>sn_seq := sn_seq st + 1,
        sn_next_send := sn_next_send st + (if sent < 0 then 0 else interval)\<rparr>, w1) \<and>
      tx_calls w1 = tx_calls w @ Tx_sendto sock (map of_char ?text) port addr #
        (if sent < 0 then [] else [Tx_sleep_until (sn_next_send st + interval)]) \<and>
      tx_err w1 = tx_err w @ (if sent < 0 then ''Send failed'' @ nl else [])"
    using f length_sender_text[of "sn_seq st" now] assms
    by (simp add: sender_iteration_def split_beta Let_def)
  then obtain w1 where "sender_iteration sock port addr interval buffer now sent st w =
      Some (0 \<le> sent, st\<lparr>sn_seq := sn_seq st + 1,
        sn_next_send := sn_next_send st + (if sent < 0 then 0 else interval)\<rparr>, w1)"
    "tx_calls w1 = tx_calls w @ Tx_sendto sock (map of_char ?text) port addr #
      (if sent < 0 then [] else [Tx_sleep_until (sn_next_send st + interval)])"
    "tx_err w1 = tx_err w @ (if sent < 0 then ''Send failed'' @ nl else [])" by blast
  then show ?case
    using Cons.IH[of "st\<lparr>sn_seq := sn_seq st + 1, sn_next_send := sn_next_send st + interval\<rparr>" w1]
    by (cases "sent < 0") (auto simp: e)
qed

lemma sender_calls_ok:
  assumes "\<not> failing env"
  shows "payloads (sender_calls sock port addr interval env seq t) =
      map (\<lambda>k. map of_char (sender_text (seq + of_nat k) (fst (env ! k)))) [0..<length env]"
    "sleeps (sender_calls sock port addr interval env seq t) =
      map (\<lambda>k. t + (int k + 1) * interval) [0..<length env]"
  using assms
proof (induction env arbitrary: seq t)
  case (Cons e env)
  obtain now sent where e: "e = (now, sent)" by fastforce
  have u: "[0..<Suc (length env)] = 0 # map Suc [0..<length env]" by (simp add: upt_conv_Cons map_Suc_upt del: upt_Suc)
  {
    case 1
    then show ?case using Cons.IH(1)[of "seq + 1" "t + interval"]
      by (simp add: e u o_def add.assoc del: upt_Suc)
  next
    case 2
    then show ?case using Cons.IH(2)[of "seq + 1" "t + interval"]
      by (simp add: e u o_def algebra_simps del: upt_Suc)
  }
qed simp_all

lemma sender_calls_fail:
  assumes "\<not> failing oks" "sent < 0"
  shows "length (payloads (sender_calls sock port addr interval (oks @ (now, sent) # rest) seq t)) = Suc (length oks)"
  using assms(1)
proof (induction oks arbitrary: seq t)
  case Nil
  then show ?case using assms(2) by simp
next
  case (Cons e oks)
  then show ?case by (cases e) simp
qed

lemma sender_main_spec:
  assumes "arg_int argv 2 10000 = Some port" "arg_int argv 3 1000 = Some rate"
    "send_interval rate = Some interval" "0 \<le> sock" "length buffer = 1024"
  shows "\<exists>w. sender_main argv sock inet_pton start buffer env =
      Some (if failing env then Some 0 else None, w) \<and>
    tx_calls w = [Tx_socket sock, Tx_multicast_ttl sock 1] @ sender_calls sock (word_of_int port)
      (tx_addr inet_pton (arg_str argv 1 ''239.1.1.1'')) interval env 0 start @
      (if failing env then [Tx_close sock] else []) \<and>
    tx_err w = (if failing env then ''Send failed'' @ nl else [])"
proof -
  define w0 where "w0 = call (Tx_multicast_ttl sock 1) (call (Tx_socket sock) (put (''UDP Sender'' @ nl @
    ''=========='' @ nl @ ''Target: '' @ arg_str argv 1 ''239.1.1.1'' @ '':'' @ dec_int port @ nl @
    ''Rate: '' @ dec_int rate @ '' packets/sec'' @ nl @ nl) tx_world_init))"
  obtain st w where "sender_loop sock (word_of_int port) (tx_addr inet_pton (arg_str argv 1 ''239.1.1.1''))
      interval buffer env \<lparr>sn_seq = 0, sn_next_send = start\<rparr> w0 = Some (failing env, st, w)"
    "tx_calls w = tx_calls w0 @ sender_calls sock (word_of_int port)
      (tx_addr inet_pton (arg_str argv 1 ''239.1.1.1'')) interval env 0 start"
    "tx_err w = tx_err w0 @ (if failing env then ''Send failed'' @ nl else [])"
    using sender_loop_spec[OF assms(5), of sock "word_of_int port" _ interval env
        "\<lparr>sn_seq = 0, sn_next_send = start\<rparr>" w0] by fastforce
  then show ?thesis using assms by (auto simp: sender_main_def Let_def w0_def simp del: append.simps)
qed

lemma echo_datagram:
  assumes "b \<noteq> []" "length b < 2 ^ 32"
  shows "\<exists>msg. EchoParser_parse \<lparr>mv_data = Some b, mv_length = of_nat (length b), mv_timestamp = rx,
      mv_sequence = sq\<rparr> (slot # slots) 1 p = Some (1, msg # slots, p + 1) \<and>
    nm_type msg = NM_SYSTEM_EVENT \<and> nm_quantity msg = of_nat (length b)"
proof -
  have u: "unat (of_nat (length b) :: u32) = length b" using assms(2) by (simp add: unat_of_nat)
  then have "(0 :: u32) < of_nat (length b)" using assms(1) by (simp add: word_less_nat_alt)
  moreover have "(ucast (of_nat (length b) :: u32) :: u64) = of_nat (length b)"
    using assms(2) by (simp add: word_unat_eq_iff unat_of_nat)
  ultimately show ?thesis by (simp add: EchoParser_parse_def is_valid_def store_def)
qed

section \<open>Properties\<close>

text \<open>
  C17: while \<open>sendto\<close> succeeds, the sender sends one datagram per iteration and goes on.  For any
  arguments with a rate other than zero there is no undefined behaviour; datagram \<open>k\<close> has at most 67
  bytes, so the 1024 byte buffer never truncates it, and reading it back gives the number \<open>k\<close> (modulo
  2^64) and the clock reading; after it the program sleeps until the start plus \<open>k + 1\<close> intervals.  An
  engine with the default \<open>EchoParser\<close> turns it into one message with the datagram's length.
\<close>

theorem sender_datagrams:
  assumes "arg_int argv 2 10000 = Some port" "arg_int argv 3 1000 = Some rate" "rate \<noteq> 0" "0 \<le> sock"
    and "length buffer = 1024" "\<forall>e\<in>set env. 0 \<le> snd e"
  shows "\<exists>w. sender_main argv sock inet_pton start buffer env = Some (None, w) \<and>
    length (payloads (tx_calls w)) = length env \<and> length (sleeps (tx_calls w)) = length env \<and>
    (\<forall>k<length env. let b = payloads (tx_calls w) ! k in
      length b \<le> 67 \<and> sender_decode b = (k mod 2 ^ 64, Some (sint (fst (env ! k)))) \<and>
      sleeps (tx_calls w) ! k = start + (int k + 1) * the (send_interval rate) \<and>
      (\<exists>msg. EchoParser_parse \<lparr>mv_data = Some b, mv_length = of_nat (length b), mv_timestamp = rx,
          mv_sequence = sq\<rparr> (slot # slots) 1 p = Some (1, msg # slots, p + 1) \<and>
        nm_type msg = NM_SYSTEM_EVENT \<and> nm_quantity msg = of_nat (length b)))"
proof -
  have nf: "\<not> failing env" using assms(6) by (auto simp: failing_def)
  have iv: "send_interval rate = Some (the (send_interval rate))" using assms(3) by (simp add: send_interval_def)
  obtain w where m: "sender_main argv sock inet_pton start buffer env = Some (None, w)"
    "tx_calls w = [Tx_socket sock, Tx_multicast_ttl sock 1] @ sender_calls sock (word_of_int port)
      (tx_addr inet_pton (arg_str argv 1 ''239.1.1.1'')) (the (send_interval rate)) env 0 start"
    using sender_main_spec[OF assms(1,2) iv assms(4,5), of inet_pton start env] nf by auto
  have p: "payloads (tx_calls w) =
      map (\<lambda>k. map of_char (sender_text (of_nat k) (fst (env ! k)))) [0..<length env]"
    "sleeps (tx_calls w) = map (\<lambda>k. start + (int k + 1) * the (send_interval rate)) [0..<length env]"
    using sender_calls_ok[OF nf] m(2) by simp_all
  have echo: "\<exists>msg. EchoParser_parse \<lparr>mv_data = Some (map of_char (sender_text a c)),
      mv_length = of_nat (length (sender_text a c)), mv_timestamp = rx, mv_sequence = sq\<rparr> (slot # slots) 1 p =
        Some (1, msg # slots, p + 1) \<and> nm_type msg = NM_SYSTEM_EVENT \<and>
      nm_quantity msg = of_nat (length (sender_text a c))" for a c
    using echo_datagram[of "map of_char (sender_text a c)" rx sq slot slots p] length_sender_text[of a c]
    by (simp add: sender_text_def)
  show ?thesis using m(1) p echo
    by (auto simp: sender_decode_text unat_of_nat Let_def length_sender_text)
qed

theorem sender_datagrams_witness:
  "\<exists>w. sender_main [''udp_sender''] 3 (\<lambda>_. Some 0) 0 (replicate 1024 0) [(5, 40), (9, 40)] = Some (None, w) \<and>
     length (payloads (tx_calls w)) = 2 \<and> sender_decode (payloads (tx_calls w) ! 1) = (1, Some 9) \<and>
     sleeps (tx_calls w) ! 1 = 2000000"
proof -
  have "arg_int [''udp_sender''] 2 10000 = Some 10000" "arg_int [''udp_sender''] 3 1000 = Some 1000"
    by (simp_all add: arg_int_def)
  from sender_datagrams[OF this, of 3 "replicate 1024 0" "[(5, 40), (9, 40)]" "\<lambda>_. Some 0" 0]
  show ?thesis by (force simp: Let_def send_interval_def)
qed

text \<open>
  C29: how the sender ends.  Without a socket it returns 1 after no further call.  A rate of zero, which
  is also what \<open>atoi\<close> makes of an argument that is not a number, is a division by zero.  When a
  \<open>sendto\<close> fails, the loop ends after that call, the socket is closed, and \<open>main\<close> returns 0.
\<close>

theorem sender_exits:
  assumes "arg_int argv 2 10000 = Some port" "arg_int argv 3 1000 = Some rate" "length buffer = 1024"
  shows "(sock < 0 \<longrightarrow> (\<exists>w. sender_main argv sock inet_pton start buffer env = Some (Some 1, w) \<and>
      tx_calls w = [Tx_socket sock] \<and> tx_err w = ''Failed to create socket'' @ nl)) \<and>
    (0 \<le> sock \<and> rate = 0 \<longrightarrow> sender_main argv sock inet_pton start buffer env = None) \<and>
    (0 \<le> sock \<and> rate \<noteq> 0 \<and> env = oks @ (now, sent) # rest \<and> (\<forall>e\<in>set oks. 0 \<le> snd e) \<and> sent < 0 \<longrightarrow>
      (\<exists>w. sender_main argv sock inet_pton start buffer env = Some (Some 0, w) \<and>
        length (payloads (tx_calls w)) = Suc (length oks) \<and> last (tx_calls w) = Tx_close sock \<and>
        tx_err w = ''Send failed'' @ nl))"
proof (intro conjI impI)
  assume "sock < 0"
  then show "\<exists>w. sender_main argv sock inet_pton start buffer env = Some (Some 1, w) \<and>
      tx_calls w = [Tx_socket sock] \<and> tx_err w = ''Failed to create socket'' @ nl"
    using assms by (simp add: sender_main_def Let_def)
next
  assume "0 \<le> sock \<and> rate = 0"
  then show "sender_main argv sock inet_pton start buffer env = None"
    using assms by (simp add: sender_main_def send_interval_def Let_def)
next
  assume h: "0 \<le> sock \<and> rate \<noteq> 0 \<and> env = oks @ (now, sent) # rest \<and> (\<forall>e\<in>set oks. 0 \<le> snd e) \<and> sent < 0"
  then have f: "\<not> failing oks" "failing env" by (auto simp: failing_def)
  obtain interval where iv: "send_interval rate = Some interval" using h by (auto simp: send_interval_def)
  show "\<exists>w. sender_main argv sock inet_pton start buffer env = Some (Some 0, w) \<and>
      length (payloads (tx_calls w)) = Suc (length oks) \<and> last (tx_calls w) = Tx_close sock \<and>
      tx_err w = ''Send failed'' @ nl"
    using sender_main_spec[OF assms(1,2) iv _ assms(3), of sock inet_pton start env] f h
      sender_calls_fail[OF f(1), of sent] by auto
qed

theorem sender_exits_witness:
  "sender_main [''udp_sender'', ''239.1.1.1'', ''10000'', ''fast''] 3 (\<lambda>_. Some 0) 0 (replicate 1024 0) [] = None"
proof -
  have "arg_int [''udp_sender'', ''239.1.1.1'', ''10000'', ''fast''] 2 10000 = Some 10000"
    "arg_int [''udp_sender'', ''239.1.1.1'', ''10000'', ''fast''] 3 1000 = Some 0"
    by code_simp+
  from sender_exits[OF this, of "replicate 1024 0" 3] show ?thesis by simp
qed

end
