(* ===== verification/Generator_Main.thy ===== *)
theory Generator_Main
  imports Itch_Generator Udp_Sender
begin

text \<open>
  \<open>main\<close> of \<open>examples/itch_generator.cpp\<close> (the POSIX branch) around the iteration of
  \<open>Itch_Generator\<close>.  Each iteration of the sending loop gets the system clock, the values the random
  distributions yield, and the result of \<open>sendto\<close>; calls and output are recorded as in
  \<open>Udp_Sender\<close>.
\<close>

section \<open>The program\<close>

type_synonym gen_env = "u64 \<times> (nat \<Rightarrow> Draw) \<times> int"

text \<open>Signed multiplication of two \<open>int\<close>: an overflow is undefined behaviour.\<close>

definition int_mul :: "int \<Rightarrow> int \<Rightarrow> int option" where
  "int_mul a b = (if - (2 ^ 31) \<le> a * b \<and> a * b < 2 ^ 31 then Some (a * b) else None)"

fun gen_loop :: "int \<Rightarrow> u16 \<Rightarrow> u32 \<Rightarrow> int \<Rightarrow> int \<Rightarrow> gen_env list \<Rightarrow> Generator \<Rightarrow> int \<Rightarrow> tx_world \<Rightarrow>
    (bool \<times> tx_world) option" where
  "gen_loop sock port addr interval msgs [] g next_send w = Some (False, w)"
| "gen_loop sock port addr interval msgs ((nanos, draw, sent) # env) g next_send w = do {
     (packet, ok, g) \<leftarrow> gen_iteration nanos (map draw [0..<nat msgs]) (\<lambda>_. sent) g;
     let w = call (Tx_sendto sock packet port addr) w;
     if \<not> ok then Some (True, put_err (''Send failed'' @ nl) w)
     else do {
       let w = (if gen_packets_sent g mod 1000 = 0
         then put (''Sent '' @ dec_word (gen_packets_sent g) @ '' packets ('' @
           dec_word (gen_packets_sent g * word_of_int msgs) @ '' messages)'' @ nl) w else w);
       let next_send = next_send + interval;
       gen_loop sock port addr interval msgs env g next_send (call (Tx_sleep_until next_send) w)
     }
   }"

definition gen_main :: "string list \<Rightarrow> int \<Rightarrow> (string \<Rightarrow> u32 option) \<Rightarrow> int \<Rightarrow> gen_env list \<Rightarrow>
    (int option \<times> tx_world) option" where
  "gen_main argv sock inet_pton start env = do {
     let multicast_group = arg_str argv 1 ''233.54.12.1'';
     port \<leftarrow> arg_int argv 2 20000;
     rate \<leftarrow> arg_int argv 3 1000;
     msgs_per_packet \<leftarrow> arg_int argv 4 10;
     message_rate \<leftarrow> int_mul rate msgs_per_packet;
     let w = put (''ITCH 5.0 Message Generator'' @ nl @ ''==========================='' @ nl @ nl @
       ''Configuration:'' @ nl @ ''  Multicast Group: '' @ multicast_group @ nl @
       ''  Port: '' @ dec_int port @ nl @ ''  Packet Rate: '' @ dec_int rate @ '' packets/sec'' @ nl @
       ''  Messages/Packet: '' @ dec_int msgs_per_packet @ nl @
       ''  Message Rate: '' @ dec_int message_rate @ '' messages/sec'' @ nl @ nl) tx_world_init;
     let w = call (Tx_socket sock) w;
     if sock = - 1 then Some (Some 1, put_err (''Failed to create socket'' @ nl) w)
     else do {
       let w = call (Tx_multicast_ttl sock 1) w;
       let sin_port = (word_of_int port :: u16);
       let sin_addr = tx_addr inet_pton multicast_group;
       interval \<leftarrow> send_interval rate;
       let w = put (''Sending ITCH 5.0 messages... (Ctrl+C to stop)'' @ nl @ nl) w;
       (ended, w) \<leftarrow> gen_loop sock sin_port sin_addr interval msgs_per_packet env Generator_init start w;
       if ended then Some (Some 0, call (Tx_close sock) w) else Some (None, w)
     }
   }"

section \<open>What is sent\<close>

definition gen_env_ok :: "gen_env \<Rightarrow> bool" where
  "gen_env_ok e \<longleftrightarrow> 0 \<le> snd (snd e) \<and> (\<forall>j. draw_ok (fst (snd e) j))"

lemma nth_drawn_messages:
  "j < length ds \<Longrightarrow> length ds \<le> length slots \<Longrightarrow>
   drawn_messages ts rx ds g slots ! j =
     drawn_message ts rx (ds ! j) (foldl (\<lambda>g d. drawn_state d g) g (take j ds)) (slots ! j)"
proof (induction ts rx ds g slots arbitrary: j rule: drawn_messages.induct)
  case (1 ts rx d ds g slot slots)
  then show ?case by (cases j) simp_all
qed simp_all

text \<open>The generator after the packets of \<open>env\<close>, each with \<open>m\<close> messages.\<close>

definition after_packet :: "nat \<Rightarrow> Generator \<Rightarrow> gen_env \<Rightarrow> Generator" where
  "after_packet m g e = (foldl (\<lambda>g d. drawn_state d g) g (map (fst (snd e)) [0..<m]))
     \<lparr>gen_packets_sent := gen_packets_sent g + 1\<rparr>"

definition gen_after :: "nat \<Rightarrow> gen_env list \<Rightarrow> Generator" where
  "gen_after m env = foldl (after_packet m) Generator_init env"

lemma gen_after_sequence: "gen_sequence (gen_after m env) = of_nat (length env * m)"
proof -
  have "gen_sequence (foldl (after_packet m) g env) = gen_sequence g + of_nat (length env * m)" for g
    by (induction env arbitrary: g) (simp_all add: after_packet_def drawn_states algebra_simps)
  then show ?thesis by (simp add: gen_after_def Generator_init_def)
qed

lemma unat_tracking: "unat (ucast (of_nat n :: u64) :: u16) = n mod 65536"
proof -
  have "unat (ucast (of_nat n :: u64) :: u16) = take_bit 16 (take_bit 64 n)"
    by (simp add: unsigned_ucast_eq unsigned_of_nat)
  also have "\<dots> = take_bit 16 n" by (simp only: take_bit_take_bit)
  finally show ?thesis by (simp add: take_bit_eq_mod)
qed

text \<open>A packet with the draws of \<open>e\<close>, built from the generator \<open>g\<close>.\<close>

definition packet_of_run :: "nat \<Rightarrow> gen_env \<Rightarrow> Generator \<Rightarrow> bytes \<Rightarrow> bool" where
  "packet_of_run m e g b \<longleftrightarrow> length b \<le> 48 * m \<and>
     (\<forall>rx slots p. m \<le> length slots \<longrightarrow> ref_parse rx slots (frames b) p =
       (drawn_messages (fst e mod 86400000000000) rx (map (fst (snd e)) [0..<m]) g slots, p))"

lemma gen_loop_spec:
  assumes "\<forall>e\<in>set env. gen_env_ok e"
  shows "\<exists>w'. gen_loop sock port addr interval msgs env g t w = Some (False, w') \<and>
    (\<exists>bs. payloads (tx_calls w') = payloads (tx_calls w) @ bs \<and> length bs = length env \<and>
      (\<forall>i<length env. packet_of_run (nat msgs) (env ! i) (foldl (after_packet (nat msgs)) g (take i env)) (bs ! i))) \<and>
    sleeps (tx_calls w') = sleeps (tx_calls w) @ map (\<lambda>i. t + (int i + 1) * interval) [0..<length env]"
  using assms
proof (induction env arbitrary: g t w)
  case Nil
  then show ?case by simp
next
  case (Cons e env)
  obtain nanos draw sent where e: "e = (nanos, draw, sent)" by (cases e) auto
  let ?ds = "map draw [0..<nat msgs]"
  have ok: "\<forall>d\<in>set ?ds. draw_ok d" "\<forall>pk. 0 \<le> (\<lambda>_. sent) pk"
    using Cons.prems by (auto simp: e gen_env_ok_def)
  obtain b g' where it: "gen_iteration nanos ?ds (\<lambda>_. sent) g = Some (b, True, g')"
    "length b \<le> 48 * length ?ds" "g' = after_packet (nat msgs) g e"
    by (rule gen_iteration_spec[OF ok, of nanos g 0]) (simp add: after_packet_def e)
  have rp: "ref_parse rx slots (frames b) p = (drawn_messages (nanos mod 86400000000000) rx ?ds g slots, p)"
    if "length ?ds \<le> length slots" for rx slots p
    by (rule gen_iteration_spec[OF ok, of nanos g rx]) (use it(1) that in simp)
  have b: "packet_of_run (nat msgs) e g b" using it(2) rp by (simp add: packet_of_run_def e)
  define w1 where "w1 = call (Tx_sleep_until (t + interval)) (if gen_packets_sent g' mod 1000 = 0
         then put (''Sent '' @ dec_word (gen_packets_sent g') @ '' packets ('' @
           dec_word (gen_packets_sent g' * word_of_int msgs) @ '' messages)'' @ nl)
           (call (Tx_sendto sock b port addr) w) else call (Tx_sendto sock b port addr) w)"
  obtain w' bs where w': "gen_loop sock port addr interval msgs env g' (t + interval) w1 = Some (False, w')"
    "payloads (tx_calls w') = payloads (tx_calls w1) @ bs" "length bs = length env"
    "\<forall>i<length env. packet_of_run (nat msgs) (env ! i) (foldl (after_packet (nat msgs)) g' (take i env)) (bs ! i)"
    "sleeps (tx_calls w') = sleeps (tx_calls w1) @ map (\<lambda>i. t + interval + (int i + 1) * interval) [0..<length env]"
    using Cons.IH[of g' "t + interval" w1] Cons.prems by auto
  have w1: "payloads (tx_calls w1) = payloads (tx_calls w) @ [b]" "sleeps (tx_calls w1) = sleeps (tx_calls w) @ [t + interval]"
    by (simp_all add: w1_def)
  have "gen_loop sock port addr interval msgs (e # env) g t w = Some (False, w')"
    using w'(1) it(1) by (simp add: e w1_def Let_def)
  moreover have "\<forall>i<length (e # env). packet_of_run (nat msgs) ((e # env) ! i)
      (foldl (after_packet (nat msgs)) g (take i (e # env))) ((b # bs) ! i)"
    using w'(4) b by (auto simp: nth_Cons it(3) split: nat.splits)
  moreover have "map (\<lambda>i. t + (int i + 1) * interval) [0..<length (e # env)] =
      (t + interval) # map (\<lambda>i. t + interval + (int i + 1) * interval) [0..<length env]"
    by (simp add: upt_conv_Cons map_Suc_upt[symmetric] o_def algebra_simps del: upt_Suc)
  ultimately show ?case using w'(2,3,5) w1
    by (intro exI[of _ w']) (auto intro!: exI[of _ "b # bs"])
qed

lemma gen_main_spec:
  assumes "arg_int argv 2 20000 = Some port" "arg_int argv 3 1000 = Some rate" "arg_int argv 4 10 = Some msgs"
    "int_mul rate msgs = Some mr" "send_interval rate = Some interval" "sock \<noteq> - 1" "\<forall>e\<in>set env. gen_env_ok e"
  shows "\<exists>w. gen_main argv sock inet_pton start env = Some (None, w) \<and>
    length (payloads (tx_calls w)) = length env \<and>
    (\<forall>k<length env. packet_of_run (nat msgs) (env ! k) (gen_after (nat msgs) (take k env)) (payloads (tx_calls w) ! k)) \<and>
    sleeps (tx_calls w) = map (\<lambda>k. start + (int k + 1) * interval) [0..<length env]"
proof -
  define w0 where "w0 = put (''Sending ITCH 5.0 messages... (Ctrl+C to stop)'' @ nl @ nl)
    (call (Tx_multicast_ttl sock 1) (call (Tx_socket sock)
      (put (''ITCH 5.0 Message Generator'' @ nl @ ''==========================='' @ nl @ nl @
       ''Configuration:'' @ nl @ ''  Multicast Group: '' @ arg_str argv 1 ''233.54.12.1'' @ nl @
       ''  Port: '' @ dec_int port @ nl @ ''  Packet Rate: '' @ dec_int rate @ '' packets/sec'' @ nl @
       ''  Messages/Packet: '' @ dec_int msgs @ nl @
       ''  Message Rate: '' @ dec_int mr @ '' messages/sec'' @ nl @ nl) tx_world_init)))"
  have w0: "payloads (tx_calls w0) = []" "sleeps (tx_calls w0) = []" by (simp_all add: w0_def)
  obtain w where "gen_loop sock (word_of_int port) (tx_addr inet_pton (arg_str argv 1 ''233.54.12.1''))
      interval msgs env Generator_init start w0 = Some (False, w)"
    "length (payloads (tx_calls w)) = length env"
    "\<forall>k<length env. packet_of_run (nat msgs) (env ! k) (gen_after (nat msgs) (take k env)) (payloads (tx_calls w) ! k)"
    "sleeps (tx_calls w) = map (\<lambda>k. start + (int k + 1) * interval) [0..<length env]"
    using gen_loop_spec[OF assms(7), of sock "word_of_int port"
        "tx_addr inet_pton (arg_str argv 1 ''233.54.12.1'')" interval msgs Generator_init start w0] w0
    by (auto simp: gen_after_def)
  then show ?thesis using assms(1-6) by (auto simp: gen_main_def Let_def w0_def simp del: append.simps)
qed

text \<open>What the parser makes of such a packet.\<close>

lemma packet_of_run_parse:
  fixes rx :: Timestamp
  assumes pr: "packet_of_run m e g b" and "m \<le> unat mx" "unat mx \<le> length out" "48 * m < 2 ^ 32"
  defines "ws \<equiv> drawn_messages (fst e mod 86400000000000) rx (map (fst (snd e)) [0..<m]) g (take (unat mx) out)"
  shows "ItchParser_parse \<lparr>mv_data = Some b, mv_length = of_nat (length b), mv_timestamp = rx,
      mv_sequence = sq\<rparr> out mx p = Some (of_nat m, ws @ drop m out,
        p\<lparr>ip_messages_parsed := ip_messages_parsed p + of_nat m\<rparr>)"
proof -
  have g: "length b \<le> 48 * m" and rp: "ref_parse rx (take (unat mx) out) (frames b) p = (ws, p)"
    using pr assms(2,3) by (auto simp: packet_of_run_def ws_def)
  have "length ws = m" using assms(2,3) by (simp add: ws_def length_drawn_messages)
  moreover have "unat (of_nat (length b) :: u32) = length b" using g assms(4) by (simp add: unat_of_nat)
  ultimately show ?thesis
    using ItchParser_parse_spec[of "\<lparr>mv_data = Some b, mv_length = of_nat (length b), mv_timestamp = rx,
      mv_sequence = sq\<rparr>" b mx out p] rp assms(3) by simp
qed

lemma drawn_message_fields:
  "nm_instrument_id (drawn_message ts rx d g slot) = word_of_int (dr_stock_idx d)"
  "nm_type (drawn_message ts rx d g slot) =
     (if dr_msg_type d = 1 then NM_ORDER_EXECUTE else if dr_msg_type d = 0 then NM_ORDER_ADD else NM_TRADE)"
  "nm_quantity (drawn_message ts rx d g slot) =
     (if dr_msg_type d = 1 then word_of_int (dr_shares d) div 2 else word_of_int (dr_shares d))"
  "dr_msg_type d \<noteq> 1 \<Longrightarrow> nm_price (drawn_message ts rx d g slot) = word_of_int (dr_price d) \<and>
     nm_side (drawn_message ts rx d g slot) = drawn_side d"
  "nm_sequence (drawn_message ts rx d g slot) = ucast (ucast (gen_sequence g) :: u16)"
  by (simp_all add: drawn_message_def Let_def)

section \<open>Properties\<close>

text \<open>
  C16: a run of the generator.  For arguments whose product of rate and messages per packet fits an
  \<open>int\<close> and a rate other than zero, and as long as \<open>sendto\<close> succeeds, there is no undefined
  behaviour, one packet of at most 48 bytes per message is sent per iteration, and the \<open>k\<close>-th sleep
  ends \<open>k + 1\<close> intervals after the start.  \<open>ItchParser::parse\<close> with room for them decodes packet \<open>k\<close>
  without an error into exactly the messages of its draws: with the drawn instrument, kind, number of
  shares (halved for an execution), price and side, with the order numbers the counters have reached
  after all earlier draws, and with consecutive sequence numbers modulo 2^16 over the whole run.
\<close>

theorem generator_run:
  assumes "arg_int argv 2 20000 = Some port" "arg_int argv 3 1000 = Some rate" "arg_int argv 4 10 = Some msgs"
    and "int_mul rate msgs \<noteq> None" "rate \<noteq> 0" "sock \<noteq> - 1" "\<forall>e\<in>set env. gen_env_ok e"
    and "nat msgs \<le> unat mx" "unat mx \<le> length out" "48 * nat msgs < 2 ^ 32"
  shows "\<exists>w. gen_main argv sock inet_pton start env = Some (None, w) \<and>
    length (payloads (tx_calls w)) = length env \<and>
    sleeps (tx_calls w) = map (\<lambda>k. start + (int k + 1) * the (send_interval rate)) [0..<length env] \<and>
    (\<forall>k<length env. let b = payloads (tx_calls w) ! k; (nanos, draw, sent) = env ! k;
        ws = drawn_messages (nanos mod 86400000000000) rx (map draw [0..<nat msgs])
          (gen_after (nat msgs) (take k env)) (take (unat mx) out)
      in length b \<le> 48 * nat msgs \<and>
        ItchParser_parse \<lparr>mv_data = Some b, mv_length = of_nat (length b), mv_timestamp = rx,
            mv_sequence = sq\<rparr> out mx p = Some (of_nat (nat msgs), ws @ drop (nat msgs) out,
              p\<lparr>ip_messages_parsed := ip_messages_parsed p + of_nat (nat msgs)\<rparr>) \<and>
        (\<forall>j<nat msgs. unat (nm_sequence (ws ! j)) = (k * nat msgs + j) mod 2 ^ 16 \<and>
          nm_instrument_id (ws ! j) = word_of_int (dr_stock_idx (draw j)) \<and>
          nm_type (ws ! j) = (if dr_msg_type (draw j) = 1 then NM_ORDER_EXECUTE
            else if dr_msg_type (draw j) = 0 then NM_ORDER_ADD else NM_TRADE) \<and>
          nm_quantity (ws ! j) = (if dr_msg_type (draw j) = 1 then word_of_int (dr_shares (draw j)) div 2
            else word_of_int (dr_shares (draw j))) \<and>
          (dr_msg_type (draw j) \<noteq> 1 \<longrightarrow> nm_price (ws ! j) = word_of_int (dr_price (draw j)) \<and>
            nm_side (ws ! j) = drawn_side (draw j))))"
proof -
  obtain mr where mr: "int_mul rate msgs = Some mr" using assms(4) by blast
  have iv: "send_interval rate = Some (the (send_interval rate))" using assms(5) by (simp add: send_interval_def)
  let ?g = "\<lambda>k. gen_after (nat msgs) (take k env)"
  obtain w where w: "gen_main argv sock inet_pton start env = Some (None, w)"
    "length (payloads (tx_calls w)) = length env"
    "\<forall>k<length env. packet_of_run (nat msgs) (env ! k) (?g k) (payloads (tx_calls w) ! k)"
    "sleeps (tx_calls w) = map (\<lambda>k. start + (int k + 1) * the (send_interval rate)) [0..<length env]"
    using gen_main_spec[OF assms(1-3) mr iv assms(6,7)] by blast
  have len: "length (payloads (tx_calls w) ! k) \<le> 48 * nat msgs" if "k < length env" for k
    using w(3) that by (simp add: packet_of_run_def)
  note parsed = packet_of_run_parse[OF _ assms(8-10), where rx = rx and sq = sq and p = p]
  have nth: "drawn_messages ts rx (map draw [0..<nat msgs]) g (take (unat mx) out) ! j =
      drawn_message ts rx (draw j) (foldl (\<lambda>g d. drawn_state d g) g (map draw [0..<j])) (out ! j)"
    if "j < nat msgs" for ts draw g j
    using that assms(8,9) by (simp add: nth_drawn_messages take_map)
  have seq: "unat (nm_sequence (drawn_message ts rx d (foldl (\<lambda>g d. drawn_state d g) (?g k)
      (map draw [0..<j])) slot)) = (k * nat msgs + j) mod 2 ^ 16" if "k < length env" for ts d draw j k slot
    using that by (simp add: drawn_message_fields(5) drawn_states(1) gen_after_sequence min_def
        unat_tracking del: of_nat_add of_nat_mult flip: of_nat_add of_nat_mult)
  show ?thesis
    using w(1,2,4) w(3)[rule_format, THEN parsed] len
    by (auto simp: Let_def nth seq drawn_message_fields(1-4) split: prod.split)
qed

definition demo_env :: "gen_env list" where
  "demo_env = [(5, \<lambda>j. demo_draws ! (j mod 2), 76), (6, \<lambda>j. demo_draws ! 0, 76)]"

theorem generator_run_witness:
  "\<exists>w. gen_main [''gen'', ''233.54.12.1'', ''20000'', ''1000'', ''2''] 3 (\<lambda>_. None) 0 demo_env = Some (None, w) \<and>
     length (payloads (tx_calls w)) = 2 \<and> sleeps (tx_calls w) = [1000000, 2000000] \<and>
     (\<exists>out'. ItchParser_parse \<lparr>mv_data = Some (payloads (tx_calls w) ! 1),
         mv_length = of_nat (length (payloads (tx_calls w) ! 1)), mv_timestamp = 9, mv_sequence = 1\<rparr>
         (replicate 2 NormalizedMessage_default) 2 ItchParser_new =
        Some (2, out', ItchParser_new\<lparr>ip_messages_parsed := 2\<rparr>) \<and> unat (nm_sequence (out' ! 1)) = 3 \<and>
        nm_type (out' ! 1) = NM_ORDER_ADD \<and> nm_price (out' ! 1) = 1500000 \<and> nm_quantity (out' ! 1) = 200)"
proof -
  let ?argv = "[''gen'', ''233.54.12.1'', ''20000'', ''1000'', ''2'']"
  have a: "arg_int ?argv 2 20000 = Some 20000" "arg_int ?argv 3 1000 = Some 1000" "arg_int ?argv 4 10 = Some 2"
    by code_simp+
  have "draw_ok (demo_draws ! i)" if "i < 2" for i
    using that by (auto simp: less_Suc_eq numeral_2_eq_2 demo_draws_def draw_ok_def NUM_STOCKS_def)
  then have ok: "\<forall>e\<in>set demo_env. gen_env_ok e" by (simp add: demo_env_def gen_env_ok_def)
  have ready: "nat 2 \<le> unat (2 :: u64)" "unat (2 :: u64) \<le> length (replicate 2 NormalizedMessage_default)"
    "48 * nat 2 < 2 ^ 32" "int_mul 1000 2 \<noteq> None" "(1000 :: int) \<noteq> 0" "(3 :: int) \<noteq> - 1"
    by (simp_all add: int_mul_def)
  from generator_run[OF a ready(4-6) ok ready(1-3), of "\<lambda>_. None" 0 9 1 ItchParser_new]
  show ?thesis
  proof (elim exE conjE, goal_cases)
    case (1 w)
    then show ?case using "1"(4)[rule_format, of 1]
      by (auto simp: demo_env_def send_interval_def upt_rec nth_append length_drawn_messages
          demo_draws_def ItchParser_new_def Let_def)
  qed
qed

end
