(* ===== verification/Subscriber.thy ===== *)
theory Subscriber
  imports Core_Types
begin

text \<open>
  \<open>core/distribution/subscriber.hpp\<close>: the subscriber interface as a record of its virtual methods
  together with the object's own state of type \<open>'s\<close>, and the two adapters the library ships.  A
  callback or lambda is a function of the message and of the data it captured or was given, which
  is not code of the library.
\<close>

section \<open>Definitions\<close>

record 's ISubscriber =
  sub_name :: string
  sub_on_message :: "NormalizedMessage \<Rightarrow> 's \<Rightarrow> bool \<times> 's"
  sub_on_raw_packet :: "MessageView \<Rightarrow> 's \<Rightarrow> 's"
  sub_initialize :: "'s \<Rightarrow> 's"
  sub_shutdown :: "'s \<Rightarrow> 's"
  sub_state :: 's

text \<open>Calls through the interface.\<close>

definition on_message :: "NormalizedMessage \<Rightarrow> 's ISubscriber \<Rightarrow> bool \<times> 's ISubscriber" where
  "on_message msg sub =
     (case sub_on_message sub msg (sub_state sub) of (r, s) \<Rightarrow> (r, sub\<lparr>sub_state := s\<rparr>))"

definition initialize_sub :: "'s ISubscriber \<Rightarrow> 's ISubscriber" where
  "initialize_sub sub = sub\<lparr>sub_state := sub_initialize sub (sub_state sub)\<rparr>"

definition shutdown_sub :: "'s ISubscriber \<Rightarrow> 's ISubscriber" where
  "shutdown_sub sub = sub\<lparr>sub_state := sub_shutdown sub (sub_state sub)\<rparr>"

text \<open>The defaults of the optional methods do nothing.\<close>

definition ISubscriber_defaults ::
  "string \<Rightarrow> (NormalizedMessage \<Rightarrow> 's \<Rightarrow> bool \<times> 's) \<Rightarrow> 's \<Rightarrow> 's ISubscriber" where
  "ISubscriber_defaults nm f s = \<lparr>sub_name = nm, sub_on_message = f,
     sub_on_raw_packet = (\<lambda>view s. s), sub_initialize = (\<lambda>s. s), sub_shutdown = (\<lambda>s. s),
     sub_state = s\<rparr>"

text \<open>\<open>'u\<close> is what \<open>user_data\<close> points to.\<close>

definition CallbackSubscriber ::
  "string \<Rightarrow> (NormalizedMessage \<Rightarrow> 'u \<Rightarrow> bool \<times> 'u) \<Rightarrow> 'u \<Rightarrow> 'u ISubscriber" where
  "CallbackSubscriber name cb user_data =
     ISubscriber_defaults name (\<lambda>msg u. cb msg u) user_data"

definition LambdaSubscriber ::
  "string \<Rightarrow> (NormalizedMessage \<Rightarrow> 'c \<Rightarrow> bool \<times> 'c) \<Rightarrow> 'c \<Rightarrow> 'c ISubscriber" where
  "LambdaSubscriber name func captured =
     ISubscriber_defaults name (\<lambda>msg c. func msg c) captured"

definition make_subscriber ::
  "string \<Rightarrow> (NormalizedMessage \<Rightarrow> 'c \<Rightarrow> bool \<times> 'c) \<Rightarrow> 'c \<Rightarrow> 'c ISubscriber" where
  "make_subscriber name func captured = LambdaSubscriber name func captured"

section \<open>Sequences of deliveries\<close>

text \<open>The subscriber after a sequence of messages, whatever it answered.\<close>

definition deliver_all :: "NormalizedMessage list \<Rightarrow> 's ISubscriber \<Rightarrow> 's ISubscriber" where
  "deliver_all msgs sub = fold (\<lambda>m s. snd (on_message m s)) msgs sub"

lemma deliver_all_simps [simp]:
  "deliver_all [] sub = sub"
  "deliver_all (m # ms) sub = deliver_all ms (snd (on_message m sub))"
  "deliver_all (ms @ ns) sub = deliver_all ns (deliver_all ms sub)"
  by (simp_all add: deliver_all_def)

lemma on_message_methods [simp]:
  "sub_on_message (snd (on_message m sub)) = sub_on_message sub"
  "sub_name (snd (on_message m sub)) = sub_name sub"
  by (simp_all add: on_message_def split: prod.split)

lemma deliver_all_methods [simp]:
  "sub_on_message (deliver_all ms sub) = sub_on_message sub"
  "sub_name (deliver_all ms sub) = sub_name sub"
  by (induction ms arbitrary: sub) simp_all

lemma deliver_all_state:
  "sub_state (deliver_all ms sub) = fold (\<lambda>m s. snd (sub_on_message sub m s)) ms (sub_state sub)"
  by (induction ms arbitrary: sub) (simp_all, simp add: on_message_def split: prod.split)

end
