(* ===== verification/Dispatcher.thy ===== *)
theory Dispatcher
  imports SPSC_Queue Subscriber
begin

text \<open>
  \<open>core/distribution/dispatcher.hpp\<close>: one queue per subscriber, \<open>dispatch\<close> on the parser thread and
  the passes of \<open>dispatch_loop\<close> on the dispatcher thread, each as one thread executes it.  The
  clock is an argument.  The interleaved executions are in \<open>Dispatcher_Concurrent\<close>.
\<close>

section \<open>Definitions\<close>

text \<open>\<open>d_joinable\<close> is \<open>dispatch_thread_.joinable()\<close>: the thread was started and not joined.\<close>

record 's Dispatcher =
  d_subscribers :: "'s ISubscriber list"
  d_queues :: "NormalizedMessage SPSCQueue list"
  d_joinable :: bool
  d_running :: bool
  d_stats :: Statistics

definition Dispatcher_new :: "'s Dispatcher" where
  "Dispatcher_new = \<lparr>d_subscribers = [], d_queues = [], d_joinable = False, d_running = False,
     d_stats = Statistics_init\<rparr>"

definition add_subscriber :: "'s ISubscriber \<Rightarrow> 's Dispatcher \<Rightarrow> 's Dispatcher" where
  "add_subscriber subscriber d = d\<lparr>d_subscribers := d_subscribers d @ [subscriber],
     d_queues := d_queues d @ [SPSCQueue_new DEFAULT_QUEUE_SIZE NormalizedMessage_default]\<rparr>"

definition Dispatcher_start :: "'s Dispatcher \<Rightarrow> 's Dispatcher" where
  "Dispatcher_start d =
     (if d_running d then d
      else let d = d\<lparr>d_subscribers := map initialize_sub (d_subscribers d)\<rparr>;
               d = d\<lparr>d_running := True\<rparr>
           in d\<lparr>d_joinable := True\<rparr>)"

text \<open>\<open>join\<close> returns when the thread's loop has seen \<open>running_ == false\<close>.\<close>

definition Dispatcher_stop :: "'s Dispatcher \<Rightarrow> 's Dispatcher" where
  "Dispatcher_stop d =
     (if \<not> d_running d then d
      else let d = d\<lparr>d_running := False\<rparr>;
               d = (if d_joinable d then d\<lparr>d_joinable := False\<rparr> else d)
           in d\<lparr>d_subscribers := map shutdown_sub (d_subscribers d)\<rparr>)"

text \<open>The range-for of \<open>dispatch\<close> over the queues.\<close>

fun push_all :: "NormalizedMessage \<Rightarrow> NormalizedMessage SPSCQueue list \<Rightarrow> Statistics \<Rightarrow>
    (NormalizedMessage SPSCQueue list \<times> Statistics) option" where
  "push_all msg [] stats = Some ([], stats)"
| "push_all msg (queue # queues) stats = do {
     (ok, queue) \<leftarrow> spsc_push msg queue;
     let stats = (if \<not> ok then stats\<lparr>packets_dropped := packets_dropped stats + 1\<rparr> else stats);
     (queues, stats) \<leftarrow> push_all msg queues stats;
     Some (queue # queues, stats)
   }"

definition dispatch :: "Timestamp \<Rightarrow> NormalizedMessage \<Rightarrow> 's Dispatcher \<Rightarrow> 's Dispatcher option" where
  "dispatch now msg d = do {
     let latency = now - nm_local_timestamp msg;
     (queues, stats) \<leftarrow> push_all msg (d_queues d) (d_stats d);
     let stats = stats\<lparr>messages_dispatched := messages_dispatched stats + 1\<rparr>;
     let stats = update_latency latency stats;
     Some (d\<lparr>d_queues := queues, d_stats := stats\<rparr>)
   }"

definition subscriber_count :: "'s Dispatcher \<Rightarrow> size_t" where
  "subscriber_count d = of_nat (length (d_subscribers d))"

text \<open>
  \<open>while (queue->pop(msg))\<close>: delivers until the queue is empty; the answer of \<open>on_message\<close> is
  ignored.  \<open>None\<close> covers undefined behaviour and a loop that does not end.
\<close>

partial_function (option) drain ::
  "'s ISubscriber \<Rightarrow> NormalizedMessage SPSCQueue \<Rightarrow> bool \<Rightarrow>
    ('s ISubscriber \<times> NormalizedMessage SPSCQueue \<times> bool) option" where
  "drain subscriber queue any_activity =
     Option.bind (spsc_pop queue) (\<lambda>(r, queue').
       case r of None \<Rightarrow> Some (subscriber, queue', any_activity)
       | Some msg \<Rightarrow> drain (snd (on_message msg subscriber)) queue' True)"

text \<open>The \<open>for\<close> loop over the subscribers; \<open>queues_[i]\<close> past the end is undefined behaviour.\<close>

fun drain_all :: "'s ISubscriber list \<Rightarrow> NormalizedMessage SPSCQueue list \<Rightarrow> bool \<Rightarrow>
    ('s ISubscriber list \<times> NormalizedMessage SPSCQueue list \<times> bool) option" where
  "drain_all [] queues any_activity = Some ([], queues, any_activity)"
| "drain_all (sub # subs) [] any_activity = None"
| "drain_all (sub # subs) (queue # queues) any_activity = do {
     (sub, queue, any_activity) \<leftarrow> drain sub queue any_activity;
     (subs, queues, any_activity) \<leftarrow> drain_all subs queues any_activity;
     Some (sub # subs, queue # queues, any_activity)
   }"

text \<open>One iteration of \<open>dispatch_loop\<close> after its test; \<open>False\<close> when the thread yields.\<close>

definition dispatch_pass :: "'s Dispatcher \<Rightarrow> ('s Dispatcher \<times> bool) option" where
  "dispatch_pass d = do {
     (subs, queues, any_activity) \<leftarrow> drain_all (d_subscribers d) (d_queues d) False;
     Some (d\<lparr>d_subscribers := subs, d_queues := queues\<rparr>, any_activity)
   }"

section \<open>Invariant\<close>

definition disp_inv :: "'s Dispatcher \<Rightarrow> bool" where
  "disp_inv d \<longleftrightarrow> length (d_queues d) = length (d_subscribers d) \<and>
     (\<forall>q\<in>set (d_queues d). spsc_inv q \<and> sq_Size q = DEFAULT_QUEUE_SIZE)"

lemma spsc_push_Size: "spsc_push x q = Some (b, q') \<Longrightarrow> sq_Size q' = sq_Size q"
  by (auto simp: spsc_push_def Let_def split: if_splits bind_splits)

lemma spsc_pop_Size: "spsc_pop q = Some (r, q') \<Longrightarrow> sq_Size q' = sq_Size q"
  by (auto simp: spsc_pop_def Let_def split: if_splits bind_splits)

section \<open>Dispatch\<close>

text \<open>What a queue holds after one dispatch.\<close>

definition offered :: "NormalizedMessage \<Rightarrow> NormalizedMessage SPSCQueue \<Rightarrow> NormalizedMessage list" where
  "offered msg q = spsc_contents q @ (if spsc_count q < spsc_cap q then [msg] else [])"

definition full_queues :: "NormalizedMessage SPSCQueue list \<Rightarrow> nat" where
  "full_queues qs = length (filter (\<lambda>q. spsc_count q = spsc_cap q) qs)"

lemma push_all_spec:
  assumes "\<forall>q\<in>set qs. spsc_inv q"
  obtains qs' where "push_all msg qs st =
      Some (qs', st\<lparr>packets_dropped := packets_dropped st + of_nat (full_queues qs)\<rparr>)"
    "\<forall>q\<in>set qs'. spsc_inv q" "map spsc_contents qs' = map (offered msg) qs"
    "map sq_Size qs' = map sq_Size qs"
proof -
  have "\<exists>qs'. push_all msg qs st =
      Some (qs', st\<lparr>packets_dropped := packets_dropped st + of_nat (full_queues qs)\<rparr>) \<and>
      (\<forall>q\<in>set qs'. spsc_inv q) \<and> map spsc_contents qs' = map (offered msg) qs \<and>
      map sq_Size qs' = map sq_Size qs"
    using assms
  proof (induction qs arbitrary: st)
    case Nil
    then show ?case by (simp add: full_queues_def)
  next
    case (Cons q qs)
    then have "spsc_inv q" by simp
    then show ?case
    proof (cases rule: spsc.push_cases[of q msg])
      case full
      then show ?thesis
        using Cons.IH[of "st\<lparr>packets_dropped := packets_dropped st + 1\<rparr>"] Cons.prems
        by (force simp: full_queues_def offered_def algebra_simps)
    next
      case (room q')
      then show ?thesis using Cons.IH[of st] Cons.prems spsc_push_Size[of msg q True q']
        by (force simp: full_queues_def offered_def)
    qed
  qed
  then show ?thesis using that by blast
qed

lemma dispatch_spec:
  assumes "disp_inv d"
  obtains d' where "dispatch now msg d = Some d'" "disp_inv d'"
    "d_subscribers d' = d_subscribers d" "d_running d' = d_running d" "d_joinable d' = d_joinable d"
    "map spsc_contents (d_queues d') = map (offered msg) (d_queues d)"
    "d_stats d' = update_latency (now - nm_local_timestamp msg)
       ((d_stats d)\<lparr>packets_dropped := packets_dropped (d_stats d) + of_nat (full_queues (d_queues d)),
         messages_dispatched := messages_dispatched (d_stats d) + 1\<rparr>)"
proof -
  have qi: "\<forall>q\<in>set (d_queues d). spsc_inv q" using assms by (simp add: disp_inv_def)
  obtain qs' where p: "push_all msg (d_queues d) (d_stats d) = Some (qs', (d_stats d)
      \<lparr>packets_dropped := packets_dropped (d_stats d) + of_nat (full_queues (d_queues d))\<rparr>)"
    "\<forall>q\<in>set qs'. spsc_inv q" "map spsc_contents qs' = map (offered msg) (d_queues d)"
    "map sq_Size qs' = map sq_Size (d_queues d)"
    by (rule push_all_spec[OF qi, of msg "d_stats d"])
  have "sq_Size ` set qs' = sq_Size ` set (d_queues d)" using p(4) by (metis list.set_map)
  then have "\<forall>q\<in>set qs'. sq_Size q = DEFAULT_QUEUE_SIZE"
    using assms unfolding disp_inv_def by (metis (mono_tags, lifting) image_iff)
  moreover have "length qs' = length (d_queues d)" using p(4) by (metis length_map)
  ultimately show ?thesis using p assms
    by (intro that[of "d\<lparr>d_queues := qs', d_stats := _\<rparr>"]) (simp_all add: dispatch_def disp_inv_def)
qed

section \<open>Draining\<close>

lemma drain_spec:
  assumes "spsc_inv q"
  shows "\<exists>q'. drain sub q act = Some (deliver_all (spsc_contents q) sub, q',
      act \<or> spsc_contents q \<noteq> []) \<and> spsc_inv q' \<and> spsc_contents q' = [] \<and> sq_Size q' = sq_Size q"
  using assms
proof (induction "spsc_contents q" arbitrary: q sub act)
  case Nil
  then show ?case
    by (subst drain.simps) (simp add: spsc.pop_empty)
next
  case (Cons m ms)
  obtain q' where q': "spsc_pop q = Some (Some m, q')" "spsc_inv q'" "spsc_contents q' = ms"
    using spsc.pop_Cons[OF Cons.prems Cons.hyps(2)[symmetric]] by blast
  have sz: "sq_Size q' = sq_Size q" using spsc_pop_Size[OF q'(1)] .
  show ?case
    using Cons.hyps(1)[OF q'(3)[symmetric] q'(2), of "snd (on_message m sub)" True]
    by (subst drain.simps) (auto simp: q' sz Cons.hyps(2)[symmetric])
qed

lemma drain_all_spec:
  assumes "length subs = length qs" "\<forall>q\<in>set qs. spsc_inv q"
  shows "\<exists>qs'. drain_all subs qs act =
      Some (map2 (\<lambda>sub q. deliver_all (spsc_contents q) sub) subs qs, qs',
        act \<or> (\<exists>q\<in>set qs. spsc_contents q \<noteq> [])) \<and>
      (\<forall>q\<in>set qs'. spsc_inv q \<and> spsc_contents q = []) \<and> map sq_Size qs' = map sq_Size qs"
  using assms
proof (induction subs qs act rule: drain_all.induct)
  case (3 sub subs q qs act)
  obtain q' where q': "drain sub q act = Some (deliver_all (spsc_contents q) sub, q',
      act \<or> spsc_contents q \<noteq> [])" "spsc_inv q'" "spsc_contents q' = []" "sq_Size q' = sq_Size q"
    using drain_spec 3(3) by (metis list.set_intros(1))
  then show ?case using 3 by fastforce
qed auto

lemma dispatch_pass_spec:
  assumes "disp_inv d"
  shows "\<exists>d' act. dispatch_pass d = Some (d', act) \<and> disp_inv d' \<and>
    d_subscribers d' =
      map2 (\<lambda>sub q. deliver_all (spsc_contents q) sub) (d_subscribers d) (d_queues d) \<and>
    (\<forall>q\<in>set (d_queues d'). spsc_contents q = []) \<and>
    act = (\<exists>q\<in>set (d_queues d). spsc_contents q \<noteq> []) \<and> d_stats d' = d_stats d"
proof -
  have "length (d_subscribers d) = length (d_queues d)" "\<forall>q\<in>set (d_queues d). spsc_inv q"
    using assms by (simp_all add: disp_inv_def)
  from drain_all_spec[OF this, of False] obtain qs' where
    da: "drain_all (d_subscribers d) (d_queues d) False =
      Some (map2 (\<lambda>sub q. deliver_all (spsc_contents q) sub) (d_subscribers d) (d_queues d), qs',
        \<exists>q\<in>set (d_queues d). spsc_contents q \<noteq> [])"
    and q: "\<forall>q\<in>set qs'. spsc_inv q \<and> spsc_contents q = []" "map sq_Size qs' = map sq_Size (d_queues d)"
    by auto
  have "sq_Size ` set qs' = sq_Size ` set (d_queues d)" using q(2) by (metis list.set_map)
  then have "\<forall>q\<in>set qs'. sq_Size q = DEFAULT_QUEUE_SIZE"
    using assms unfolding disp_inv_def by (metis (mono_tags, lifting) image_iff)
  moreover have "length qs' = length (d_queues d)" using q(2) by (metis length_map)
  ultimately show ?thesis using da q(1) assms by (simp add: dispatch_pass_def disp_inv_def)
qed

section \<open>Construction\<close>

lemma disp_inv_new [simp]: "disp_inv Dispatcher_new"
  by (simp add: disp_inv_def Dispatcher_new_def)

lemma disp_inv_add_subscriber [simp]: "disp_inv d \<Longrightarrow> disp_inv (add_subscriber sub d)"
  using spsc_new(1)[of DEFAULT_QUEUE_SIZE NormalizedMessage_default]
  by (auto simp: disp_inv_def add_subscriber_def SPSCQueue_new_def)

lemma disp_inv_start [simp]: "disp_inv (Dispatcher_start d) = disp_inv d"
  by (simp add: disp_inv_def Dispatcher_start_def)

lemma disp_inv_stop [simp]: "disp_inv (Dispatcher_stop d) = disp_inv d"
  by (simp add: disp_inv_def Dispatcher_stop_def Let_def)

lemma fresh_queue:
  "spsc_contents (SPSCQueue_new DEFAULT_QUEUE_SIZE x) = []"
  "spsc_count (SPSCQueue_new DEFAULT_QUEUE_SIZE x) = 0"
  "spsc_cap (SPSCQueue_new DEFAULT_QUEUE_SIZE x) = 65535"
  by (simp_all add: spsc_contents_def spsc_count_def spsc_cap_def SPSCQueue_new_def ring_slice_def)

section \<open>Properties\<close>

text \<open>
  A call of \<open>dispatch\<close> returns whatever the queues hold, appends the message to every queue
  with a free slot and leaves every full queue as it is; it counts one dropped packet per full
  queue and one dispatched message, records the latency, keeps the invariant and touches no
  subscriber.
\<close>

theorem dispatch_broadcasts:
  assumes "disp_inv d"
  shows "\<exists>d'. dispatch now msg d = Some d' \<and> disp_inv d' \<and> d_subscribers d' = d_subscribers d \<and>
    map spsc_contents (d_queues d') = map (\<lambda>q. spsc_contents q @
      (if length (spsc_contents q) < spsc_cap q then [msg] else [])) (d_queues d) \<and>
    packets_dropped (d_stats d') = packets_dropped (d_stats d) +
      of_nat (length (filter (\<lambda>q. length (spsc_contents q) = spsc_cap q) (d_queues d))) \<and>
    messages_dispatched (d_stats d') = messages_dispatched (d_stats d) + 1 \<and>
    total_latency_ns (d_stats d') = total_latency_ns (d_stats d) + (now - nm_local_timestamp msg)"
  by (rule dispatch_spec[OF assms, of now msg]) (simp add: offered_def full_queues_def)

theorem dispatch_broadcasts_witness:
  "\<exists>d'. dispatch 9 NormalizedMessage_default
     (add_subscriber (LambdaSubscriber ''s'' (\<lambda>m s. (True, s)) ()) Dispatcher_new) = Some d' \<and>
     map spsc_contents (d_queues d') = [[NormalizedMessage_default]] \<and>
     packets_dropped (d_stats d') = 0 \<and> messages_dispatched (d_stats d') = 1"
  using dispatch_broadcasts[OF disp_inv_add_subscriber[OF disp_inv_new],
      of 9 NormalizedMessage_default "LambdaSubscriber ''s'' (\<lambda>m s. (True, s)) ()"]
  by (auto simp: add_subscriber_def Dispatcher_new_def fresh_queue Statistics_init_def)

text \<open>
  C23: a pass of \<open>dispatch_loop\<close> that no dispatch overlaps ends, hands every subscriber exactly the
  messages of its own queue, oldest first, leaves every queue empty and reports activity exactly
  when some queue held a message; a subscriber that answers \<open>false\<close> keeps receiving.
\<close>

theorem dispatch_pass_delivers:
  assumes "disp_inv d"
  shows "\<exists>d' act. dispatch_pass d = Some (d', act) \<and> disp_inv d' \<and>
    d_subscribers d' =
      map2 (\<lambda>sub q. deliver_all (spsc_contents q) sub) (d_subscribers d) (d_queues d) \<and>
    (\<forall>q\<in>set (d_queues d'). spsc_contents q = []) \<and>
    act = (\<exists>q\<in>set (d_queues d). spsc_contents q \<noteq> []) \<and> d_stats d' = d_stats d"
  using dispatch_pass_spec[OF assms] .

theorem dispatch_pass_delivers_witness:
  "\<exists>d' act. dispatch_pass
     (add_subscriber (LambdaSubscriber ''s'' (\<lambda>m s. (True, s)) ()) Dispatcher_new) = Some (d', act) \<and>
     \<not> act \<and> (\<forall>q\<in>set (d_queues d'). spsc_contents q = [])"
  using dispatch_pass_delivers[OF disp_inv_add_subscriber[OF disp_inv_new],
      of "LambdaSubscriber ''s'' (\<lambda>m s. (True, s)) ()"]
  by (auto simp: add_subscriber_def Dispatcher_new_def fresh_queue)

end
