(* ===== verification/Udp_Receiver.thy ===== *)
theory Udp_Receiver
  imports SPSC_Queue Core_Types "HOL-Library.Sublist"
begin

text \<open>
  \<open>core/network/udp_receiver.hpp\<close> (the POSIX branch).  The operating system is a parameter: the
  results of \<open>socket\<close>, \<open>bind\<close> and the membership \<open>setsockopt\<close> and the addresses
  \<open>inet_pton\<close> writes are arguments of \<open>initialize\<close>, the result of \<open>recvfrom\<close> and the buffer it
  leaves are arguments of an iteration of \<open>receive_loop\<close>, and the system calls the receiver makes are
  recorded in order in \<open>ur_calls\<close>.
\<close>

section \<open>Definitions\<close>

record Packet =
  pk_data :: bytes
  pk_length :: u32
  pk_timestamp :: Timestamp

text \<open>\<open>Packet()\<close> leaves \<open>data\<close> uninitialised: \<open>junk\<close> is what the memory holds.\<close>

definition Packet_new :: "bytes \<Rightarrow> Packet" where
  "Packet_new junk = \<lparr>pk_data = junk, pk_length = 0, pk_timestamp = 0\<rparr>"

record UDPConfig =
  uc_interface_ip :: string
  uc_multicast_group :: string
  uc_port :: u16
  uc_buffer_size :: size_t
  uc_enable_timestamps :: bool

definition UDPConfig_default :: UDPConfig where
  "UDPConfig_default = \<lparr>uc_interface_ip = ''0.0.0.0'', uc_multicast_group = ''239.1.1.1'',
     uc_port = 10000, uc_buffer_size = of_nat MAX_PACKET_SIZE * 1024, uc_enable_timestamps = True\<rparr>"

datatype sockopt = Reuseaddr int | Rcvbuf int | Timestamps int | Add_membership u32 u32

datatype syscall = Sys_socket int | Sys_setsockopt int sockopt | Sys_bind int u16 | Sys_close int

record OS =
  os_socket :: int
  os_bind :: int
  os_join :: int
  os_inet_pton :: "string \<Rightarrow> u32 option"

record UDPReceiver =
  ur_config :: UDPConfig
  ur_running :: bool
  ur_socket_fd :: int
  ur_packet_queue :: "Packet SPSCQueue"
  ur_current_packet :: Packet
  ur_sequence :: u32
  ur_joinable :: bool
  ur_stats :: Statistics
  ur_calls :: "syscall list"

definition UDPReceiver_new :: "UDPConfig \<Rightarrow> bytes \<Rightarrow> UDPReceiver" where
  "UDPReceiver_new config junk = \<lparr>ur_config = config, ur_running = False, ur_socket_fd = - 1,
     ur_packet_queue = SPSCQueue_new PACKET_RING_SIZE (Packet_new junk),
     ur_current_packet = Packet_new junk, ur_sequence = 0, ur_joinable = False,
     ur_stats = Statistics_init, ur_calls = []\<rparr>"

definition sys :: "syscall \<Rightarrow> UDPReceiver \<Rightarrow> UDPReceiver" where
  "sys c r = r\<lparr>ur_calls := ur_calls r @ [c]\<rparr>"

text \<open>\<open>mreq{}\<close> is zeroed; \<open>inet_pton\<close> writes the address when it can parse the string.\<close>

definition inet_addr :: "OS \<Rightarrow> string \<Rightarrow> u32" where
  "inet_addr os s = (case os_inet_pton os s of None \<Rightarrow> 0 | Some a \<Rightarrow> a)"

definition UDPReceiver_initialize :: "OS \<Rightarrow> UDPReceiver \<Rightarrow> bool \<times> UDPReceiver" where
  "UDPReceiver_initialize os r =
     (let r = (sys (Sys_socket (os_socket os)) r)\<lparr>ur_socket_fd := os_socket os\<rparr>
      in if ur_socket_fd r < 0 then (False, r)
      else let
        r = sys (Sys_setsockopt (ur_socket_fd r) (Reuseaddr 1)) r;
        bufsize = sint (ucast (uc_buffer_size (ur_config r)) :: 32 word);
        r = sys (Sys_setsockopt (ur_socket_fd r) (Rcvbuf bufsize)) r;
        r = (if uc_enable_timestamps (ur_config r)
             then sys (Sys_setsockopt (ur_socket_fd r) (Timestamps 1)) r else r);
        r = sys (Sys_bind (ur_socket_fd r) (uc_port (ur_config r))) r
      in if os_bind os < 0
         then (False, (sys (Sys_close (ur_socket_fd r)) r)\<lparr>ur_socket_fd := - 1\<rparr>)
      else let
        r = sys (Sys_setsockopt (ur_socket_fd r)
              (Add_membership (inet_addr os (uc_multicast_group (ur_config r)))
                (inet_addr os (uc_interface_ip (ur_config r))))) r
      in if os_join os < 0
         then (False, (sys (Sys_close (ur_socket_fd r)) r)\<lparr>ur_socket_fd := - 1\<rparr>)
      else (True, r))"

definition UDPReceiver_start :: "UDPReceiver \<Rightarrow> UDPReceiver" where
  "UDPReceiver_start r =
     (if ur_running r \<or> ur_socket_fd r < 0 then r
      else r\<lparr>ur_running := True, ur_joinable := True\<rparr>)"

definition UDPReceiver_stop :: "UDPReceiver \<Rightarrow> UDPReceiver" where
  "UDPReceiver_stop r =
     (if \<not> ur_running r then r
      else let r = r\<lparr>ur_running := False\<rparr>;
               r = (if ur_joinable r then r\<lparr>ur_joinable := False\<rparr> else r)
           in if ur_socket_fd r \<ge> 0
              then (sys (Sys_close (ur_socket_fd r)) r)\<lparr>ur_socket_fd := - 1\<rparr> else r)"

text \<open>The destructor.\<close>

definition UDPReceiver_destroy :: "UDPReceiver \<Rightarrow> UDPReceiver" where
  "UDPReceiver_destroy r = UDPReceiver_stop r"

definition read_packet ::
  "MessageView \<Rightarrow> UDPReceiver \<Rightarrow> (bool \<times> MessageView \<times> UDPReceiver) option" where
  "read_packet view r = do {
     (res, q) \<leftarrow> spsc_pop (ur_packet_queue r);
     case res of
       None \<Rightarrow> Some (False, view, r\<lparr>ur_packet_queue := q\<rparr>)
     | Some pk \<Rightarrow>
         let r = r\<lparr>ur_packet_queue := q, ur_current_packet := pk\<rparr>;
             view = view\<lparr>mv_data := Some (pk_data (ur_current_packet r))\<rparr>;
             view = view\<lparr>mv_length := pk_length (ur_current_packet r)\<rparr>;
             view = view\<lparr>mv_timestamp := pk_timestamp (ur_current_packet r)\<rparr>;
             view = view\<lparr>mv_sequence := ur_sequence r\<rparr>;
             r = r\<lparr>ur_sequence := ur_sequence r + 1\<rparr>
         in Some (True, view, r)
   }"

definition has_packets :: "UDPReceiver \<Rightarrow> bool" where
  "has_packets r \<longleftrightarrow> \<not> spsc_empty (ur_packet_queue r)"

text \<open>
  One iteration of \<open>receive_loop\<close>: \<open>recvfrom\<close> returned \<open>received\<close> and left \<open>buf\<close> in
  \<open>packet.data\<close>; \<open>now\<close> is the clock.
\<close>

definition receive_iteration ::
  "int \<Rightarrow> bytes \<Rightarrow> Timestamp \<Rightarrow> Packet \<Rightarrow> UDPReceiver \<Rightarrow> (Packet \<times> UDPReceiver) option" where
  "receive_iteration received buf now packet r =
     (let packet = packet\<lparr>pk_data := buf\<rparr> in
      if received > 0 then do {
        let packet = packet\<lparr>pk_length := word_of_int received\<rparr>;
        let packet = packet\<lparr>pk_timestamp := now\<rparr>;
        (ok, q) \<leftarrow> spsc_push packet (ur_packet_queue r);
        let r = r\<lparr>ur_packet_queue := q\<rparr>;
        let st = ur_stats r;
        Some (packet, r\<lparr>ur_stats :=
          (if ok then st\<lparr>packets_received := packets_received st + 1\<rparr>
           else st\<lparr>packets_dropped := packets_dropped st + 1\<rparr>)\<rparr>)
      }
      else Some (packet, r))"

text \<open>
  What POSIX promises of \<open>recvfrom\<close> on a buffer of \<open>MAX_PACKET_SIZE\<close> bytes: at most that many
  bytes are reported, and the buffer keeps its size.
\<close>

definition recv_ok :: "int \<Rightarrow> bytes \<Rightarrow> bool" where
  "recv_ok received buf \<longleftrightarrow> received \<le> int MAX_PACKET_SIZE \<and> length buf = MAX_PACKET_SIZE"

section \<open>File descriptors\<close>

text \<open>The descriptors a sequence of calls has opened and not closed.\<close>

fun open_fds :: "syscall list \<Rightarrow> int list" where
  "open_fds [] = []"
| "open_fds (Sys_socket fd # cs) =
     (if fd < 0 \<or> Sys_close fd \<in> set cs then open_fds cs else fd # open_fds cs)"
| "open_fds (c # cs) = open_fds cs"

lemma sys_fields [simp]:
  "ur_config (sys c r) = ur_config r" "ur_running (sys c r) = ur_running r"
  "ur_socket_fd (sys c r) = ur_socket_fd r" "ur_packet_queue (sys c r) = ur_packet_queue r"
  "ur_current_packet (sys c r) = ur_current_packet r" "ur_sequence (sys c r) = ur_sequence r"
  "ur_joinable (sys c r) = ur_joinable r" "ur_stats (sys c r) = ur_stats r"
  "ur_calls (sys c r) = ur_calls r @ [c]"
  by (simp_all add: sys_def)

definition fd_neutral :: "syscall list \<Rightarrow> bool" where
  "fd_neutral cs \<longleftrightarrow> (\<forall>fd. Sys_socket fd \<notin> set cs \<and> Sys_close fd \<notin> set cs)"

lemma open_fds_neutral:
  "fd_neutral cs \<Longrightarrow> open_fds cs = []"
  "fd_neutral cs \<Longrightarrow> open_fds (cs @ ds) = open_fds ds"
  by (induction cs rule: open_fds.induct) (auto simp: fd_neutral_def)

text \<open>The calls of a successful initialisation after \<open>socket\<close>.\<close>

definition setup_calls :: "OS \<Rightarrow> UDPConfig \<Rightarrow> int \<Rightarrow> syscall list" where
  "setup_calls os c fd =
     [Sys_setsockopt fd (Reuseaddr 1),
      Sys_setsockopt fd (Rcvbuf (sint (ucast (uc_buffer_size c) :: 32 word)))] @
     (if uc_enable_timestamps c then [Sys_setsockopt fd (Timestamps 1)] else []) @
     [Sys_bind fd (uc_port c),
      Sys_setsockopt fd (Add_membership (inet_addr os (uc_multicast_group c))
        (inet_addr os (uc_interface_ip c)))]"

lemma setup_calls_neutral: "fd_neutral (setup_calls os c fd)"
  by (simp add: fd_neutral_def setup_calls_def)

lemma initialize_success:
  assumes "0 \<le> os_socket os" "0 \<le> os_bind os" "0 \<le> os_join os"
  shows "UDPReceiver_initialize os r = (True, r\<lparr>ur_socket_fd := os_socket os, ur_calls :=
    ur_calls r @ Sys_socket (os_socket os) # setup_calls os (ur_config r) (os_socket os)\<rparr>)"
  using assms by (simp add: UDPReceiver_initialize_def Let_def sys_def setup_calls_def)

section \<open>Invariant\<close>

text \<open>Every queued packet holds between 1 and \<open>MAX_PACKET_SIZE\<close> bytes of its buffer.\<close>

definition packet_ok :: "Packet \<Rightarrow> bool" where
  "packet_ok pk \<longleftrightarrow> length (pk_data pk) = MAX_PACKET_SIZE \<and> 0 < pk_length pk \<and>
     unat (pk_length pk) \<le> MAX_PACKET_SIZE"

definition rx_inv :: "UDPReceiver \<Rightarrow> bool" where
  "rx_inv r \<longleftrightarrow> spsc_inv (ur_packet_queue r) \<and> spsc_cap (ur_packet_queue r) = 16383 \<and>
     (\<forall>pk\<in>set (spsc_contents (ur_packet_queue r)). packet_ok pk)"

definition rx_queue :: "UDPReceiver \<Rightarrow> Packet list" where
  "rx_queue r = spsc_contents (ur_packet_queue r)"

text \<open>The packet an iteration queues.\<close>

definition received_packet :: "int \<Rightarrow> bytes \<Rightarrow> Timestamp \<Rightarrow> Packet" where
  "received_packet received buf now =
     \<lparr>pk_data = buf, pk_length = word_of_int received, pk_timestamp = now\<rparr>"

definition packet_view :: "Packet \<Rightarrow> u32 \<Rightarrow> MessageView" where
  "packet_view pk seq = \<lparr>mv_data = Some (pk_data pk), mv_length = pk_length pk,
     mv_timestamp = pk_timestamp pk, mv_sequence = seq\<rparr>"

lemma received_packet_ok:
  assumes "recv_ok received buf" "0 < received"
  shows "packet_ok (received_packet received buf now)"
    "unat (pk_length (received_packet received buf now)) = nat received"
proof -
  have "unat (word_of_int received :: u32) = nat received"
    using assms by (simp add: recv_ok_def MAX_PACKET_SIZE_def unsigned_of_int take_bit_int_eq_self)
  then show "packet_ok (received_packet received buf now)"
    "unat (pk_length (received_packet received buf now)) = nat received"
    using assms by (auto simp: packet_ok_def recv_ok_def received_packet_def word_less_nat_alt)
qed

lemma packet_view_ok: "packet_ok pk \<Longrightarrow> view_ok (packet_view pk sq) \<and> is_valid (packet_view pk sq)"
  by (simp add: packet_ok_def view_ok_def is_valid_def packet_view_def)

lemma rx_inv_new:
  "rx_inv (UDPReceiver_new config junk)" "rx_queue (UDPReceiver_new config junk) = []"
  by (simp_all add: rx_inv_def rx_queue_def UDPReceiver_new_def spsc_new)

lemma new_fields:
  "ur_sequence (UDPReceiver_new config junk) = 0"
  "ur_stats (UDPReceiver_new config junk) = Statistics_init"
  by (simp_all add: UDPReceiver_new_def)

lemma receive_iteration_spec:
  assumes "rx_inv r" "recv_ok received buf"
  shows "\<exists>pk' r'. receive_iteration received buf now pk r = Some (pk', r') \<and> rx_inv r' \<and>
    rx_queue r' = rx_queue r @ (if 0 < received \<and> length (rx_queue r) < 16383
      then [received_packet received buf now] else []) \<and>
    r' = r\<lparr>ur_packet_queue := ur_packet_queue r', ur_stats := (if 0 < received
      then (if length (rx_queue r) < 16383
        then (ur_stats r)\<lparr>packets_received := packets_received (ur_stats r) + 1\<rparr>
        else (ur_stats r)\<lparr>packets_dropped := packets_dropped (ur_stats r) + 1\<rparr>)
      else ur_stats r)\<rparr>"
proof (cases "0 < received")
  case True
  let ?q = "ur_packet_queue r"
  have pk: "pk\<lparr>pk_data := buf, pk_length := word_of_int received, pk_timestamp := now\<rparr> =
      received_packet received buf now" by (simp add: received_packet_def)
  have inv: "spsc_inv ?q" and cap: "spsc_cap ?q = 16383" using assms by (simp_all add: rx_inv_def)
  obtain ok q where push: "spsc_push (received_packet received buf now) ?q = Some (ok, q)"
    using spsc.push_no_ub[OF inv] by fastforce
  note p = spsc.push_SomeD[OF inv push]
  show ?thesis
    using True assms(1) p cap received_packet_ok(1)[OF assms(2) True, of now]
    by (auto simp: receive_iteration_def Let_def pk push rx_inv_def rx_queue_def)
next
  case False
  then show ?thesis using assms(1) by (simp add: receive_iteration_def)
qed

lemma receive_iteration_room:
  assumes "rx_inv r" "recv_ok received buf" "0 < received" "length (rx_queue r) < 16383"
  shows "\<exists>pk' r'. receive_iteration received buf now pk r = Some (pk', r') \<and> rx_inv r' \<and>
    rx_queue r' = rx_queue r @ [received_packet received buf now] \<and>
    ur_sequence r' = ur_sequence r \<and>
    ur_stats r' = (ur_stats r)\<lparr>packets_received := packets_received (ur_stats r) + 1\<rparr>"
proof -
  obtain pk' r' where it: "receive_iteration received buf now pk r = Some (pk', r')" "rx_inv r'"
    "rx_queue r' = rx_queue r @ [received_packet received buf now]"
    and r': "r' = r\<lparr>ur_packet_queue := ur_packet_queue r', ur_stats :=
      (ur_stats r)\<lparr>packets_received := packets_received (ur_stats r) + 1\<rparr>\<rparr>"
    using receive_iteration_spec[OF assms(1,2), of now pk] assms(3,4) by auto
  have "ur_sequence r' = ur_sequence r"
    "ur_stats r' = (ur_stats r)\<lparr>packets_received := packets_received (ur_stats r) + 1\<rparr>"
    by (subst r', simp)+
  with it show ?thesis by blast
qed

lemma read_packet_empty:
  assumes "rx_inv r" "rx_queue r = []"
  shows "read_packet view r = Some (False, view, r)"
  using assms spsc.pop_empty[of "ur_packet_queue r"]
  by (simp add: read_packet_def rx_inv_def rx_queue_def)

lemma read_packet_item:
  assumes "rx_inv r" "rx_queue r = pk # pks"
  shows "\<exists>r'. read_packet view r = Some (True, packet_view pk (ur_sequence r), r') \<and> rx_inv r' \<and>
    rx_queue r' = pks \<and> packet_ok pk \<and> r' = r\<lparr>ur_packet_queue := ur_packet_queue r',
      ur_current_packet := pk, ur_sequence := ur_sequence r + 1\<rparr>"
proof -
  have inv: "spsc_inv (ur_packet_queue r)" using assms by (simp add: rx_inv_def)
  obtain q where "spsc_pop (ur_packet_queue r) = Some (Some pk, q)" "spsc_inv q"
    "spsc_contents q = pks" "spsc_cap q = spsc_cap (ur_packet_queue r)"
    using spsc.pop_Cons[OF inv] assms(2) unfolding rx_queue_def by metis
  with assms show ?thesis
    by (auto simp: read_packet_def rx_inv_def rx_queue_def packet_view_def)
qed

section \<open>Sequences of receptions and reads\<close>

datatype rx_op = Recv int bytes Timestamp | Read

text \<open>The views that successful reads return, in order.\<close>

fun rx_run :: "rx_op list \<Rightarrow> Packet \<Rightarrow> MessageView \<Rightarrow> UDPReceiver \<Rightarrow>
    (MessageView list \<times> UDPReceiver) option" where
  "rx_run [] packet view r = Some ([], r)"
| "rx_run (Recv received buf now # ops) packet view r = do {
     (packet, r) \<leftarrow> receive_iteration received buf now packet r;
     rx_run ops packet view r
   }"
| "rx_run (Read # ops) packet view r = do {
     (ok, view, r) \<leftarrow> read_packet view r;
     (views, r) \<leftarrow> rx_run ops packet view r;
     Some (if ok then view # views else views, r)
   }"

fun rx_offered :: "rx_op list \<Rightarrow> Packet list" where
  "rx_offered [] = []"
| "rx_offered (Recv n buf now # ops) =
     (if 0 < n then received_packet n buf now # rx_offered ops else rx_offered ops)"
| "rx_offered (Read # ops) = rx_offered ops"

fun rx_op_ok :: "rx_op \<Rightarrow> bool" where
  "rx_op_ok (Recv n buf now) = recv_ok n buf"
| "rx_op_ok Read = True"

fun views_from :: "u32 \<Rightarrow> Packet list \<Rightarrow> MessageView list" where
  "views_from sq [] = []"
| "views_from sq (pk # pks) = packet_view pk sq # views_from (sq + 1) pks"

lemma views_from_nth: "i < length pks \<Longrightarrow> views_from sq pks ! i = packet_view (pks ! i) (sq + of_nat i)"
  by (induction sq pks arbitrary: i rule: views_from.induct) (auto simp: nth_Cons' of_nat_diff)

lemma length_views_from [simp]: "length (views_from sq pks) = length pks"
  by (induction sq pks rule: views_from.induct) simp_all

text \<open>
  What a run from \<open>r\<close> amounts to: the packets \<open>pks\<close> read and \<open>acc\<close> accepted, of those offered.
\<close>

definition rx_run_ok :: "Packet list \<Rightarrow> UDPReceiver \<Rightarrow> (MessageView list \<times> UDPReceiver) option \<Rightarrow> bool" where
  "rx_run_ok offered r result \<longleftrightarrow> (\<exists>pks acc r'. result = Some (views_from (ur_sequence r) pks, r') \<and> rx_inv r' \<and>
     rx_queue r @ acc = pks @ rx_queue r' \<and> subseq acc offered \<and> (\<forall>pk\<in>set pks. packet_ok pk) \<and>
     packets_received (ur_stats r') = packets_received (ur_stats r) + of_nat (length acc) \<and>
     packets_dropped (ur_stats r') = packets_dropped (ur_stats r) + of_nat (length offered - length acc))"

lemma rx_run_ok_recv:
  assumes "rx_inv r" "recv_ok n buf"
    and ih: "\<And>pk' r1. receive_iteration n buf now packet r = Some (pk', r1) \<Longrightarrow> rx_inv r1 \<Longrightarrow>
      rx_run_ok (rx_offered ops) r1 (rx_run ops pk' view r1)"
  shows "rx_run_ok (rx_offered (Recv n buf now # ops)) r (rx_run (Recv n buf now # ops) packet view r)"
proof -
  let ?accept = "0 < n \<and> length (rx_queue r) < 16383"
  obtain pk' r1 where it: "receive_iteration n buf now packet r = Some (pk', r1)" "rx_inv r1"
    and q1: "rx_queue r1 = rx_queue r @ (if ?accept then [received_packet n buf now] else [])"
    and r1: "r1 = r\<lparr>ur_packet_queue := ur_packet_queue r1, ur_stats := (if 0 < n
      then (if length (rx_queue r) < 16383
        then (ur_stats r)\<lparr>packets_received := packets_received (ur_stats r) + 1\<rparr>
        else (ur_stats r)\<lparr>packets_dropped := packets_dropped (ur_stats r) + 1\<rparr>)
      else ur_stats r)\<rparr>"
    using receive_iteration_spec[OF assms(1), of n buf now packet] assms(2) by auto
  have f: "ur_sequence r1 = ur_sequence r"
    "packets_received (ur_stats r1) = packets_received (ur_stats r) + of_bool ?accept"
    "packets_dropped (ur_stats r1) = packets_dropped (ur_stats r) + of_bool (0 < n \<and> \<not> ?accept)"
    by (subst r1, simp)+
  obtain pks acc r' where run: "rx_run ops pk' view r1 = Some (views_from (ur_sequence r) pks, r')" "rx_inv r'"
    "rx_queue r1 @ acc = pks @ rx_queue r'" "subseq acc (rx_offered ops)" "\<forall>pk\<in>set pks. packet_ok pk"
    "packets_received (ur_stats r') = packets_received (ur_stats r1) + of_nat (length acc)"
    "packets_dropped (ur_stats r') =
       packets_dropped (ur_stats r1) + of_nat (length (rx_offered ops) - length acc)"
    using ih[OF it] unfolding rx_run_ok_def f(1) by auto
  define acc' where "acc' = (if ?accept then received_packet n buf now # acc else acc)"
  have "rx_queue r @ acc' = pks @ rx_queue r'" using run(3) by (auto simp: q1 acc'_def split: if_splits)
  moreover have "length acc \<le> length (rx_offered ops)" using list_emb_length[OF run(4)] .
  ultimately show ?thesis using run it(1) unfolding rx_run_ok_def
    by (intro exI[of _ pks] exI[of _ acc'] exI[of _ r'])
      (auto simp: acc'_def f Suc_diff_le algebra_simps)
qed

lemma rx_run_ok_read:
  assumes "rx_inv r"
    and ih: "\<And>ok view' r1. read_packet view r = Some (ok, view', r1) \<Longrightarrow> rx_inv r1 \<Longrightarrow>
      rx_run_ok (rx_offered ops) r1 (rx_run ops packet view' r1)"
  shows "rx_run_ok (rx_offered (Read # ops)) r (rx_run (Read # ops) packet view r)"
proof (cases "rx_queue r")
  case Nil
  then have rd: "read_packet view r = Some (False, view, r)" using read_packet_empty assms(1) by blast
  with ih[OF rd assms(1)] Nil show ?thesis by (auto simp: rx_run_ok_def)
next
  case (Cons pk rest)
  obtain r1 where rd: "read_packet view r = Some (True, packet_view pk (ur_sequence r), r1)"
    "rx_inv r1" "rx_queue r1 = rest" "packet_ok pk"
    and r1: "r1 = r\<lparr>ur_packet_queue := ur_packet_queue r1, ur_current_packet := pk,
      ur_sequence := ur_sequence r + 1\<rparr>"
    using read_packet_item[OF assms(1) Cons, of view] by blast
  have f: "ur_sequence r1 = ur_sequence r + 1" "ur_stats r1 = ur_stats r" by (subst r1, simp)+
  obtain pks acc r' where "rx_run ops packet (packet_view pk (ur_sequence r)) r1 =
      Some (views_from (ur_sequence r + 1) pks, r')" "rx_inv r'" "rest @ acc = pks @ rx_queue r'"
    "subseq acc (rx_offered ops)" "\<forall>pk\<in>set pks. packet_ok pk"
    "packets_received (ur_stats r') = packets_received (ur_stats r) + of_nat (length acc)"
    "packets_dropped (ur_stats r') =
       packets_dropped (ur_stats r) + of_nat (length (rx_offered ops) - length acc)"
    using ih[OF rd(1,2)] unfolding rx_run_ok_def f rd(3) by auto
  with rd(1,4) Cons show ?thesis unfolding rx_run_ok_def
    by (intro exI[of _ "pk # pks"] exI[of _ acc] exI[of _ r']) simp
qed

lemma rx_run_spec:
  assumes "rx_inv r" "\<forall>p\<in>set ops. rx_op_ok p"
  shows "rx_run_ok (rx_offered ops) r (rx_run ops packet view r)"
  using assms
proof (induction ops arbitrary: packet view r)
  case Nil
  then show ?case by (auto simp: rx_run_ok_def intro!: exI[of _ "[]"])
next
  case (Cons p ops)
  then show ?case by (cases p) (auto intro!: rx_run_ok_recv rx_run_ok_read simp del: rx_run.simps rx_offered.simps)
qed

section \<open>Properties\<close>

text \<open>
  C14: for every interleaving of receptions and reads on a fresh receiver, with \<open>recvfrom\<close>
  reporting at most the buffer size, no call has undefined behaviour; the accepted packets are a
  subsequence of the received ones, the reads return the accepted packets in that order, the i-th
  read with sequence number i, each as a valid view inside its packet; and \<open>packets_received\<close> and
  \<open>packets_dropped\<close> count the accepted and the refused packets.
\<close>

theorem receiver_fifo:
  assumes "\<forall>p\<in>set ops. rx_op_ok p"
  shows "\<exists>views acc r'. rx_run ops packet view (UDPReceiver_new config junk) = Some (views, r') \<and>
    subseq acc (rx_offered ops) \<and> length views \<le> length acc \<and>
    rx_queue r' = drop (length views) acc \<and>
    (\<forall>i<length views. views ! i = packet_view (acc ! i) (of_nat i) \<and> view_ok (views ! i) \<and>
      is_valid (views ! i)) \<and>
    packets_received (ur_stats r') = of_nat (length acc) \<and>
    packets_dropped (ur_stats r') = of_nat (length (rx_offered ops) - length acc)"
proof -
  let ?r = "UDPReceiver_new config junk"
  have f: "ur_sequence ?r = 0" "packets_received (ur_stats ?r) = 0" "packets_dropped (ur_stats ?r) = 0"
    by (simp_all add: UDPReceiver_new_def Statistics_init_def)
  obtain pks acc r' where r: "rx_run ops packet view ?r = Some (views_from 0 pks, r')"
    "acc = pks @ rx_queue r'" "subseq acc (rx_offered ops)" "\<forall>pk\<in>set pks. packet_ok pk"
    "packets_received (ur_stats r') = of_nat (length acc)"
    "packets_dropped (ur_stats r') = of_nat (length (rx_offered ops) - length acc)"
    using rx_run_spec[OF rx_inv_new(1) assms, of config junk packet view]
    unfolding rx_run_ok_def f rx_inv_new(2) by auto
  have "\<forall>i<length pks. views_from 0 pks ! i = packet_view (acc ! i) (of_nat i) \<and>
      view_ok (views_from 0 pks ! i) \<and> is_valid (views_from 0 pks ! i)"
    using r(2,4) packet_view_ok by (simp add: views_from_nth nth_append)
  moreover have "rx_queue r' = drop (length pks) acc" "length pks \<le> length acc" using r(2) by simp_all
  ultimately show ?thesis using r(1,3,5,6)
    by (intro exI[of _ "views_from 0 pks"] exI[of _ acc] exI[of _ r'] conjI)
      (simp_all only: length_views_from)
qed

theorem receiver_fifo_witness:
  "\<exists>views acc r'. rx_run [Recv 3 (replicate MAX_PACKET_SIZE 7) 100, Read, Recv (- 1) (replicate MAX_PACKET_SIZE 0) 101, Read]
      (Packet_new []) MessageView_default (UDPReceiver_new UDPConfig_default []) = Some (views, r') \<and>
     subseq acc [received_packet 3 (replicate MAX_PACKET_SIZE 7) 100] \<and> length views \<le> length acc \<and>
     packets_received (ur_stats r') = of_nat (length acc)"
proof -
  let ?ops = "[Recv 3 (replicate MAX_PACKET_SIZE 7) 100, Read,
    Recv (- 1) (replicate MAX_PACKET_SIZE 0) 101, Read]"
  have "\<forall>p\<in>set ?ops. rx_op_ok p" by (simp add: recv_ok_def MAX_PACKET_SIZE_def)
  moreover have "rx_offered ?ops = [received_packet 3 (replicate MAX_PACKET_SIZE 7) 100]" by simp
  ultimately show ?thesis
    using receiver_fifo[of ?ops "Packet_new []" MessageView_default UDPConfig_default "[]"] by metis
qed

text \<open>
  C31: \<open>initialize\<close> succeeds exactly when \<open>socket\<close>, \<open>bind\<close> and the group membership all succeed;
  then the receiver holds the new socket and has closed nothing.  When it fails it holds no socket,
  and it has closed exactly the socket it had opened, if any.
\<close>

theorem initialize_outcome:
  "let (ok, r') = UDPReceiver_initialize os r;
       new_calls = drop (length (ur_calls r)) (ur_calls r')
   in ok = (0 \<le> os_socket os \<and> 0 \<le> os_bind os \<and> 0 \<le> os_join os) \<and>
      (if ok then ur_socket_fd r' = os_socket os \<and> open_fds new_calls = [os_socket os]
       else ur_socket_fd r' < 0 \<and> open_fds new_calls = []) \<and>
      (\<forall>fd. Sys_close fd \<in> set new_calls \<longleftrightarrow> \<not> ok \<and> fd = os_socket os \<and> 0 \<le> fd) \<and>
      ur_running r' = ur_running r \<and> ur_packet_queue r' = ur_packet_queue r"
  by (auto simp: UDPReceiver_initialize_def Let_def)

text \<open>
  C39: the life cycle leaks descriptors.  A receiver that was initialised and never started keeps
  its socket when it is destroyed, and initialising twice before starting loses the first socket:
  \<open>stop\<close> closes only the second.
\<close>

theorem receiver_leaks_sockets:
  fixes pton :: "string \<Rightarrow> u32 option" and config :: UDPConfig and junk :: bytes
  assumes "0 \<le> fd1" "0 \<le> fd2" "fd1 \<noteq> fd2"
  defines "os \<equiv> \<lambda>fd. \<lparr>os_socket = fd, os_bind = 0, os_join = 0, os_inet_pton = pton\<rparr>"
  defines "r0 \<equiv> UDPReceiver_new config junk"
  defines "r1 \<equiv> snd (UDPReceiver_initialize (os fd1) r0)"
  defines "r2 \<equiv> snd (UDPReceiver_initialize (os fd2) r1)"
  shows "open_fds (ur_calls (UDPReceiver_destroy r1)) = [fd1] \<and>
    open_fds (ur_calls (UDPReceiver_stop (UDPReceiver_start r1))) = [] \<and>
    open_fds (ur_calls (UDPReceiver_stop (UDPReceiver_start r2))) = [fd1]"
proof -
  obtain cs1 where 1: "fd_neutral cs1"
    "r1 = r0\<lparr>ur_socket_fd := fd1, ur_calls := ur_calls r0 @ Sys_socket fd1 # cs1\<rparr>"
    using initialize_success[of "os fd1" r0] assms(1) setup_calls_neutral by (auto simp: r1_def os_def)
  obtain cs2 where 2: "fd_neutral cs2"
    "r2 = r1\<lparr>ur_socket_fd := fd2, ur_calls := ur_calls r1 @ Sys_socket fd2 # cs2\<rparr>"
    using initialize_success[of "os fd2" r1] assms(2) setup_calls_neutral by (auto simp: r2_def os_def)
  have r0: "ur_running r0 = False" "ur_calls r0 = []" by (simp_all add: r0_def UDPReceiver_new_def)
  have c: "Sys_close fd \<notin> set cs1" "Sys_close fd \<notin> set cs2" for fd
    using 1(1) 2(1) by (auto simp: fd_neutral_def)
  show ?thesis using assms(1-3) open_fds_neutral[OF 1(1)] open_fds_neutral[OF 2(1)]
    by (simp add: 1(2) 2(2) r0 c UDPReceiver_stop_def UDPReceiver_start_def UDPReceiver_destroy_def
        Let_def)
qed

theorem receiver_leaks_sockets_witness:
  "open_fds (ur_calls (UDPReceiver_destroy (snd (UDPReceiver_initialize
     \<lparr>os_socket = 3, os_bind = 0, os_join = 0, os_inet_pton = (\<lambda>_. None)\<rparr>
     (UDPReceiver_new UDPConfig_default []))))) = [3]"
  using receiver_leaks_sockets[of 3 4 "\<lambda>_. None" UDPConfig_default "[]"] by simp

end
