(* ===== verification/Core_Engine.thy ===== *)
theory Core_Engine
  imports Parser_Interface Itch_Spec Dispatcher Udp_Receiver
begin

text \<open>
  \<open>core/core_engine.hpp\<close>: the engine owns the receiver, the dispatcher and the parser.  A parser
  object is the record of its methods with its state of type \<open>'p\<close>, and \<open>None\<close> is the null
  \<open>unique_ptr\<close>.  Exceptions are the left values of a sum.  An iteration of \<open>parse_loop\<close> gets the
  clock as the sequence of its readings.
\<close>

section \<open>Definitions\<close>

record CoreConfig =
  cc_network :: UDPConfig
  cc_network_thread_cpu :: int
  cc_dispatcher_thread_cpu :: int
  cc_parser_thread_cpu :: int
  cc_max_messages_per_packet :: size_t

definition CoreConfig_default :: CoreConfig where
  "CoreConfig_default = \<lparr>cc_network = UDPConfig_default,
     cc_network_thread_cpu = NETWORK_THREAD_CPU, cc_dispatcher_thread_cpu = DISPATCHER_THREAD_CPU,
     cc_parser_thread_cpu = - 1, cc_max_messages_per_packet = 16\<rparr>"

datatype engine_error = Runtime_error string

type_synonym 'p parser_obj = "('p IParser \<times> 'p) option"

record ('p, 's) CoreEngine =
  ce_config :: CoreConfig
  ce_receiver :: UDPReceiver
  ce_dispatcher :: "'s Dispatcher"
  ce_parser :: "'p parser_obj"
  ce_joinable :: bool
  ce_running :: bool
  ce_stats :: Statistics

definition set_parser :: "'q parser_obj \<Rightarrow> ('p, 's) CoreEngine \<Rightarrow> engine_error + ('q, 's) CoreEngine"
where
  "set_parser parser e =
     (if ce_running e then Inl (Runtime_error ''Cannot change parser while running'')
      else Inr \<lparr>ce_config = ce_config e, ce_receiver = ce_receiver e,
        ce_dispatcher = ce_dispatcher e, ce_parser = parser, ce_joinable = ce_joinable e,
        ce_running = ce_running e, ce_stats = ce_stats e\<rparr>)"

text \<open>The constructor ends with \<open>set_parser(std::make_unique<EchoParser>())\<close>.\<close>

definition CoreEngine_new :: "CoreConfig \<Rightarrow> bytes \<Rightarrow> engine_error + (u64, 's) CoreEngine" where
  "CoreEngine_new config junk = set_parser (Some (EchoParser, 0))
     \<lparr>ce_config = config, ce_receiver = UDPReceiver_new (cc_network config) junk,
      ce_dispatcher = Dispatcher_new, ce_parser = (None :: u64 parser_obj), ce_joinable = False,
      ce_running = False, ce_stats = Statistics_init\<rparr>"

definition CoreEngine_add_subscriber ::
  "'s ISubscriber \<Rightarrow> ('p, 's) CoreEngine \<Rightarrow> engine_error + ('p, 's) CoreEngine" where
  "CoreEngine_add_subscriber subscriber e =
     (if ce_running e then Inl (Runtime_error ''Cannot add subscriber while running'')
      else Inr (e\<lparr>ce_dispatcher := add_subscriber subscriber (ce_dispatcher e)\<rparr>))"

definition CoreEngine_initialize :: "OS \<Rightarrow> ('p, 's) CoreEngine \<Rightarrow> bool \<times> ('p, 's) CoreEngine" where
  "CoreEngine_initialize os e =
     (case UDPReceiver_initialize os (ce_receiver e) of (ok, r) \<Rightarrow>
       let e = e\<lparr>ce_receiver := r\<rparr> in
       if \<not> ok then (False, e)
       else case ce_parser e of
         None \<Rightarrow> (True, e)
       | Some (ips, p) \<Rightarrow> (True, e\<lparr>ce_parser := Some (ips, ip_initialize ips p)\<rparr>))"

definition CoreEngine_start :: "('p, 's) CoreEngine \<Rightarrow> engine_error + ('p, 's) CoreEngine" where
  "CoreEngine_start e =
     (if ce_running e then Inr e
      else case ce_parser e of
        None \<Rightarrow> Inl (Runtime_error ''No parser configured'')
      | Some _ \<Rightarrow>
          let e = e\<lparr>ce_running := True\<rparr>;
              e = e\<lparr>ce_receiver := UDPReceiver_start (ce_receiver e)\<rparr>;
              e = e\<lparr>ce_dispatcher := Dispatcher_start (ce_dispatcher e)\<rparr>
          in Inr (e\<lparr>ce_joinable := True\<rparr>))"

definition CoreEngine_stop :: "('p, 's) CoreEngine \<Rightarrow> ('p, 's) CoreEngine" where
  "CoreEngine_stop e =
     (if \<not> ce_running e then e
      else let e = e\<lparr>ce_running := False\<rparr>;
               e = (if ce_joinable e then e\<lparr>ce_joinable := False\<rparr> else e);
               e = e\<lparr>ce_dispatcher := Dispatcher_stop (ce_dispatcher e)\<rparr>;
               e = e\<lparr>ce_receiver := UDPReceiver_stop (ce_receiver e)\<rparr>
           in case ce_parser e of
                None \<Rightarrow> e
              | Some (ips, p) \<Rightarrow> e\<lparr>ce_parser := Some (ips, ip_reset ips p)\<rparr>)"

definition CoreEngine_get_stats :: "('p, 's) CoreEngine \<Rightarrow> Statistics" where
  "CoreEngine_get_stats e =
     (let combined = ce_stats e;
          recv_stats = ur_stats (ce_receiver e);
          combined = combined\<lparr>packets_received := packets_received recv_stats\<rparr>;
          combined = combined\<lparr>packets_dropped := packets_dropped recv_stats\<rparr>;
          disp_stats = d_stats (ce_dispatcher e)
      in combined\<lparr>messages_dispatched := messages_dispatched disp_stats\<rparr>)"

definition CoreEngine_subscriber_count :: "('p, 's) CoreEngine \<Rightarrow> size_t" where
  "CoreEngine_subscriber_count e = subscriber_count (ce_dispatcher e)"

text \<open>\<open>for (i = 0; i < count; ++i) dispatcher_.dispatch(messages[i])\<close>, from \<open>i\<close> on.\<close>

primrec dispatch_range ::
  "(nat \<Rightarrow> Timestamp) \<Rightarrow> NormalizedMessage list \<Rightarrow> nat \<Rightarrow> nat \<Rightarrow> 's Dispatcher \<Rightarrow> 's Dispatcher option"
where
  "dispatch_range clock messages i 0 d = Some d"
| "dispatch_range clock messages i (Suc k) d = do {
     m \<leftarrow> load messages i;
     d \<leftarrow> dispatch (clock (i + 1)) m d;
     dispatch_range clock messages (i + 1) k d
   }"

text \<open>
  One iteration of \<open>parse_loop\<close> after its test: \<open>raw_packet\<close> and \<open>messages\<close> are its locals, which
  live across iterations; \<open>clock j\<close> is the j-th reading of the clock in the iteration.
\<close>

definition parse_iteration ::
  "(nat \<Rightarrow> Timestamp) \<Rightarrow> MessageView \<Rightarrow> NormalizedMessage list \<Rightarrow> ('p, 's) CoreEngine \<Rightarrow>
     (MessageView \<times> NormalizedMessage list \<times> ('p, 's) CoreEngine) option" where
  "parse_iteration clock raw_packet messages e = do {
     (ok, raw_packet, r) \<leftarrow> read_packet raw_packet (ce_receiver e);
     let e = e\<lparr>ce_receiver := r\<rparr>;
     if \<not> ok then Some (raw_packet, messages, e)
     else do {
       let parse_start = clock 0;
       (ips, p) \<leftarrow> ce_parser e;
       (count, messages, p) \<leftarrow> ip_parse ips raw_packet messages (of_nat (length messages)) p;
       let e = e\<lparr>ce_parser := Some (ips, p)\<rparr>;
       d \<leftarrow> dispatch_range clock messages 0 (unat count) (ce_dispatcher e);
       let e = e\<lparr>ce_dispatcher := d\<rparr>;
       let st = ce_stats e;
       let st = st\<lparr>messages_parsed := messages_parsed st + count\<rparr>;
       let st = (if count = 0 then st\<lparr>parse_errors := parse_errors st + 1\<rparr> else st);
       let parse_end = clock (unat count + 1);
       Some (raw_packet, messages, e\<lparr>ce_stats := update_latency (parse_end - parse_start) st\<rparr>)
     }
   }"

text \<open>The locals \<open>parse_loop\<close> starts with.\<close>

definition parse_loop_messages :: "('p, 's) CoreEngine \<Rightarrow> NormalizedMessage list" where
  "parse_loop_messages e =
     replicate (unat (cc_max_messages_per_packet (ce_config e))) NormalizedMessage_default"

section \<open>Dispatching a batch\<close>

definition engine_inv :: "('p, 's) CoreEngine \<Rightarrow> bool" where
  "engine_inv e \<longleftrightarrow> rx_inv (ce_receiver e) \<and> disp_inv (ce_dispatcher e)"

text \<open>A subscriber queue that held \<open>xs\<close> after the batch \<open>ws\<close>, and what it refused.\<close>

definition queue_after :: "NormalizedMessage list \<Rightarrow> NormalizedMessage list \<Rightarrow> NormalizedMessage list" where
  "queue_after ws xs = xs @ take (65535 - length xs) ws"

definition refused :: "NormalizedMessage list \<Rightarrow> NormalizedMessage list \<Rightarrow> nat" where
  "refused ws xs = length ws - (65535 - length xs)"

lemma queue_after_Cons: "queue_after (m # ws) xs = queue_after ws (queue_after [m] xs)"
  by (auto simp: queue_after_def take_Cons')

lemma refused_Cons: "length xs \<le> 65535 \<Longrightarrow>
  refused (m # ws) xs = refused [m] xs + refused ws (queue_after [m] xs)"
  by (auto simp: refused_def queue_after_def)

definition disp_contents :: "'s Dispatcher \<Rightarrow> NormalizedMessage list list" where
  "disp_contents d = map spsc_contents (d_queues d)"

lemma disp_queue_cap:
  assumes "disp_inv d" "q \<in> set (d_queues d)"
  shows "spsc_cap q = 65535" "spsc_count q \<le> 65535"
proof -
  show cap: "spsc_cap q = 65535" using assms by (auto simp: disp_inv_def spsc_cap_def)
  show "spsc_count q \<le> 65535"
    using spsc.bounded[of q] assms cap by (auto simp: disp_inv_def)
qed

lemma disp_contents_bound: "disp_inv d \<Longrightarrow> xs \<in> set (disp_contents d) \<Longrightarrow> length xs \<le> 65535"
  using disp_queue_cap by (auto simp: disp_contents_def)

lemma dispatch_batch_step:
  assumes "disp_inv d"
  shows "\<exists>d'. dispatch now msg d = Some d' \<and> disp_inv d' \<and> d_subscribers d' = d_subscribers d \<and>
    d_running d' = d_running d \<and> disp_contents d' = map (queue_after [msg]) (disp_contents d) \<and>
    messages_dispatched (d_stats d') = messages_dispatched (d_stats d) + 1 \<and>
    packets_dropped (d_stats d') =
      packets_dropped (d_stats d) + of_nat (\<Sum>xs\<leftarrow>disp_contents d. refused [msg] xs)"
proof -
  have cap: "\<forall>q\<in>set (d_queues d). spsc_cap q = 65535 \<and> spsc_count q \<le> 65535"
    using disp_queue_cap[OF assms] by blast
  have off: "map (offered msg) (d_queues d) = map (queue_after [msg] \<circ> spsc_contents) (d_queues d)"
    using cap by (auto simp: offered_def queue_after_def)
  have "full_queues qs = (\<Sum>q\<leftarrow>qs. refused [msg] (spsc_contents q))"
    if "\<forall>q\<in>set qs. spsc_cap q = 65535 \<and> spsc_count q \<le> 65535" for qs
    using that by (induction qs) (auto simp: full_queues_def refused_def)
  then have "full_queues (d_queues d) = (\<Sum>xs\<leftarrow>disp_contents d. refused [msg] xs)"
    using cap by (simp add: disp_contents_def o_def)
  then show ?thesis
    by (rule_tac dispatch_spec[OF assms, of now msg]) (auto simp: disp_contents_def off)
qed

lemma dispatch_range_spec:
  assumes "disp_inv d" "i + k \<le> length messages"
  shows "\<exists>d'. dispatch_range clock messages i k d = Some d' \<and> disp_inv d' \<and>
    d_subscribers d' = d_subscribers d \<and> d_running d' = d_running d \<and>
    disp_contents d' = map (queue_after (take k (drop i messages))) (disp_contents d) \<and>
    messages_dispatched (d_stats d') = messages_dispatched (d_stats d) + of_nat k \<and>
    packets_dropped (d_stats d') = packets_dropped (d_stats d) +
      of_nat (\<Sum>xs\<leftarrow>disp_contents d. refused (take k (drop i messages)) xs)"
  using assms
proof (induction k arbitrary: i d)
  case 0
  then show ?case by (simp add: queue_after_def[abs_def] refused_def)
next
  case (Suc k)
  let ?m = "messages ! i" and ?ws = "take k (drop (i + 1) messages)"
  have ws: "take (Suc k) (drop i messages) = ?m # ?ws"
    using Suc.prems by (simp add: Cons_nth_drop_Suc[symmetric])
  obtain d1 where d1: "dispatch (clock (i + 1)) ?m d = Some d1" "disp_inv d1"
    "d_subscribers d1 = d_subscribers d" "d_running d1 = d_running d"
    "disp_contents d1 = map (queue_after [?m]) (disp_contents d)"
    "messages_dispatched (d_stats d1) = messages_dispatched (d_stats d) + 1"
    "packets_dropped (d_stats d1) =
      packets_dropped (d_stats d) + of_nat (\<Sum>xs\<leftarrow>disp_contents d. refused [?m] xs)"
    using dispatch_batch_step[OF Suc.prems(1)] by blast
  have "(\<Sum>xs\<leftarrow>disp_contents d. refused (?m # ?ws) xs) =
      (\<Sum>xs\<leftarrow>disp_contents d. refused [?m] xs + refused ?ws (queue_after [?m] xs))"
    using disp_contents_bound[OF Suc.prems(1)]
    by (intro arg_cong[of _ _ sum_list] map_cong refl refused_Cons)
  also have "\<dots> = (\<Sum>xs\<leftarrow>disp_contents d. refused [?m] xs) + (\<Sum>xs\<leftarrow>disp_contents d1. refused ?ws xs)"
    by (simp add: sum_list_addf d1(5) o_def)
  finally have dr: "(\<Sum>xs\<leftarrow>disp_contents d. refused (?m # ?ws) xs) =
      (\<Sum>xs\<leftarrow>disp_contents d. refused [?m] xs) + (\<Sum>xs\<leftarrow>disp_contents d1. refused ?ws xs)" .
  have qa: "map (queue_after (?m # ?ws)) (disp_contents d) = map (queue_after ?ws) (disp_contents d1)"
    unfolding d1(5) by (simp only: map_map o_def queue_after_Cons[of ?m ?ws, symmetric])
  obtain d2 where "dispatch_range clock messages (i + 1) k d1 = Some d2" "disp_inv d2"
    "d_subscribers d2 = d_subscribers d1" "d_running d2 = d_running d1"
    "disp_contents d2 = map (queue_after ?ws) (disp_contents d1)"
    "messages_dispatched (d_stats d2) = messages_dispatched (d_stats d1) + of_nat k"
    "packets_dropped (d_stats d2) =
      packets_dropped (d_stats d1) + of_nat (\<Sum>xs\<leftarrow>disp_contents d1. refused ?ws xs)"
    using Suc.IH[OF d1(2), of "i + 1"] Suc.prems(2) by auto
  with d1 Suc.prems(2) show ?case unfolding ws qa dr by simp
qed

section \<open>The engine on any parser\<close>

text \<open>What the engine does with a packet rests on the parser contract alone.\<close>

context parser_contract
begin

lemma engine_iteration:
  fixes e :: "('p, 's) CoreEngine"
  assumes "engine_inv e" "ce_parser e = Some (ips, p)" "ip_parse ips = parse"
    and "rx_queue (ce_receiver e) = pk # pks" "length messages < 2 ^ 64"
  defines "view \<equiv> packet_view pk (ur_sequence (ce_receiver e))"
  shows "\<exists>c messages' p' e'. parse view messages (of_nat (length messages)) p = Some (c, messages', p') \<and>
    unat c \<le> length messages \<and> length messages' = length messages \<and>
    parse_iteration clock raw messages e = Some (view, messages', e') \<and> engine_inv e' \<and>
    ce_parser e' = Some (ips, p') \<and> rx_queue (ce_receiver e') = pks \<and>
    ur_sequence (ce_receiver e') = ur_sequence (ce_receiver e) + 1 \<and>
    ur_stats (ce_receiver e') = ur_stats (ce_receiver e) \<and>
    d_subscribers (ce_dispatcher e') = d_subscribers (ce_dispatcher e) \<and>
    disp_contents (ce_dispatcher e') =
      map (queue_after (take (unat c) messages')) (disp_contents (ce_dispatcher e)) \<and>
    messages_dispatched (d_stats (ce_dispatcher e')) =
      messages_dispatched (d_stats (ce_dispatcher e)) + c \<and>
    packets_dropped (d_stats (ce_dispatcher e')) = packets_dropped (d_stats (ce_dispatcher e)) +
      of_nat (\<Sum>xs\<leftarrow>disp_contents (ce_dispatcher e). refused (take (unat c) messages') xs) \<and>
    ce_stats e' = update_latency (clock (unat c + 1) - clock 0)
      ((ce_stats e)\<lparr>messages_parsed := messages_parsed (ce_stats e) + c,
         parse_errors := parse_errors (ce_stats e) + of_bool (c = 0)\<rparr>)"
proof -
  let ?mx = "of_nat (length messages) :: size_t"
  have rx: "rx_inv (ce_receiver e)" and di: "disp_inv (ce_dispatcher e)"
    using assms(1) by (simp_all add: engine_inv_def)
  obtain r' where rd: "read_packet raw (ce_receiver e) = Some (True, view, r')" "rx_inv r'"
    "rx_queue r' = pks" "packet_ok pk"
    and r': "r' = (ce_receiver e)\<lparr>ur_packet_queue := ur_packet_queue r', ur_current_packet := pk,
      ur_sequence := ur_sequence (ce_receiver e) + 1\<rparr>"
    using read_packet_item[OF rx assms(4), of raw] unfolding view_def by blast
  have rf: "ur_sequence r' = ur_sequence (ce_receiver e) + 1" "ur_stats r' = ur_stats (ce_receiver e)"
    by (subst r', simp)+
  have vok: "view_ok view" using packet_view_ok[OF rd(4)] by (simp add: view_def)
  have mx: "unat ?mx = length messages" using assms(5) by (simp add: unat_of_nat)
  obtain c messages' p' where ps: "parse view messages ?mx p = Some (c, messages', p')"
    "c \<le> ?mx" "length messages' = length messages"
    using parse_spec[OF vok, of ?mx messages p] mx by auto
  have c: "unat c \<le> length messages'" using ps(2,3) mx by (simp add: word_le_nat_alt)
  obtain d' where "dispatch_range clock messages' 0 (unat c) (ce_dispatcher e) = Some d'" "disp_inv d'"
    "d_subscribers d' = d_subscribers (ce_dispatcher e)"
    "disp_contents d' = map (queue_after (take (unat c) messages')) (disp_contents (ce_dispatcher e))"
    "messages_dispatched (d_stats d') = messages_dispatched (d_stats (ce_dispatcher e)) + c"
    "packets_dropped (d_stats d') = packets_dropped (d_stats (ce_dispatcher e)) +
      of_nat (\<Sum>xs\<leftarrow>disp_contents (ce_dispatcher e). refused (take (unat c) messages') xs)"
    using dispatch_range_spec[OF di, of 0 "unat c" messages' clock] c by auto
  then show ?thesis using ps c rd rf assms(2,3)
    by (auto simp: parse_iteration_def engine_inv_def Let_def)
qed

end

text \<open>An iteration without a packet changes nothing.\<close>

lemma engine_iteration_idle:
  assumes "engine_inv e" "rx_queue (ce_receiver e) = []"
  shows "parse_iteration clock raw messages e = Some (raw, messages, e)"
  using assms read_packet_empty[of "ce_receiver e" raw]
  by (simp add: parse_iteration_def engine_inv_def)

lemma engine_inv_new:
  "CoreEngine_new config junk = Inr e \<Longrightarrow> engine_inv e"
  by (auto simp: CoreEngine_new_def set_parser_def engine_inv_def rx_inv_new)

lemma engine_iteration_itch_spec:
  fixes e :: "(ItchParser, 's) CoreEngine"
  assumes "engine_inv e" "ce_parser e = Some (ItchParser_methods, p)"
    and "rx_queue (ce_receiver e) = pk # pks" "length messages < 2 ^ 64"
    and rp: "ref_parse (pk_timestamp pk) messages
      (frames (take (unat (pk_length pk)) (pk_data pk))) p = (ws, p')"
  shows "\<exists>view e'. parse_iteration clock raw messages e =
        Some (view, ws @ drop (length ws) messages, e') \<and>
      engine_inv e' \<and> rx_queue (ce_receiver e') = pks \<and>
      d_subscribers (ce_dispatcher e') = d_subscribers (ce_dispatcher e) \<and>
      disp_contents (ce_dispatcher e') = map (queue_after ws) (disp_contents (ce_dispatcher e)) \<and>
      messages_dispatched (d_stats (ce_dispatcher e')) =
        messages_dispatched (d_stats (ce_dispatcher e)) + of_nat (length ws) \<and>
      packets_dropped (d_stats (ce_dispatcher e')) = packets_dropped (d_stats (ce_dispatcher e)) +
        of_nat (\<Sum>xs\<leftarrow>disp_contents (ce_dispatcher e). refused ws xs) \<and>
      ce_stats e' = update_latency (clock (length ws + 1) - clock 0)
        ((ce_stats e)\<lparr>messages_parsed := messages_parsed (ce_stats e) + of_nat (length ws),
           parse_errors := parse_errors (ce_stats e) + of_bool (ws = [])\<rparr>)"
proof -
  let ?view = "packet_view pk (ur_sequence (ce_receiver e))"
  let ?mx = "of_nat (length messages) :: size_t"
  have pk: "packet_ok pk" using assms(1,3) by (simp add: engine_inv_def rx_inv_def rx_queue_def)
  have mx: "unat ?mx = length messages" using assms(4) by (simp add: unat_of_nat)
  have len: "length ws \<le> length messages"
    using length_ref_parse[of "pk_timestamp pk" messages] rp by (metis fst_conv)
  then have ul: "unat (of_nat (length ws) :: size_t) = length ws"
    using assms(4) by (simp add: unat_of_nat)
  have parse: "ItchParser_parse ?view messages ?mx p = Some (of_nat (length ws),
      ws @ drop (length ws) messages,
      p'\<lparr>ip_messages_parsed := ip_messages_parsed p' + of_nat (length ws)\<rparr>)"
    using ItchParser_parse_spec[of ?view "pk_data pk" ?mx messages p ws p'] rp mx pk
    by (simp add: packet_view_def packet_ok_def)
  have nil: "of_nat (length ws) = (0 :: size_t) \<longleftrightarrow> ws = []"
    by (metis ul length_0_conv unsigned_eq_0_iff)
  have "ip_parse ItchParser_methods = ItchParser_parse" by (simp add: ItchParser_methods_def)
  from itch_parser.engine_iteration[OF assms(1,2) this assms(3,4), of clock raw]
  obtain c messages' p'' e' where
    "ItchParser_parse ?view messages ?mx p = Some (c, messages', p'')"
    and it: "parse_iteration clock raw messages e = Some (?view, messages', e')" "engine_inv e'"
    "rx_queue (ce_receiver e') = pks" "d_subscribers (ce_dispatcher e') = d_subscribers (ce_dispatcher e)"
    "disp_contents (ce_dispatcher e') =
      map (queue_after (take (unat c) messages')) (disp_contents (ce_dispatcher e))"
    "messages_dispatched (d_stats (ce_dispatcher e')) =
      messages_dispatched (d_stats (ce_dispatcher e)) + c"
    "packets_dropped (d_stats (ce_dispatcher e')) = packets_dropped (d_stats (ce_dispatcher e)) +
      of_nat (\<Sum>xs\<leftarrow>disp_contents (ce_dispatcher e). refused (take (unat c) messages') xs)"
    and st: "ce_stats e' = update_latency (clock (unat c + 1) - clock 0)
      ((ce_stats e)\<lparr>messages_parsed := messages_parsed (ce_stats e) + c,
         parse_errors := parse_errors (ce_stats e) + of_bool (c = 0)\<rparr>)"
    by blast
  then have "c = of_nat (length ws)" "messages' = ws @ drop (length ws) messages"
    using parse by simp_all
  with it st show ?thesis by (simp add: ul nil)
qed

text \<open>Half of a latency stays below it even after rounding.\<close>

lemma share_less:
  assumes "0 < a" "2 \<le> n"
  shows "real a / real n * (1 + 1 / 2 ^ 51) < real a"
proof -
  have "real a / real n \<le> real a / 2" using assms by (intro divide_left_mono) simp_all
  then have "real a / real n * (1 + 1 / 2 ^ 51) \<le> real a / 2 * (1 + 1 / 2 ^ 51)" by (intro mult_right_mono) simp_all
  also have "\<dots> < real a" using assms(1) by simp
  finally show ?thesis .
qed

section \<open>Life cycle\<close>

definition started :: "('p, 's) CoreEngine \<Rightarrow> ('p, 's) CoreEngine" where
  "started e = e\<lparr>ce_running := True, ce_receiver := UDPReceiver_start (ce_receiver e),
     ce_dispatcher := Dispatcher_start (ce_dispatcher e), ce_joinable := True\<rparr>"

lemma engine_start:
  "\<not> ce_running e \<Longrightarrow> ce_parser e \<noteq> None \<Longrightarrow> CoreEngine_start e = Inr (started e)"
  by (auto simp: CoreEngine_start_def started_def)

lemma engine_stop:
  assumes "ce_running e"
  shows "\<not> ce_running (CoreEngine_stop e)"
    "ce_receiver (CoreEngine_stop e) = UDPReceiver_stop (ce_receiver e)"
    "ce_dispatcher (CoreEngine_stop e) = Dispatcher_stop (ce_dispatcher e)"
    "ce_parser (CoreEngine_stop e) = map_option (\<lambda>(ips, p). (ips, ip_reset ips p)) (ce_parser e)"
  using assms by (auto simp: CoreEngine_stop_def Let_def split: option.splits)

lemma receiver_restart:
  "\<not> ur_running (UDPReceiver_start (UDPReceiver_stop (UDPReceiver_start r)))"
  "ur_socket_fd (UDPReceiver_start (UDPReceiver_stop (UDPReceiver_start r))) < 0"
  by (auto simp: UDPReceiver_start_def UDPReceiver_stop_def Let_def)

lemma dispatcher_started: "d_running (Dispatcher_start d)"
  by (simp add: Dispatcher_start_def)

section \<open>A concrete engine\<close>

text \<open>A concrete engine: the ITCH parser, one subscriber, one packet received.\<close>

definition demo_packet_rx :: Packet where
  "demo_packet_rx = received_packet 102 (demo_packet @ replicate 8898 0) 1000"

definition demo_receiver :: UDPReceiver where
  "demo_receiver = snd (the (receive_iteration 102 (demo_packet @ replicate 8898 0) 1000
     (Packet_new []) (UDPReceiver_new UDPConfig_default [])))"

definition demo_engine :: "(ItchParser, unit) CoreEngine" where
  "demo_engine = \<lparr>ce_config = CoreConfig_default, ce_receiver = demo_receiver,
     ce_dispatcher = add_subscriber (LambdaSubscriber ''s'' (\<lambda>m s. (True, s)) ()) Dispatcher_new,
     ce_parser = Some (ItchParser_methods, ItchParser_new), ce_joinable = False, ce_running = False,
     ce_stats = Statistics_init\<rparr>"

lemma demo_recv_ok: "recv_ok 102 (demo_packet @ replicate 8898 0)"
  by (simp add: recv_ok_def MAX_PACKET_SIZE_def demo_length)

lemma demo_receiver_facts:
  "rx_inv demo_receiver" "rx_queue demo_receiver = [demo_packet_rx]" "ur_sequence demo_receiver = 0"
  "ur_stats demo_receiver = Statistics_init\<lparr>packets_received := 1\<rparr>"
  using receive_iteration_room[OF rx_inv_new(1)[of UDPConfig_default "[]"] demo_recv_ok,
      of 1000 "Packet_new []"]
  by (auto simp: rx_inv_new(2) demo_packet_rx_def demo_receiver_def new_fields Statistics_init_def)

lemma demo_engine_facts:
  "engine_inv demo_engine" "ce_parser demo_engine = Some (ItchParser_methods, ItchParser_new)"
  "rx_queue (ce_receiver demo_engine) = [demo_packet_rx]" "disp_contents (ce_dispatcher demo_engine) = [[]]"
  "d_stats (ce_dispatcher demo_engine) = Statistics_init" "ce_stats demo_engine = Statistics_init"
  by (simp_all add: demo_engine_def engine_inv_def demo_receiver_facts disp_contents_def)
    (simp_all add: add_subscriber_def Dispatcher_new_def fresh_queue)

abbreviation "demo_slots \<equiv>
  [NormalizedMessage_default, NormalizedMessage_default, NormalizedMessage_default]"

lemma demo_engine_parse:
  "ref_parse (pk_timestamp demo_packet_rx) demo_slots
     (frames (take (unat (pk_length demo_packet_rx)) (pk_data demo_packet_rx))) ItchParser_new =
    ([decode MT_ADD_ORDER (take 38 (drop 2 demo_packet)) 1000 NormalizedMessage_default,
      decode MT_ORDER_EXECUTED (take 33 (drop 42 demo_packet)) 1000 NormalizedMessage_default],
     count_error ItchParser_new)"
  using demo_ref_parse by (simp add: demo_packet_rx_def received_packet_def demo_length)

text \<open>The packet of the demonstration from its second message on: an Order Executed message.\<close>

definition demo_exec_engine :: "(ItchParser, unit) CoreEngine" where
  "demo_exec_engine = demo_engine\<lparr>ce_receiver := snd (the (receive_iteration 35
     (drop 40 demo_packet @ replicate 8938 0) 1000 (Packet_new []) (UDPReceiver_new UDPConfig_default [])))\<rparr>"

lemma demo_exec_facts:
  "engine_inv demo_exec_engine" "ce_parser demo_exec_engine = Some (ItchParser_methods, ItchParser_new)"
  "rx_queue (ce_receiver demo_exec_engine) =
     [received_packet 35 (drop 40 demo_packet @ replicate 8938 0) 1000]"
  "disp_contents (ce_dispatcher demo_exec_engine) = [[]]"
proof -
  let ?r = "UDPReceiver_new UDPConfig_default []" and ?buf = "drop 40 demo_packet @ replicate 8938 0"
  have "recv_ok 35 ?buf" by (simp add: recv_ok_def MAX_PACKET_SIZE_def demo_length)
  from receive_iteration_room[OF rx_inv_new(1)[of UDPConfig_default "[]"] this, of 1000 "Packet_new []"]
  obtain pk' r' where "receive_iteration 35 ?buf 1000 (Packet_new []) ?r = Some (pk', r')" "rx_inv r'"
    "rx_queue r' = [received_packet 35 ?buf 1000]" by (auto simp: rx_inv_new(2))
  then show "engine_inv demo_exec_engine"
    "ce_parser demo_exec_engine = Some (ItchParser_methods, ItchParser_new)"
    "rx_queue (ce_receiver demo_exec_engine) = [received_packet 35 ?buf 1000]"
    "disp_contents (ce_dispatcher demo_exec_engine) = [[]]"
    using demo_engine_facts by (simp_all add: demo_exec_engine_def engine_inv_def)
qed

lemma demo_exec_frames: "frames (take 35 (drop 40 demo_packet)) = [Body (take 33 (drop 42 demo_packet))]"
  by code_simp

lemma demo_exec_type: "take 33 (drop 42 demo_packet) ! 12 = chr8 CHR ''E''"
  by code_simp

section \<open>Properties\<close>

text \<open>
  C7: an iteration of the engine's parse loop with the ITCH parser and a packet waiting returns
  without undefined behaviour, consumes exactly that packet, and appends to every subscriber queue,
  as far as it has room, exactly the messages the reference parser decodes from the packet's bytes,
  in order; the counters grow by the decoded, dispatched and refused messages, and a packet without
  decoded message counts as a parse error.
\<close>

theorem engine_iteration_itch:
  fixes e :: "(ItchParser, 's) CoreEngine"
  assumes "engine_inv e" "ce_parser e = Some (ItchParser_methods, p)"
    and "rx_queue (ce_receiver e) = pk # pks" "length messages < 2 ^ 64"
  shows "let (ws, p') = ref_parse (pk_timestamp pk) messages
               (frames (take (unat (pk_length pk)) (pk_data pk))) p
    in \<exists>view e'. parse_iteration clock raw messages e =
        Some (view, ws @ drop (length ws) messages, e') \<and>
      engine_inv e' \<and> rx_queue (ce_receiver e') = pks \<and>
      disp_contents (ce_dispatcher e') = map (queue_after ws) (disp_contents (ce_dispatcher e)) \<and>
      messages_parsed (ce_stats e') = messages_parsed (ce_stats e) + of_nat (length ws) \<and>
      messages_dispatched (d_stats (ce_dispatcher e')) =
        messages_dispatched (d_stats (ce_dispatcher e)) + of_nat (length ws) \<and>
      packets_dropped (d_stats (ce_dispatcher e')) = packets_dropped (d_stats (ce_dispatcher e)) +
        of_nat (\<Sum>xs\<leftarrow>disp_contents (ce_dispatcher e). refused ws xs) \<and>
      parse_errors (ce_stats e') = parse_errors (ce_stats e) + of_bool (ws = [])"
  using engine_iteration_itch_spec[OF assms, of _ _ clock raw] by (fastforce split: prod.split)

theorem engine_iteration_itch_witness:
  "\<exists>view out e' m1 m2. parse_iteration (\<lambda>j. of_nat j) MessageView_default demo_slots demo_engine =
     Some (view, out, e') \<and> disp_contents (ce_dispatcher e') = [[m1, m2]] \<and>
     nm_price m1 = 1500000 \<and> nm_quantity m2 = 50 \<and> rx_queue (ce_receiver e') = [] \<and>
     messages_parsed (ce_stats e') = 2 \<and> parse_errors (ce_stats e') = 0"
  using engine_iteration_itch[OF demo_engine_facts(1-3), of demo_slots "\<lambda>j. of_nat j" MessageView_default]
  unfolding demo_engine_parse
  by (force simp: demo_engine_facts queue_after_def demo_fields decode_header_def Statistics_init_def)

text \<open>
  C38: \<open>get_stats\<close> can report an average latency below the minimum latency: latencies are recorded
  once per packet, but the average divides by the number of messages.  After the first packet of an
  engine, whenever it decodes to two or more messages and took any time, the average is below the
  minimum.
\<close>

theorem engine_average_below_minimum:
  fixes e :: "(ItchParser, 's) CoreEngine"
  assumes "engine_inv e" "ce_parser e = Some (ItchParser_methods, p)"
    and "rx_queue (ce_receiver e) = pk # pks" "length messages < 2 ^ 64"
    and "ref_parse (pk_timestamp pk) messages
      (frames (take (unat (pk_length pk)) (pk_data pk))) p = (ws, p')"
    and "2 \<le> length ws" "clock (length ws + 1) \<noteq> clock 0"
    and "ce_stats e = Statistics_init" "messages_dispatched (d_stats (ce_dispatcher e)) = 0"
  shows "\<exists>view out e'. parse_iteration clock raw messages e = Some (view, out, e') \<and>
    avg_latency_ns (CoreEngine_get_stats e') < real (unat (min_latency_ns (CoreEngine_get_stats e')))"
proof -
  let ?l = "clock (length ws + 1) - clock 0"
  have ne: "ws \<noteq> []" using assms(6) by auto
  obtain view out e' where it: "parse_iteration clock raw messages e = Some (view, out, e')"
    "messages_dispatched (d_stats (ce_dispatcher e')) = of_nat (length ws)"
    "ce_stats e' = update_latency ?l (Statistics_init\<lparr>messages_parsed := of_nat (length ws), parse_errors := 0\<rparr>)"
    using engine_iteration_itch_spec[OF assms(1-5), of clock raw] assms(8,9) ne
    by (auto simp: Statistics_init_def)
  have "length ws \<le> length messages"
    using length_ref_parse[of "pk_timestamp pk" messages] assms(5) by (metis fst_conv)
  then have n: "unat (of_nat (length ws) :: u64) = length ws" using assms(4) by (simp add: unat_of_nat)
  then have pos: "0 < (of_nat (length ws) :: u64)" using ne by (simp add: word_less_nat_alt)
  have l: "0 < unat ?l" using assms(7) by (simp add: unat_gt_0)
  have st: "min_latency_ns (CoreEngine_get_stats e') = ?l" "total_latency_ns (CoreEngine_get_stats e') = ?l"
    "messages_dispatched (CoreEngine_get_stats e') = of_nat (length ws)"
    using it by (simp_all add: CoreEngine_get_stats_def Let_def Statistics_init_def)
  have "avg_latency_ns (CoreEngine_get_stats e') \<le> real (unat ?l) / real (length ws) * (1 + 1 / 2 ^ 51)"
    using avg_latency_relative(2)[of "CoreEngine_get_stats e'"] pos unfolding st n .
  also have "\<dots> < real (unat ?l)" by (rule share_less[OF l assms(6)])
  finally show ?thesis using it(1) st(1) by auto
qed

theorem engine_average_below_minimum_witness:
  "\<exists>view out e'. parse_iteration (\<lambda>j. of_nat j) MessageView_default demo_slots demo_engine =
     Some (view, out, e') \<and>
    avg_latency_ns (CoreEngine_get_stats e') < real (unat (min_latency_ns (CoreEngine_get_stats e')))"
  by (rule engine_average_below_minimum[OF demo_engine_facts(1-3) _ demo_engine_parse])
    (simp_all add: demo_engine_facts Statistics_init_def)

text \<open>
  C37: the engine reuses its \<open>messages\<close> array and the handlers assign only the fields their message
  carries, so fields of earlier packets reach the subscribers: when the first message of a packet is
  an Order Executed message, what is dispatched for it has the price and the side that an earlier
  packet left in slot 0.
\<close>

theorem engine_dispatches_stale_fields:
  fixes e :: "(ItchParser, 's) CoreEngine"
  assumes "engine_inv e" "ce_parser e = Some (ItchParser_methods, p)"
    and "rx_queue (ce_receiver e) = pk # pks" "length (m0 # slots) < 2 ^ 64"
    and "frames (take (unat (pk_length pk)) (pk_data pk)) = Body b # fs"
    and "33 \<le> length b" "b ! 12 = chr8 CHR ''E''"
  shows "\<exists>view out e' w ws. parse_iteration clock raw (m0 # slots) e = Some (view, out, e') \<and>
    disp_contents (ce_dispatcher e') = map (queue_after (w # ws)) (disp_contents (ce_dispatcher e)) \<and>
    nm_type w = NM_ORDER_EXECUTE \<and> nm_price w = nm_price m0 \<and> nm_side w = nm_side m0"
proof -
  let ?ts = "pk_timestamp pk"
  have "MessageType_of_u8 (b ! 12) = MT_ORDER_EXECUTED"
    using MessageType_of_code[of MT_ORDER_EXECUTED] assms(7) by (simp add: MessageType_enumerators_def)
  then have me: "msg_effect b ?ts m0 p = (True, decode MT_ORDER_EXECUTED b ?ts m0, p)"
    using assms(6) by (simp add: msg_effect_def learn_stock_def)
  obtain ws p' where "ref_parse ?ts slots fs p = (ws, p')" by force
  then have "ref_parse ?ts (m0 # slots) (frames (take (unat (pk_length pk)) (pk_data pk))) p =
      (decode MT_ORDER_EXECUTED b ?ts m0 # ws, p')"
    by (simp add: assms(5) me)
  moreover have "nm_type (decode MT_ORDER_EXECUTED b ?ts m0) = NM_ORDER_EXECUTE"
    "nm_price (decode MT_ORDER_EXECUTED b ?ts m0) = nm_price m0"
    "nm_side (decode MT_ORDER_EXECUTED b ?ts m0) = nm_side m0" by (simp_all add: decode_header_def)
  ultimately show ?thesis using engine_iteration_itch_spec[OF assms(1-4), of _ _ clock raw] by blast
qed

theorem engine_dispatches_stale_fields_witness:
  "\<exists>view out e' w ws. parse_iteration (\<lambda>j. of_nat j) MessageView_default
      [NormalizedMessage_default\<lparr>nm_price := 1500000, nm_side := 1\<rparr>] demo_exec_engine = Some (view, out, e') \<and>
     disp_contents (ce_dispatcher e') = [w # ws] \<and> nm_type w = NM_ORDER_EXECUTE \<and>
     nm_price w = 1500000 \<and> nm_side w = 1"
proof -
  have fr: "frames (take (unat (pk_length (received_packet 35 (drop 40 demo_packet @ replicate 8938 0) 1000)))
      (pk_data (received_packet 35 (drop 40 demo_packet @ replicate 8938 0) 1000))) =
      [Body (take 33 (drop 42 demo_packet))]"
    using demo_exec_frames by (simp add: received_packet_def demo_length)
  show ?thesis
    using engine_dispatches_stale_fields[OF demo_exec_facts(1-3) _ fr, of
        "NormalizedMessage_default\<lparr>nm_price := 1500000, nm_side := 1\<rparr>" "[]" "\<lambda>j. of_nat j" MessageView_default]
    by (force simp: demo_length demo_exec_type demo_exec_facts queue_after_def)
qed

text \<open>
  C28: configuration is refused while the engine runs, starting is refused without a parser and does
  nothing while running; and an engine that was stopped and started again runs its dispatcher but
  never receives: its receiver has no socket and is not running.
\<close>

theorem engine_lifecycle:
  "(ce_running e \<longrightarrow>
     set_parser q e = Inl (Runtime_error ''Cannot change parser while running'') \<and>
     CoreEngine_add_subscriber sub e = Inl (Runtime_error ''Cannot add subscriber while running'') \<and>
     CoreEngine_start e = Inr e) \<and>
   (\<not> ce_running e \<and> ce_parser e = None \<longrightarrow>
     CoreEngine_start e = Inl (Runtime_error ''No parser configured'')) \<and>
   (\<not> ce_running e \<and> ce_parser e \<noteq> None \<longrightarrow>
     (\<exists>e1 e3. CoreEngine_start e = Inr e1 \<and> ce_running e1 \<and>
       \<not> ce_running (CoreEngine_stop e1) \<and> CoreEngine_start (CoreEngine_stop e1) = Inr e3 \<and>
       ce_running e3 \<and> d_running (ce_dispatcher e3) \<and> \<not> ur_running (ce_receiver e3) \<and>
       ur_socket_fd (ce_receiver e3) < 0))"
proof (intro conjI impI, goal_cases)
  case 5
  then have "ce_running (started e)" "ce_parser (CoreEngine_stop (started e)) \<noteq> None"
    "\<not> ce_running (CoreEngine_stop (started e))"
    "ce_receiver (CoreEngine_stop (started e)) = UDPReceiver_stop (UDPReceiver_start (ce_receiver e))"
    using engine_stop[of "started e"] by (simp_all add: started_def)
  with 5 show ?case using engine_start[of e] engine_start[of "CoreEngine_stop (started e)"]
    by (simp add: started_def[of "CoreEngine_stop (started e)"] receiver_restart dispatcher_started)
qed (auto simp: set_parser_def CoreEngine_add_subscriber_def CoreEngine_start_def)

theorem engine_lifecycle_witness:
  "\<exists>e1 e3. CoreEngine_start demo_engine = Inr e1 \<and> CoreEngine_start (CoreEngine_stop e1) = Inr e3 \<and>
     ce_running e3 \<and> \<not> ur_running (ce_receiver e3)"
  using engine_lifecycle[of demo_engine] by (auto simp: demo_engine_def)

end
