(* ===== verification/Dispatcher_Concurrent.thy ===== *)
theory Dispatcher_Concurrent
  imports Dispatcher "HOL-Library.Sublist"
begin

text \<open>
  The dispatcher with its two threads interleaved: the parser thread inside \<open>dispatch\<close>, the
  dispatcher thread inside \<open>dispatch_loop\<close>, and a third thread that may store \<open>running_ = false\<close>.
  A step is one queue operation, one \<open>on_message\<close> call, one test of \<open>running_\<close> or one statistics
  update.  \<open>SPSC_Concurrent\<close> shows that a queue operation takes effect in one step, and that it may
  also report a full or an empty queue because it read the other thread's index late
  (\<open>dispatch_stale_full\<close>, \<open>loop_stale_empty\<close>).  Three
  history variables record the messages dispatched, accepted by each queue and delivered to each
  subscriber.
\<close>

section \<open>Threads and steps\<close>

datatype dispatch_pc = D_Idle | D_Push NormalizedMessage u64 nat

text \<open>\<open>L_Pop i\<close>: at \<open>while (queue->pop(msg))\<close> for subscriber \<open>i\<close>.\<close>

datatype loop_pc = L_Test | L_Pop nat bool | L_Deliver nat NormalizedMessage | L_Exit

record 's disp_sys =
  ds_disp :: "'s Dispatcher"
  ds_dpc :: dispatch_pc
  ds_lpc :: loop_pc
  ds_dispatched :: "NormalizedMessage list"
  ds_accepted :: "NormalizedMessage list list"
  ds_delivered :: "NormalizedMessage list list"

definition disp_started :: "'s ISubscriber list \<Rightarrow> 's Dispatcher" where
  "disp_started subs = Dispatcher_start (fold add_subscriber subs Dispatcher_new)"

definition disp_sys_init :: "'s ISubscriber list \<Rightarrow> 's disp_sys" where
  "disp_sys_init subs = \<lparr>ds_disp = disp_started subs, ds_dpc = D_Idle, ds_lpc = L_Test,
     ds_dispatched = [], ds_accepted = replicate (length subs) [],
     ds_delivered = replicate (length subs) []\<rparr>"

inductive disp_step :: "'s disp_sys \<Rightarrow> 's disp_sys \<Rightarrow> bool" where
  dispatch_begin:
    "ds_dpc s = D_Idle \<Longrightarrow>
     disp_step s (s\<lparr>ds_dpc := D_Push msg (now - nm_local_timestamp msg) 0,
       ds_dispatched := ds_dispatched s @ [msg]\<rparr>)"
| dispatch_push:
    "ds_dpc s = D_Push msg latency k \<Longrightarrow> d = ds_disp s \<Longrightarrow> k < length (d_queues d) \<Longrightarrow>
     spsc_push msg (d_queues d ! k) = Some (ok, q') \<Longrightarrow>
     disp_step s (s\<lparr>ds_dpc := D_Push msg latency (Suc k),
       ds_disp := d\<lparr>d_queues := (d_queues d)[k := q'],
         d_stats := (if ok then d_stats d
           else (d_stats d)\<lparr>packets_dropped := packets_dropped (d_stats d) + 1\<rparr>)\<rparr>,
       ds_accepted := (if ok then (ds_accepted s)[k := ds_accepted s ! k @ [msg]]
         else ds_accepted s)\<rparr>)"
| dispatch_stale_full:
    "ds_dpc s = D_Push msg latency k \<Longrightarrow> d = ds_disp s \<Longrightarrow> k < length (d_queues d) \<Longrightarrow>
     spsc_cap (d_queues d ! k) \<le> length (ds_accepted s ! k) \<Longrightarrow>
     disp_step s (s\<lparr>ds_dpc := D_Push msg latency (Suc k),
       ds_disp := d\<lparr>d_stats := (d_stats d)\<lparr>packets_dropped := packets_dropped (d_stats d) + 1\<rparr>\<rparr>\<rparr>)"
| dispatch_end:
    "ds_dpc s = D_Push msg latency k \<Longrightarrow> d = ds_disp s \<Longrightarrow> k = length (d_queues d) \<Longrightarrow>
     disp_step s (s\<lparr>ds_dpc := D_Idle,
       ds_disp := d\<lparr>d_stats := update_latency latency
         ((d_stats d)\<lparr>messages_dispatched := messages_dispatched (d_stats d) + 1\<rparr>)\<rparr>\<rparr>)"
| loop_enter:
    "ds_lpc s = L_Test \<Longrightarrow> d_running (ds_disp s) \<Longrightarrow> disp_step s (s\<lparr>ds_lpc := L_Pop 0 False\<rparr>)"
| loop_exit:
    "ds_lpc s = L_Test \<Longrightarrow> \<not> d_running (ds_disp s) \<Longrightarrow> disp_step s (s\<lparr>ds_lpc := L_Exit\<rparr>)"
| loop_pop_item:
    "ds_lpc s = L_Pop i act \<Longrightarrow> d = ds_disp s \<Longrightarrow> i < length (d_subscribers d) \<Longrightarrow>
     spsc_pop (d_queues d ! i) = Some (Some msg, q') \<Longrightarrow>
     disp_step s (s\<lparr>ds_lpc := L_Deliver i msg, ds_disp := d\<lparr>d_queues := (d_queues d)[i := q']\<rparr>\<rparr>)"
| loop_pop_empty:
    "ds_lpc s = L_Pop i act \<Longrightarrow> d = ds_disp s \<Longrightarrow> i < length (d_subscribers d) \<Longrightarrow>
     spsc_pop (d_queues d ! i) = Some (None, q') \<Longrightarrow>
     disp_step s (s\<lparr>ds_lpc := L_Pop (Suc i) act, ds_disp := d\<lparr>d_queues := (d_queues d)[i := q']\<rparr>\<rparr>)"
| loop_stale_empty:
    "ds_lpc s = L_Pop i act \<Longrightarrow> i < length (d_subscribers (ds_disp s)) \<Longrightarrow>
     disp_step s (s\<lparr>ds_lpc := L_Pop (Suc i) act\<rparr>)"
| loop_deliver:
    "ds_lpc s = L_Deliver i msg \<Longrightarrow> d = ds_disp s \<Longrightarrow>
     disp_step s (s\<lparr>ds_lpc := L_Pop i True,
       ds_disp := d\<lparr>d_subscribers :=
         (d_subscribers d)[i := snd (on_message msg (d_subscribers d ! i))]\<rparr>,
       ds_delivered := (ds_delivered s)[i := ds_delivered s ! i @ [msg]]\<rparr>)"
| loop_pass_end:
    "ds_lpc s = L_Pop i act \<Longrightarrow> i = length (d_subscribers (ds_disp s)) \<Longrightarrow>
     disp_step s (s\<lparr>ds_lpc := L_Test\<rparr>)"
| stop_request:
    "d = ds_disp s \<Longrightarrow> disp_step s (s\<lparr>ds_disp := d\<lparr>d_running := False\<rparr>\<rparr>)"

inductive disp_reach :: "'s ISubscriber list \<Rightarrow> 's disp_sys \<Rightarrow> bool" for subs where
  reach_init: "disp_reach subs (disp_sys_init subs)"
| reach_step: "disp_reach subs s \<Longrightarrow> disp_step s s' \<Longrightarrow> disp_reach subs s'"

section \<open>Invariant\<close>

text \<open>The messages that have been offered to queue \<open>i\<close>, and the message popped but not delivered.\<close>

definition offered_to :: "'s disp_sys \<Rightarrow> nat \<Rightarrow> NormalizedMessage list" where
  "offered_to s i = (case ds_dpc s of D_Idle \<Rightarrow> ds_dispatched s
     | D_Push m l k \<Rightarrow> if i < k then ds_dispatched s else butlast (ds_dispatched s))"

definition in_flight :: "'s disp_sys \<Rightarrow> nat \<Rightarrow> NormalizedMessage list" where
  "in_flight s i = (case ds_lpc s of L_Deliver j m \<Rightarrow> if j = i then [m] else [] | _ \<Rightarrow> [])"

definition refused_by :: "'s disp_sys \<Rightarrow> nat \<Rightarrow> nat" where
  "refused_by s i = length (offered_to s i) - length (ds_accepted s ! i)"

definition finished :: "'s disp_sys \<Rightarrow> NormalizedMessage list" where
  "finished s = (case ds_dpc s of D_Idle \<Rightarrow> ds_dispatched s | _ \<Rightarrow> butlast (ds_dispatched s))"

fun dpc_ok :: "dispatch_pc \<Rightarrow> nat \<Rightarrow> NormalizedMessage list \<Rightarrow> bool" where
  "dpc_ok D_Idle n ms \<longleftrightarrow> True"
| "dpc_ok (D_Push m l k) n ms \<longleftrightarrow> k \<le> n \<and> ms \<noteq> [] \<and> last ms = m"

fun lpc_ok :: "loop_pc \<Rightarrow> nat \<Rightarrow> bool" where
  "lpc_ok (L_Pop i act) n \<longleftrightarrow> i \<le> n"
| "lpc_ok (L_Deliver i m) n \<longleftrightarrow> i < n"
| "lpc_ok _ n \<longleftrightarrow> True"

definition disp_sys_inv :: "'s ISubscriber list \<Rightarrow> 's disp_sys \<Rightarrow> bool" where
  "disp_sys_inv subs s \<longleftrightarrow>
     (let d = ds_disp s; n = length subs in
      disp_inv d \<and> length (d_subscribers d) = n \<and> length (ds_accepted s) = n \<and>
      length (ds_delivered s) = n \<and> dpc_ok (ds_dpc s) n (ds_dispatched s) \<and> lpc_ok (ds_lpc s) n \<and>
      (\<forall>i<n. ds_delivered s ! i @ in_flight s i @ spsc_contents (d_queues d ! i) = ds_accepted s ! i \<and>
         subseq (ds_accepted s ! i) (offered_to s i) \<and>
         d_subscribers d ! i = deliver_all (ds_delivered s ! i) (initialize_sub (subs ! i))) \<and>
      packets_dropped (d_stats d) = of_nat (\<Sum>i<n. refused_by s i) \<and>
      messages_dispatched (d_stats d) = of_nat (length (finished s)))"

lemma frame_simps [simp]:
  "offered_to (s\<lparr>ds_lpc := l\<rparr>) = offered_to s" "offered_to (s\<lparr>ds_disp := d\<rparr>) = offered_to s"
  "offered_to (s\<lparr>ds_delivered := dl\<rparr>) = offered_to s"
  "refused_by (s\<lparr>ds_lpc := l\<rparr>) = refused_by s" "refused_by (s\<lparr>ds_disp := d\<rparr>) = refused_by s"
  "refused_by (s\<lparr>ds_delivered := dl\<rparr>) = refused_by s"
  "finished (s\<lparr>ds_lpc := l\<rparr>) = finished s" "finished (s\<lparr>ds_disp := d\<rparr>) = finished s"
  "finished (s\<lparr>ds_delivered := dl\<rparr>) = finished s"
  by (simp_all add: fun_eq_iff refused_by_def offered_to_def finished_def split: dispatch_pc.splits)

lemma fold_add_subscriber:
  "d_subscribers (fold add_subscriber subs d) = d_subscribers d @ subs"
  "d_queues (fold add_subscriber subs d) = d_queues d @
     replicate (length subs) (SPSCQueue_new DEFAULT_QUEUE_SIZE NormalizedMessage_default)"
  "d_running (fold add_subscriber subs d) = d_running d"
  "d_stats (fold add_subscriber subs d) = d_stats d"
  by (induction subs arbitrary: d) (simp_all add: add_subscriber_def)

lemma disp_inv_fold: "disp_inv d \<Longrightarrow> disp_inv (fold add_subscriber subs d)"
  by (induction subs arbitrary: d) simp_all

lemma disp_started_fields:
  "d_subscribers (disp_started subs) = map initialize_sub subs"
  "d_queues (disp_started subs) =
     replicate (length subs) (SPSCQueue_new DEFAULT_QUEUE_SIZE NormalizedMessage_default)"
  "d_running (disp_started subs)" "d_stats (disp_started subs) = Statistics_init"
  by (simp_all add: disp_started_def Dispatcher_start_def fold_add_subscriber)
    (simp_all add: Dispatcher_new_def)

lemma disp_inv_started: "disp_inv (disp_started subs)"
  by (simp only: disp_started_def disp_inv_start disp_inv_fold disp_inv_new)

lemma disp_sys_inv_init: "disp_sys_inv subs (disp_sys_init subs)"
  by (simp add: disp_sys_inv_def disp_sys_init_def disp_started_fields disp_inv_started in_flight_def
      offered_to_def refused_by_def finished_def fresh_queue Statistics_init_def)

lemma sum_bump:
  fixes f g :: "nat \<Rightarrow> nat"
  assumes "k < n" "g k = f k + 1" "\<And>i. i \<noteq> k \<Longrightarrow> g i = f i"
  shows "(\<Sum>i<n. g i) = (\<Sum>i<n. f i) + 1"
proof -
  have "(\<Sum>i<n. g i) = g k + (\<Sum>i\<in>{..<n} - {k}. g i)"
    using assms(1) by (intro sum.remove) auto
  also have "(\<Sum>i\<in>{..<n} - {k}. g i) = (\<Sum>i\<in>{..<n} - {k}. f i)"
    using assms(3) by (intro sum.cong) auto
  also have "g k + (\<Sum>i\<in>{..<n} - {k}. f i) = (\<Sum>i<n. f i) + 1"
    using assms(1,2) sum.remove[of "{..<n}" k f] by simp
  finally show ?thesis .
qed

lemma disp_inv_update:
  assumes "disp_inv d" "spsc_inv q'" "sq_Size q' = sq_Size (d_queues d ! k)" "k < length (d_queues d)"
  shows "disp_inv (d\<lparr>d_queues := (d_queues d)[k := q']\<rparr>)"
  using assms set_update_subset_insert[of "d_queues d" k q'] nth_mem[OF assms(4)]
  unfolding disp_inv_def by (auto simp: subset_iff)

lemma disp_inv_irrelevant [simp]:
  "disp_inv (d\<lparr>d_stats := st\<rparr>) = disp_inv d" "disp_inv (d\<lparr>d_running := b\<rparr>) = disp_inv d"
  "disp_inv (d\<lparr>d_subscribers := (d_subscribers d)[i := sub]\<rparr>) = disp_inv d"
  "disp_inv (d\<lparr>d_queues := qs, d_stats := st\<rparr>) = disp_inv (d\<lparr>d_queues := qs\<rparr>)"
  by (simp_all add: disp_inv_def)

lemma disp_inv_nth: "disp_inv d \<Longrightarrow> i < length (d_queues d) \<Longrightarrow> spsc_inv (d_queues d ! i)"
  by (simp add: disp_inv_def)

lemma disp_inv_length: "disp_inv d \<Longrightarrow> length (d_queues d) = length (d_subscribers d)"
  by (simp add: disp_inv_def)

text \<open>The invariant is kept by the steps of the parser thread.\<close>

lemma inv_push:
  assumes inv: "disp_sys_inv subs s" and pc: "ds_dpc s = D_Push msg latency k"
    and d: "d = ds_disp s" and k: "k < length (d_queues d)"
    and q': "spsc_inv q'" "sq_Size q' = sq_Size (d_queues d ! k)"
      "spsc_contents q' = spsc_contents (d_queues d ! k) @ (if ok then [msg] else [])"
  shows "disp_sys_inv subs (s\<lparr>ds_dpc := D_Push msg latency (Suc k),
       ds_disp := d\<lparr>d_queues := (d_queues d)[k := q'],
         d_stats := (if ok then d_stats d
           else (d_stats d)\<lparr>packets_dropped := packets_dropped (d_stats d) + 1\<rparr>)\<rparr>,
       ds_accepted := (if ok then (ds_accepted s)[k := ds_accepted s ! k @ [msg]]
         else ds_accepted s)\<rparr>)" (is "disp_sys_inv subs ?s'")
proof -
  let ?n = "length subs"
  have di: "disp_inv d" and n: "length (d_queues d) = ?n" "length (d_subscribers d) = ?n"
    "length (ds_accepted s) = ?n"
    using inv by (auto simp: disp_sys_inv_def Let_def d disp_inv_length)
  have ms: "ds_dispatched s \<noteq> []" "last (ds_dispatched s) = msg"
    using inv pc by (auto simp: disp_sys_inv_def Let_def)
  have off: "offered_to ?s' i = offered_to s i" if "i \<noteq> k" for i
    using that pc by (simp add: offered_to_def less_Suc_eq)
  have offk: "offered_to ?s' k = offered_to s k @ [msg]"
    using ms pc append_butlast_last_id[of "ds_dispatched s"] by (simp add: offered_to_def)
  have sub: "\<And>i. i < ?n \<Longrightarrow> subseq (ds_accepted s ! i) (offered_to s i)"
    using inv by (simp add: disp_sys_inv_def Let_def)
  have le: "length (ds_accepted s ! k) \<le> length (offered_to s k)"
    using list_emb_length[OF sub[of k]] k n by simp
  have drop: "packets_dropped (d_stats (ds_disp ?s')) = of_nat (\<Sum>i<?n. refused_by ?s' i)"
  proof (cases ok)
    case True
    then have "refused_by ?s' i = refused_by s i" if "i < ?n" for i
      using off offk n that by (cases "i = k") (simp_all add: refused_by_def)
    then have "(\<Sum>i<?n. refused_by ?s' i) = (\<Sum>i<?n. refused_by s i)" by (intro sum.cong) auto
    with True inv show ?thesis by (simp add: disp_sys_inv_def Let_def d)
  next
    case False
    have "(\<Sum>i<?n. refused_by ?s' i) = (\<Sum>i<?n. refused_by s i) + 1"
      by (rule sum_bump[of k]) (use False off offk le k n in \<open>simp_all add: refused_by_def Suc_diff_le\<close>)
    with False inv show ?thesis by (simp add: disp_sys_inv_def Let_def d algebra_simps)
  qed
  have "subseq (ds_accepted ?s' ! i) (offered_to ?s' i)" if "i < ?n" for i
    using sub[OF that] off offk n k that
    by (cases "i = k") (auto simp: list_emb_append_mono subseq_rev_drop_many)
  then show ?thesis
    using inv drop di n k ms q' pc disp_inv_update[OF di _ _ k, of q']
    by (auto simp: disp_sys_inv_def Let_def d in_flight_def nth_list_update finished_def Suc_le_eq)
qed

lemma inv_pop_item:
  assumes inv: "disp_sys_inv subs s" and pc: "ds_lpc s = L_Pop i act"
    and d: "d = ds_disp s" and i: "i < length (d_subscribers d)"
    and pop: "spsc_pop (d_queues d ! i) = Some (Some msg, q')"
  shows "disp_sys_inv subs
    (s\<lparr>ds_lpc := L_Deliver i msg, ds_disp := d\<lparr>d_queues := (d_queues d)[i := q']\<rparr>\<rparr>)"
proof -
  have di: "disp_inv d" using inv by (simp add: disp_sys_inv_def Let_def d)
  then have k: "i < length (d_queues d)" using i by (simp add: disp_inv_length)
  note q' = spsc.pop_SomeD[OF disp_inv_nth[OF di k] pop] spsc_pop_Size[OF pop]
  show ?thesis
    using inv i k pc q' disp_inv_update[OF di _ _ k, of q']
    by (auto simp: disp_sys_inv_def Let_def d in_flight_def nth_list_update)
qed

lemma inv_pop_empty:
  assumes inv: "disp_sys_inv subs s" and pc: "ds_lpc s = L_Pop i act"
    and d: "d = ds_disp s" and i: "i < length (d_subscribers d)"
    and pop: "spsc_pop (d_queues d ! i) = Some (None, q')"
  shows "disp_sys_inv subs
    (s\<lparr>ds_lpc := L_Pop (Suc i) act, ds_disp := d\<lparr>d_queues := (d_queues d)[i := q']\<rparr>\<rparr>)"
proof -
  have di: "disp_inv d" using inv by (simp add: disp_sys_inv_def Let_def d)
  then have k: "i < length (d_queues d)" using i by (simp add: disp_inv_length)
  note q' = spsc.pop_SomeD[OF disp_inv_nth[OF di k] pop] spsc_pop_Size[OF pop]
  show ?thesis
    using inv i k pc q' disp_inv_update[OF di _ _ k, of q']
    by (auto simp: disp_sys_inv_def Let_def d in_flight_def nth_list_update)
qed

lemma inv_deliver:
  assumes inv: "disp_sys_inv subs s" and pc: "ds_lpc s = L_Deliver i msg" and d: "d = ds_disp s"
  shows "disp_sys_inv subs (s\<lparr>ds_lpc := L_Pop i True,
       ds_disp := d\<lparr>d_subscribers :=
         (d_subscribers d)[i := snd (on_message msg (d_subscribers d ! i))]\<rparr>,
       ds_delivered := (ds_delivered s)[i := ds_delivered s ! i @ [msg]]\<rparr>)"
  using inv pc
  by (auto simp: disp_sys_inv_def Let_def d in_flight_def nth_list_update)

lemma of_nat_pred_length:
  "xs \<noteq> [] \<Longrightarrow> (of_nat (length xs - Suc 0) :: 'w::len word) + 1 = of_nat (length xs)"
  by (cases xs) simp_all

lemma disp_sys_inv_step:
  assumes "disp_step s s'" "disp_sys_inv subs s"
  shows "disp_sys_inv subs s'"
  using assms
proof cases
  case (dispatch_push msg latency k d ok q')
  have "spsc_inv (d_queues d ! k)"
    using assms(2) dispatch_push by (auto simp: disp_sys_inv_def Let_def intro: disp_inv_nth)
  from spsc.push_SomeD[OF this dispatch_push(5)] spsc_push_Size[OF dispatch_push(5)]
  show ?thesis using inv_push[OF assms(2) dispatch_push(2-4), of q' ok] unfolding dispatch_push(1) by auto
next
  case (dispatch_stale_full msg latency k d)
  have "spsc_inv (d_queues d ! k)"
    using assms(2) dispatch_stale_full by (auto simp: disp_sys_inv_def Let_def intro: disp_inv_nth)
  from inv_push[OF assms(2) dispatch_stale_full(2-4) this, of False]
  show ?thesis unfolding dispatch_stale_full(1) by simp
next
  case (loop_pop_item i act d msg q')
  then show ?thesis using inv_pop_item[OF assms(2)] by blast
next
  case (loop_pop_empty i act d q')
  then show ?thesis using inv_pop_empty[OF assms(2)] by blast
next
  case (loop_deliver i msg d)
  then show ?thesis using inv_deliver[OF assms(2)] by blast
next
  case (dispatch_end msg latency k d)
  then show ?thesis using assms(2)
    by (auto simp: disp_sys_inv_def Let_def in_flight_def finished_def offered_to_def refused_by_def
        disp_inv_length of_nat_pred_length)
qed (use assms(2) in \<open>auto simp: disp_sys_inv_def Let_def in_flight_def finished_def offered_to_def
    refused_by_def split: dispatch_pc.splits\<close>)

lemma disp_reach_inv: "disp_reach subs s \<Longrightarrow> disp_sys_inv subs s"
  by (induction rule: disp_reach.induct) (auto intro: disp_sys_inv_init disp_sys_inv_step)

text \<open>What every subscriber has got.\<close>

lemma disp_reach_deliveries:
  assumes "disp_reach subs s" "i < length subs"
  shows "\<exists>popped. length popped \<le> 1 \<and> ds_accepted s ! i =
      ds_delivered s ! i @ popped @ spsc_contents (d_queues (ds_disp s) ! i)"
    "d_subscribers (ds_disp s) ! i = deliver_all (ds_delivered s ! i) (initialize_sub (subs ! i))"
    "subseq (ds_accepted s ! i) (ds_dispatched s)"
proof -
  have inv: "disp_sys_inv subs s" using disp_reach_inv[OF assms(1)] .
  have fl: "length (in_flight s i) \<le> 1" by (simp add: in_flight_def split: loop_pc.split)
  have off: "subseq (offered_to s i) (ds_dispatched s)"
    by (auto simp: offered_to_def intro: prefix_imp_subseq prefixeq_butlast split: dispatch_pc.split)
  show "\<exists>popped. length popped \<le> 1 \<and> ds_accepted s ! i =
      ds_delivered s ! i @ popped @ spsc_contents (d_queues (ds_disp s) ! i)"
    using inv assms(2) fl by (metis (mono_tags, lifting) disp_sys_inv_def)
  show "d_subscribers (ds_disp s) ! i = deliver_all (ds_delivered s ! i) (initialize_sub (subs ! i))"
    using inv assms(2) by (simp add: disp_sys_inv_def Let_def)
  show "subseq (ds_accepted s ! i) (ds_dispatched s)"
    by (rule subseq_order.trans[OF _ off]) (use inv assms(2) in \<open>simp add: disp_sys_inv_def Let_def\<close>)
qed

lemma disp_reach_length: "disp_reach subs s \<Longrightarrow> length (d_subscribers (ds_disp s)) = length subs"
  using disp_reach_inv by (auto simp: disp_sys_inv_def Let_def)

text \<open>A thread that is not idle can take its next step.\<close>

lemma disp_next_push:
  assumes "disp_sys_inv subs ds" "ds_dpc ds \<noteq> D_Idle"
  shows "\<exists>ds'. disp_step ds ds' \<and> ds_dpc ds' \<noteq> ds_dpc ds"
proof -
  obtain m l k where pc: "ds_dpc ds = D_Push m l k" using assms(2) by (cases "ds_dpc ds") auto
  have di: "disp_inv (ds_disp ds)" and k: "k \<le> length (d_queues (ds_disp ds))"
    using assms(1) pc by (auto simp: disp_sys_inv_def Let_def disp_inv_length)
  show ?thesis
  proof (cases "k < length (d_queues (ds_disp ds))")
    case True
    obtain ok q' where "spsc_push m (d_queues (ds_disp ds) ! k) = Some (ok, q')"
      using spsc.push_no_ub[OF disp_inv_nth[OF di True], of m] by auto
    from dispatch_push[OF pc refl True this] show ?thesis by (fastforce simp: pc)
  next
    case False
    then have "k = length (d_queues (ds_disp ds))" using k by simp
    from dispatch_end[OF pc refl this] show ?thesis by (fastforce simp: pc)
  qed
qed

lemma disp_next_deliver:
  assumes "disp_sys_inv subs ds" "ds_lpc ds \<noteq> L_Exit"
  shows "\<exists>ds'. disp_step ds ds' \<and> ds_lpc ds' \<noteq> ds_lpc ds"
proof (cases "ds_lpc ds")
  case L_Test
  then show ?thesis using loop_enter[OF L_Test] loop_exit[OF L_Test]
    by (cases "d_running (ds_disp ds)") fastforce+
next
  case (L_Pop i act)
  have di: "disp_inv (ds_disp ds)" and i: "i \<le> length (d_subscribers (ds_disp ds))"
    using assms(1) L_Pop by (auto simp: disp_sys_inv_def Let_def)
  show ?thesis
  proof (cases "i < length (d_subscribers (ds_disp ds))")
    case True
    then obtain r q' where r: "spsc_pop (d_queues (ds_disp ds) ! i) = Some (r, q')"
      using spsc.pop_no_ub[OF disp_inv_nth[OF di], of i] disp_inv_length[OF di] by auto
    then show ?thesis
      using loop_pop_item[OF L_Pop refl True] loop_pop_empty[OF L_Pop refl True] L_Pop
      by (cases r) fastforce+
  next
    case False
    then have "i = length (d_subscribers (ds_disp ds))" using i by simp
    from loop_pass_end[OF L_Pop this] show ?thesis by (fastforce simp: L_Pop)
  qed
next
  case (L_Deliver i m)
  then show ?thesis using loop_deliver[OF L_Deliver refl] by fastforce
qed (use assms in simp)

section \<open>A concrete execution\<close>

text \<open>One subscriber that keeps what it receives; one message is being dispatched.\<close>

definition demo_sub :: "NormalizedMessage list ISubscriber" where
  "demo_sub = LambdaSubscriber ''keep'' (\<lambda>m s. (True, s @ [m])) []"

definition demo_dispatching :: "NormalizedMessage list disp_sys" where
  "demo_dispatching = (disp_sys_init [demo_sub])
     \<lparr>ds_dpc := D_Push NormalizedMessage_default 5 0, ds_dispatched := [NormalizedMessage_default]\<rparr>"

lemma demo_dispatching_reach: "disp_reach [demo_sub] demo_dispatching"
  using reach_step[OF reach_init
      dispatch_begin[of "disp_sys_init [demo_sub]" NormalizedMessage_default 5]]
  by (simp add: disp_sys_init_def demo_dispatching_def NormalizedMessage_default_def)

lemma demo_dispatching_fields:
  "ds_dpc demo_dispatching \<noteq> D_Idle" "ds_lpc demo_dispatching = L_Test"
  "ds_dispatched demo_dispatching = [NormalizedMessage_default]"
  "ds_accepted demo_dispatching = [[]]" "ds_delivered demo_dispatching = [[]]"
  by (simp_all add: demo_dispatching_def disp_sys_init_def)

section \<open>Properties\<close>

text \<open>
  C11: in every interleaving of dispatching, delivering and stopping, each subscriber has received
  an initial part of what its queue accepted, in the order of dispatch and without duplicates, its
  state is the result of exactly those deliveries, at most one message is between the queue and the
  subscriber, and what a queue accepted is a subsequence of what was dispatched.  Between two
  dispatches \<open>packets_dropped\<close> is the number of refused messages over all queues and
  \<open>messages_dispatched\<close> the number of dispatched messages, both modulo 2^64.
\<close>

theorem dispatcher_fifo_accounting:
  assumes "disp_reach subs s"
  shows "(\<forall>i<length subs.
      (\<exists>popped. length popped \<le> 1 \<and> ds_accepted s ! i =
        ds_delivered s ! i @ popped @ spsc_contents (d_queues (ds_disp s) ! i)) \<and>
      d_subscribers (ds_disp s) ! i = deliver_all (ds_delivered s ! i) (initialize_sub (subs ! i)) \<and>
      subseq (ds_accepted s ! i) (ds_dispatched s)) \<and>
    (ds_dpc s = D_Idle \<longrightarrow>
      packets_dropped (d_stats (ds_disp s)) =
        of_nat (\<Sum>i<length subs. length (ds_dispatched s) - length (ds_accepted s ! i)) \<and>
      messages_dispatched (d_stats (ds_disp s)) = of_nat (length (ds_dispatched s)))"
proof -
  have inv: "disp_sys_inv subs s" using disp_reach_inv[OF assms] .
  then show ?thesis using disp_reach_deliveries[OF assms]
    by (auto simp: disp_sys_inv_def Let_def refused_by_def offered_to_def finished_def)
qed

theorem dispatcher_fifo_accounting_witness:
  "\<exists>popped. length popped \<le> 1 \<and>
      [] = popped @ spsc_contents (d_queues (ds_disp demo_dispatching) ! 0) \<and>
   d_subscribers (ds_disp demo_dispatching) ! 0 = initialize_sub demo_sub"
  using dispatcher_fifo_accounting[OF demo_dispatching_reach]
  by (auto simp: demo_dispatching_fields)



text \<open>
  \<open>stop\<close> may lose accepted messages: there is an execution in which a message is dispatched
  and accepted by the only queue, \<open>running_\<close> is cleared before the loop starts another pass, and
  the dispatcher thread ends with the message still queued and nothing delivered.
\<close>

theorem dispatcher_stop_loses_messages:
  "\<exists>s. disp_reach [sub] s \<and> ds_lpc s = L_Exit \<and> ds_dpc s = D_Idle \<and>
     ds_accepted s = [[msg]] \<and> ds_delivered s = [[]] \<and>
     spsc_contents (d_queues (ds_disp s) ! 0) = [msg]"
proof -
  let ?s0 = "disp_sys_init [sub]"
  define s1 where "s1 = ?s0\<lparr>ds_dpc := D_Push msg (0 - nm_local_timestamp msg) 0, ds_dispatched := [msg]\<rparr>"
  have r1: "disp_reach [sub] s1"
    using reach_step[OF reach_init dispatch_begin[of ?s0 msg 0]]
    by (simp add: disp_sys_init_def s1_def)
  have d0: "disp_inv (disp_started [sub])" "length (d_queues (disp_started [sub])) = 1"
    by (simp_all add: disp_inv_started disp_started_fields)
  have room: "length (spsc_contents (d_queues (disp_started [sub]) ! 0)) <
      spsc_cap (d_queues (disp_started [sub]) ! 0)"
    by (simp add: disp_started_fields fresh_queue)
  obtain q' where q': "spsc_push msg (d_queues (disp_started [sub]) ! 0) = Some (True, q')"
    "spsc_contents q' = [msg]"
    using spsc.push_room[OF disp_inv_nth[OF d0(1)] room, of msg] d0(2)
    by (auto simp: disp_started_fields fresh_queue)
  have s1: "ds_dpc s1 = D_Push msg (0 - nm_local_timestamp msg) 0" "disp_started [sub] = ds_disp s1"
    "ds_lpc s1 = L_Test" "ds_accepted s1 = [[]]" "ds_delivered s1 = [[]]"
    by (simp_all add: s1_def disp_sys_init_def)
  have "0 < length (d_queues (disp_started [sub]))" by (simp add: d0(2))
  note step = dispatch_push[OF s1(1,2) this q'(1)]
  have "\<exists>s2. disp_step s1 s2 \<and> ds_lpc s2 = L_Test \<and> ds_accepted s2 = [[msg]] \<and> ds_delivered s2 = [[]] \<and>
      ds_dpc s2 = D_Push msg (0 - nm_local_timestamp msg) 1 \<and> d_queues (ds_disp s2) = [q']"
    by (intro exI conjI, rule step) (simp_all add: s1 disp_started_fields flip: s1(2))
  then obtain s2 where s2: "disp_step s1 s2" "ds_lpc s2 = L_Test" "ds_accepted s2 = [[msg]]"
    "ds_delivered s2 = [[]]" "ds_dpc s2 = D_Push msg (0 - nm_local_timestamp msg) 1"
    "d_queues (ds_disp s2) = [q']" by blast
  define s3 where "s3 = s2\<lparr>ds_dpc := D_Idle, ds_disp := (ds_disp s2)\<lparr>d_stats :=
    update_latency (0 - nm_local_timestamp msg) ((d_stats (ds_disp s2))\<lparr>messages_dispatched :=
      messages_dispatched (d_stats (ds_disp s2)) + 1\<rparr>)\<rparr>\<rparr>"
  have s3: "disp_step s2 s3" "ds_lpc s3 = L_Test" "ds_accepted s3 = [[msg]]"
    "ds_delivered s3 = [[]]" "ds_dpc s3 = D_Idle" "d_queues (ds_disp s3) = [q']"
    using dispatch_end[OF s2(5) refl] s2 by (simp_all add: s3_def)
  let ?s4 = "s3\<lparr>ds_disp := (ds_disp s3)\<lparr>d_running := False\<rparr>\<rparr>"
  have "disp_step ?s4 (?s4\<lparr>ds_lpc := L_Exit\<rparr>)" by (rule loop_exit) (simp_all add: s3)
  then have "disp_reach [sub] (?s4\<lparr>ds_lpc := L_Exit\<rparr>)"
    using reach_step[OF reach_step[OF reach_step[OF r1 s2(1)] s3(1)] stop_request[OF refl]]
    by (rule reach_step[rotated])
  then show ?thesis using s3 q'(2)
    by (intro exI[of _ "?s4\<lparr>ds_lpc := L_Exit\<rparr>"]) simp
qed

end
