(* ===== verification/Message_Types.thy ===== *)
theory Message_Types
  imports Itch_Spec
begin

text \<open>
  The ranges of the fields of normalized messages.  The fields of \<open>NormalizedMessage\<close> are wider than
  those of the wire format; a message conforms when every field has a value the wire format can
  carry.  Slots of the output array that conform stay conforming under every parse, although the
  handlers leave the fields they do not know as they were.
\<close>

section \<open>Conformance\<close>

definition conforms :: "NormalizedMessage \<Rightarrow> bool" where
  "conforms m \<longleftrightarrow> unat (nm_instrument_id m) < 2 ^ 16 \<and> unat (nm_price m) < 2 ^ 32 \<and>
     unat (nm_quantity m) < 2 ^ 32 \<and> nm_side m \<in> {0, 1} \<and> unat (nm_sequence m) < 2 ^ 16"

definition itch_types :: "NmType set" where
  "itch_types = {NM_TRADE, NM_ORDER_ADD, NM_ORDER_MODIFY, NM_ORDER_DELETE, NM_ORDER_EXECUTE,
     NM_SYSTEM_EVENT}"

definition conforms_at :: "Timestamp \<Rightarrow> NormalizedMessage \<Rightarrow> bool" where
  "conforms_at ts m \<longleftrightarrow> conforms m \<and> nm_type m \<in> itch_types \<and> nm_local_timestamp m = ts"

lemma conforms_default [simp]: "conforms NormalizedMessage_default"
  by (simp add: conforms_def NormalizedMessage_default_def)

lemma unat_ucast_bound [simp]:
  "unat (ucast (x :: u16) :: u64) < 65536" "unat (ucast (y :: u32) :: u64) < 4294967296"
  "unat (ucast (x :: u16) :: u32) < 65536"
  using unsigned_less[of x, where 'a = nat] unsigned_less[of y, where 'a = nat] by simp_all

lemma side_of_range [simp]: "side_of b = 0 \<or> side_of b = 1"
  by (simp add: side_of_def)

text \<open>Decoding keeps conformance and gives the message a type of the protocol.\<close>

lemma decode_conforms:
  assumes "decoded_from t = Some k" "conforms m"
  shows "conforms_at ts (decode t b ts m)"
  using assms by (cases t) (simp_all add: conforms_at_def conforms_def itch_types_def decode_header_def
      del: unat_ucast_widen)

lemma msg_effect_conforms:
  "msg_effect b ts m p = (True, m', p') \<Longrightarrow> conforms m \<Longrightarrow> conforms_at ts m'"
  using decode_conforms by (auto simp: msg_effect_def Let_def split: option.splits if_splits)

lemma msg_effect_rejected: "msg_effect b ts m p = (False, m', p') \<Longrightarrow> m' = m"
  by (auto simp: msg_effect_def Let_def split: option.splits if_splits)

lemma ref_parse_conforms:
  "\<forall>m\<in>set slots. conforms m \<Longrightarrow> \<forall>m\<in>set (fst (ref_parse ts slots fs p)). conforms_at ts m"
  by (induction ts slots fs p rule: ref_parse.induct)
    (auto split: prod.splits bool.splits dest: msg_effect_conforms)

text \<open>The price is an \<open>int64_t\<close>: for conforming messages its signed reading is not negative.\<close>

lemma conforms_price:
  assumes "conforms m"
  shows "sint (nm_price m) = int (unat (nm_price m))" "0 \<le> sint (nm_price m)" "sint (nm_price m) < 2 ^ 32"
proof -
  have u: "uint (nm_price m) = int (unat (nm_price m))" by simp
  have "int (unat (nm_price m)) < int (2 ^ 32)" using assms by (simp only: conforms_def of_nat_less_iff)
  with u have lt: "uint (nm_price m) < 2 ^ 32" by simp
  then have "uint (nm_price m) < 2 ^ 63" by simp
  then show eq: "sint (nm_price m) = int (unat (nm_price m))"
    using signed_take_bit_int_eq_self[of 63 "uint (nm_price m)"] by (simp add: sint_uint u del: of_nat_unat)
  show "0 \<le> sint (nm_price m)" "sint (nm_price m) < 2 ^ 32" using lt by (simp_all add: eq)
qed

section \<open>Properties\<close>

text \<open>
  C10: the parser keeps its output array well typed.  On a view inside its packet and an array whose
  slots hold conforming messages (as the engine's fresh array does), \<open>parse\<close> leaves every slot
  conforming, and each message it reports has one of the six types of the protocol, the reception time
  of the packet, an instrument and sequence number below 2^16, a price and quantity below 2^32 with the
  price not negative as \<open>int64_t\<close>, and side 0 or 1, also where a field is left over from an
  earlier message.
\<close>

theorem parsed_messages_conform:
  assumes "view_ok v" "unat mx \<le> length out" "\<forall>m\<in>set out. conforms m"
    and "ItchParser_parse v out mx p = Some (c, out', p')"
  shows "(\<forall>m\<in>set out'. conforms m) \<and>
    (\<forall>m\<in>set (take (unat c) out'). nm_type m \<in> itch_types \<and> nm_local_timestamp m = mv_timestamp v \<and>
      unat (nm_instrument_id m) < 2 ^ 16 \<and> unat (nm_sequence m) < 2 ^ 16 \<and>
      unat (nm_quantity m) < 2 ^ 32 \<and> 0 \<le> sint (nm_price m) \<and> sint (nm_price m) < 2 ^ 32 \<and>
      nm_side m \<in> {0, 1})"
proof (cases "mv_data v")
  case None
  then have "c = 0" "out' = out" using assms(4) by (auto simp: ItchParser_parse_def is_valid_def)
  then show ?thesis using assms(3) by simp
next
  case (Some data)
  obtain ws q where r: "ref_parse (mv_timestamp v) (take (unat mx) out)
      (frames (take (unat (mv_length v)) data)) p = (ws, q)" by fastforce
  have "\<forall>m\<in>set (take (unat mx) out). conforms m" using assms(3) by (meson in_set_takeD)
  then have ws: "\<forall>m\<in>set ws. conforms_at (mv_timestamp v) m" using ref_parse_conforms r by (metis fst_conv)
  have len: "length ws \<le> unat mx"
    using length_ref_parse[of "mv_timestamp v" "take (unat mx) out"] r assms(2)
    by (metis fst_conv length_take min.absorb2)
  have out: "c = of_nat (length ws)" "out' = ws @ drop (length ws) out"
    using ItchParser_parse_spec[OF Some _ assms(2) r] assms(1,4) Some by (auto simp: view_ok_def)
  have "unat c = length ws"
    using len unat_less_2p64[of mx] by (simp add: out(1) unat_of_nat)
  then have t: "take (unat c) out' = ws" by (simp add: out(2))
  have "\<forall>m\<in>set out'. conforms m"
    using ws assms(3) by (auto simp: out(2) conforms_at_def dest: in_set_dropD)
  moreover have "nm_type m \<in> itch_types \<and> nm_local_timestamp m = mv_timestamp v \<and>
      unat (nm_instrument_id m) < 2 ^ 16 \<and> unat (nm_sequence m) < 2 ^ 16 \<and>
      unat (nm_quantity m) < 2 ^ 32 \<and> 0 \<le> sint (nm_price m) \<and> sint (nm_price m) < 2 ^ 32 \<and>
      nm_side m \<in> {0, 1}" if "m \<in> set ws" for m
    using ws that conforms_price[of m] by (auto simp: conforms_at_def conforms_def)
  ultimately show ?thesis by (simp add: t)
qed

theorem parsed_messages_conform_witness:
  "\<exists>m1 m2 m3 p'. ItchParser_parse demo_view (replicate 3 NormalizedMessage_default) 3 ItchParser_new =
     Some (2, [m1, m2, m3], p') \<and> (\<forall>m\<in>{m1, m2}. nm_local_timestamp m = 1000 \<and> nm_side m \<in> {0, 1})"
proof -
  obtain m1 m2 m3 p' where "ItchParser_parse demo_view (replicate 3 NormalizedMessage_default) 3
      ItchParser_new = Some (2, [m1, m2, m3], p')"
    using ItchParser_parse_spec[of demo_view demo_packet 3 "replicate 3 NormalizedMessage_default"
        ItchParser_new] demo_ref_parse
    by (simp add: replicate_3 demo_view_def demo_length)
  with parsed_messages_conform[OF _ _ _ this] show ?thesis
    by (auto simp: view_ok_def demo_view_def demo_length replicate_3)
qed

end
