(* ===== verification/Engine_Threads.thy ===== *)
theory Engine_Threads
  imports Core_Engine Dispatcher_Concurrent Message_Types
begin

text \<open>
  The running engine: the receive thread, the parse thread, the dispatcher thread and the thread that
  calls \<open>CoreEngine::stop\<close>, interleaved.  A step is one test of a flag, one return of \<open>recvfrom\<close>
  with what the loop does with it, one read and parse of a packet, one step of \<open>dispatch\<close> or
  \<open>dispatch_loop\<close> as in \<open>Dispatcher_Concurrent\<close>, or one statement of \<open>stop\<close>.  As shown in
  \<open>SPSC_Concurrent\<close>, operations on the packet ring take effect in one step and may also report a
  full ring (\<open>recv_stale_full\<close>) or an empty one (\<open>parse_stale_idle\<close>) because they read the other
  thread's index late; a late read of a flag is the store happening later.  \<open>join\<close> waits
  until the thread has left its loop, and \<open>recvfrom\<close> blocks until the operating system returns from
  it.  History variables record the packets that arrived, that the ring accepted and that were read.
\<close>

section \<open>Threads and steps\<close>

datatype recv_pc = R_Test | R_Recv | R_Exit

datatype parse_pc = E_Test | E_Dispatch Timestamp nat size_t | E_Exit

datatype stop_pc = S_Idle | S_Parse | S_Dispatcher | S_Receiver_call | S_Receiver | S_Reset | S_Done

record ('p, 's) engine_sys =
  es_receiver :: UDPReceiver
  es_packet :: Packet
  es_rpc :: recv_pc
  es_parser :: "'p IParser \<times> 'p"
  es_raw :: MessageView
  es_messages :: "NormalizedMessage list"
  es_ppc :: parse_pc
  es_stats :: Statistics
  es_disp :: "'s disp_sys"
  es_running :: bool
  es_spc :: stop_pc
  es_arrived :: "Packet list"
  es_accepted :: "Packet list"
  es_read :: "Packet list"

text \<open>What \<open>Dispatcher::stop\<close> and \<open>UDPReceiver::stop\<close> do once their thread is joined.\<close>

definition disp_joined :: "'s disp_sys \<Rightarrow> 's disp_sys" where
  "disp_joined ds = ds\<lparr>ds_disp := (ds_disp ds)\<lparr>d_joinable := False,
     d_subscribers := map shutdown_sub (d_subscribers (ds_disp ds))\<rparr>\<rparr>"

definition receiver_joined :: "UDPReceiver \<Rightarrow> UDPReceiver" where
  "receiver_joined r =
     (let r = r\<lparr>ur_joinable := False\<rparr>
      in if ur_socket_fd r \<ge> 0
         then (sys (Sys_close (ur_socket_fd r)) r)\<lparr>ur_socket_fd := - 1\<rparr> else r)"

text \<open>The threads of an engine after \<open>start\<close>; \<open>junk\<close> is the uninitialised local packet.\<close>

definition engine_threads :: "bytes \<Rightarrow> 'p IParser \<times> 'p \<Rightarrow> ('p, 's) CoreEngine \<Rightarrow> ('p, 's) engine_sys" where
  "engine_threads junk parser e =
     \<lparr>es_receiver = ce_receiver e, es_packet = Packet_new junk,
      es_rpc = (if ur_running (ce_receiver e) then R_Test else R_Exit),
      es_parser = parser, es_raw = MessageView_default, es_messages = parse_loop_messages e,
      es_ppc = E_Test, es_stats = ce_stats e,
      es_disp = \<lparr>ds_disp = ce_dispatcher e, ds_dpc = D_Idle, ds_lpc = L_Test, ds_dispatched = [],
        ds_accepted = replicate (length (d_subscribers (ce_dispatcher e))) [],
        ds_delivered = replicate (length (d_subscribers (ce_dispatcher e))) []\<rparr>,
      es_running = ce_running e, es_spc = S_Idle, es_arrived = [], es_accepted = [], es_read = []\<rparr>"

inductive engine_step :: "('p, 's) engine_sys \<Rightarrow> ('p, 's) engine_sys \<Rightarrow> bool" where
  recv_enter:
    "es_rpc s = R_Test \<Longrightarrow> ur_running (es_receiver s) \<Longrightarrow> engine_step s (s\<lparr>es_rpc := R_Recv\<rparr>)"
| recv_exit:
    "es_rpc s = R_Test \<Longrightarrow> \<not> ur_running (es_receiver s) \<Longrightarrow> engine_step s (s\<lparr>es_rpc := R_Exit\<rparr>)"
| recv_return:
    "es_rpc s = R_Recv \<Longrightarrow> recv_ok received buf \<Longrightarrow>
     receive_iteration received buf now (es_packet s) (es_receiver s) = Some (pk', r') \<Longrightarrow>
     engine_step s (s\<lparr>es_packet := pk', es_receiver := r', es_rpc := R_Test,
       es_arrived := es_arrived s @ (if 0 < received then [received_packet received buf now] else []),
       es_accepted := es_accepted s @ drop (length (rx_queue (es_receiver s))) (rx_queue r')\<rparr>)"
| recv_stale_full:
    "es_rpc s = R_Recv \<Longrightarrow> recv_ok received buf \<Longrightarrow> 0 < received \<Longrightarrow> r = es_receiver s \<Longrightarrow>
     spsc_cap (ur_packet_queue r) \<le> length (es_accepted s) \<Longrightarrow>
     engine_step s (s\<lparr>es_packet := received_packet received buf now,
       es_receiver := r\<lparr>ur_stats := (ur_stats r)\<lparr>packets_dropped := packets_dropped (ur_stats r) + 1\<rparr>\<rparr>,
       es_rpc := R_Test, es_arrived := es_arrived s @ [received_packet received buf now]\<rparr>)"
| parse_exit:
    "es_ppc s = E_Test \<Longrightarrow> \<not> es_running s \<Longrightarrow> engine_step s (s\<lparr>es_ppc := E_Exit\<rparr>)"
| parse_idle:
    "es_ppc s = E_Test \<Longrightarrow> es_running s \<Longrightarrow>
     read_packet (es_raw s) (es_receiver s) = Some (False, raw', r') \<Longrightarrow>
     engine_step s (s\<lparr>es_raw := raw', es_receiver := r'\<rparr>)"
| parse_stale_idle:
    "es_ppc s = E_Test \<Longrightarrow> es_running s \<Longrightarrow> rx_queue (es_receiver s) \<noteq> [] \<Longrightarrow> engine_step s s"
| parse_packet:
    "es_ppc s = E_Test \<Longrightarrow> es_running s \<Longrightarrow>
     read_packet (es_raw s) (es_receiver s) = Some (True, raw', r') \<Longrightarrow> es_parser s = (ips, p) \<Longrightarrow>
     ip_parse ips raw' (es_messages s) (of_nat (length (es_messages s))) p =
       Some (count, messages', p') \<Longrightarrow>
     engine_step s (s\<lparr>es_raw := raw', es_receiver := r', es_parser := (ips, p'),
       es_messages := messages', es_ppc := E_Dispatch parse_start 0 count,
       es_read := es_read s @ [ur_current_packet r']\<rparr>)"
| parse_dispatch:
    "es_ppc s = E_Dispatch parse_start i count \<Longrightarrow> i < unat count \<Longrightarrow>
     load (es_messages s) i = Some m \<Longrightarrow> ds_dpc (es_disp s) = D_Idle \<Longrightarrow> disp_step (es_disp s) ds' \<Longrightarrow>
     ds_dispatched ds' = ds_dispatched (es_disp s) @ [m] \<Longrightarrow>
     engine_step s (s\<lparr>es_disp := ds', es_ppc := E_Dispatch parse_start (Suc i) count\<rparr>)"
| parse_push:
    "ds_dpc (es_disp s) \<noteq> D_Idle \<Longrightarrow> disp_step (es_disp s) ds' \<Longrightarrow> ds_dpc ds' \<noteq> ds_dpc (es_disp s) \<Longrightarrow>
     engine_step s (s\<lparr>es_disp := ds'\<rparr>)"
| parse_done:
    "es_ppc s = E_Dispatch parse_start i count \<Longrightarrow> i = unat count \<Longrightarrow> ds_dpc (es_disp s) = D_Idle \<Longrightarrow>
     st = (es_stats s)\<lparr>messages_parsed := messages_parsed (es_stats s) + count\<rparr> \<Longrightarrow>
     engine_step s (s\<lparr>es_ppc := E_Test, es_stats := update_latency (parse_end - parse_start)
       (if count = 0 then st\<lparr>parse_errors := parse_errors st + 1\<rparr> else st)\<rparr>)"
| deliver:
    "disp_step (es_disp s) ds' \<Longrightarrow> ds_lpc ds' \<noteq> ds_lpc (es_disp s) \<Longrightarrow>
     engine_step s (s\<lparr>es_disp := ds'\<rparr>)"
| stop_call:
    "es_spc s = S_Idle \<Longrightarrow> es_running s \<Longrightarrow>
     engine_step s (s\<lparr>es_running := False, es_spc := S_Parse\<rparr>)"
| stop_parse_joined:
    "es_spc s = S_Parse \<Longrightarrow> es_ppc s = E_Exit \<Longrightarrow> d_running (ds_disp (es_disp s)) \<Longrightarrow>
     disp_step (es_disp s) ds' \<Longrightarrow> \<not> d_running (ds_disp ds') \<Longrightarrow>
     engine_step s (s\<lparr>es_disp := ds', es_spc := S_Dispatcher\<rparr>)"
| stop_dispatcher_idle:
    "es_spc s = S_Parse \<Longrightarrow> es_ppc s = E_Exit \<Longrightarrow> \<not> d_running (ds_disp (es_disp s)) \<Longrightarrow>
     engine_step s (s\<lparr>es_spc := S_Receiver_call\<rparr>)"
| stop_dispatcher_joined:
    "es_spc s = S_Dispatcher \<Longrightarrow> ds_lpc (es_disp s) = L_Exit \<Longrightarrow>
     engine_step s (s\<lparr>es_disp := disp_joined (es_disp s), es_spc := S_Receiver_call\<rparr>)"
| stop_receiver:
    "es_spc s = S_Receiver_call \<Longrightarrow> ur_running (es_receiver s) \<Longrightarrow>
     engine_step s (s\<lparr>es_receiver := (es_receiver s)\<lparr>ur_running := False\<rparr>, es_spc := S_Receiver\<rparr>)"
| stop_receiver_idle:
    "es_spc s = S_Receiver_call \<Longrightarrow> \<not> ur_running (es_receiver s) \<Longrightarrow>
     engine_step s (s\<lparr>es_spc := S_Reset\<rparr>)"
| stop_receiver_joined:
    "es_spc s = S_Receiver \<Longrightarrow> es_rpc s = R_Exit \<Longrightarrow>
     engine_step s (s\<lparr>es_receiver := receiver_joined (es_receiver s), es_spc := S_Reset\<rparr>)"
| stop_reset:
    "es_spc s = S_Reset \<Longrightarrow> es_parser s = (ips, p) \<Longrightarrow>
     engine_step s (s\<lparr>es_parser := (ips, ip_reset ips p), es_spc := S_Done\<rparr>)"

inductive engine_reach :: "('p, 's) engine_sys \<Rightarrow> ('p, 's) engine_sys \<Rightarrow> bool" for s0 where
  reach_start: "engine_reach s0 s0"
| reach_engine_step: "engine_reach s0 s \<Longrightarrow> engine_step s s' \<Longrightarrow> engine_reach s0 s'"

text \<open>Joining, the statements before and the statements after make up the calls.\<close>

lemma receiver_stop_steps:
  "ur_running r \<Longrightarrow> UDPReceiver_stop r = receiver_joined (r\<lparr>ur_running := False\<rparr>)"
  by (simp add: UDPReceiver_stop_def receiver_joined_def Let_def)

lemma dispatcher_stop_steps:
  "d_running d \<Longrightarrow> ds_disp ds = d\<lparr>d_running := False\<rparr> \<Longrightarrow> ds_disp (disp_joined ds) = Dispatcher_stop d"
  by (simp add: Dispatcher_stop_def disp_joined_def Let_def)

section \<open>What the packets decode to\<close>

fun parse_all :: "'p parse_fn \<Rightarrow> u32 \<Rightarrow> NormalizedMessage list \<Rightarrow> 'p \<Rightarrow> Packet list \<Rightarrow>
    (NormalizedMessage list \<times> NormalizedMessage list \<times> 'p) option" where
  "parse_all parse sq slots p [] = Some ([], slots, p)"
| "parse_all parse sq slots p (pk # pks) = do {
     (c, slots, p) \<leftarrow> parse (packet_view pk sq) slots (of_nat (length slots)) p;
     (ws, slots', p) \<leftarrow> parse_all parse (sq + 1) slots p pks;
     Some (take (unat c) slots @ ws, slots', p)
   }"

lemma parse_all_snoc:
  assumes "parse_all parse sq slots p pks = Some (ws, slots', p')"
    and "parse (packet_view pk (sq + of_nat (length pks))) slots' (of_nat (length slots')) p' =
      Some (c, slots'', p'')"
  shows "parse_all parse sq slots p (pks @ [pk]) = Some (ws @ take (unat c) slots'', slots'', p'')"
  using assms
proof (induction pks arbitrary: sq slots p ws)
  case (Cons pk' pks)
  obtain c' s1 p1 ws1 where "parse (packet_view pk' sq) slots (of_nat (length slots)) p = Some (c', s1, p1)"
    "parse_all parse (sq + 1) s1 p1 pks = Some (ws1, slots', p')" "ws = take (unat c') s1 @ ws1"
    using Cons.prems(1) by (auto split: bind_splits)
  with Cons.IH[of "sq + 1" s1 p1 ws1] Cons.prems(2) show ?case by (simp add: algebra_simps)
qed simp

section \<open>Starting\<close>

text \<open>The calls a program makes to get an engine running.\<close>

fun add_subscribers ::
  "'s ISubscriber list \<Rightarrow> ('p, 's) CoreEngine \<Rightarrow> engine_error + ('p, 's) CoreEngine" where
  "add_subscribers [] e = Inr e"
| "add_subscribers (sub # subs) e =
     (case CoreEngine_add_subscriber sub e of Inl err \<Rightarrow> Inl err | Inr e \<Rightarrow> add_subscribers subs e)"

definition engine_run_up :: "'s ISubscriber list \<Rightarrow> OS \<Rightarrow> ('p, 's) CoreEngine \<Rightarrow>
    engine_error + bool \<times> ('p, 's) CoreEngine" where
  "engine_run_up subs os e =
     (case add_subscribers subs e of Inl err \<Rightarrow> Inl err | Inr e \<Rightarrow>
      case CoreEngine_initialize os e of (ok, e) \<Rightarrow>
        if \<not> ok then Inr (False, e)
        else case CoreEngine_start e of Inl err \<Rightarrow> Inl err | Inr e \<Rightarrow> Inr (True, e))"

definition engine_boot :: "CoreConfig \<Rightarrow> bytes \<Rightarrow> 'p IParser \<times> 'p \<Rightarrow> 's ISubscriber list \<Rightarrow> OS \<Rightarrow>
    engine_error + bool \<times> ('p, 's) CoreEngine" where
  "engine_boot config junk parser subs os =
     (case CoreEngine_new config junk of Inl err \<Rightarrow> Inl err | Inr e \<Rightarrow>
      case set_parser (Some parser) e of Inl err \<Rightarrow> Inl err | Inr e \<Rightarrow> engine_run_up subs os e)"

text \<open>Without \<open>set_parser\<close> the engine runs with the parser of its constructor.\<close>

definition engine_boot_default :: "CoreConfig \<Rightarrow> bytes \<Rightarrow> 's ISubscriber list \<Rightarrow> OS \<Rightarrow>
    engine_error + bool \<times> (u64, 's) CoreEngine" where
  "engine_boot_default config junk subs os =
     (case CoreEngine_new config junk of Inl err \<Rightarrow> Inl err | Inr e \<Rightarrow> engine_run_up subs os e)"

lemma engine_boot_default_echo: "engine_boot_default config junk subs os = engine_boot config junk (EchoParser, 0) subs os"
  by (simp add: engine_boot_default_def engine_boot_def CoreEngine_new_def set_parser_def)

lemma add_subscribers_idle:
  "\<not> ce_running e \<Longrightarrow> add_subscribers subs e =
     Inr (e\<lparr>ce_dispatcher := fold add_subscriber subs (ce_dispatcher e)\<rparr>)"
  by (induction subs arbitrary: e) (simp_all add: CoreEngine_add_subscriber_def)

text \<open>The receiver of a fresh engine after \<open>initialize\<close>.\<close>

definition booted_receiver :: "CoreConfig \<Rightarrow> bytes \<Rightarrow> OS \<Rightarrow> bool \<times> UDPReceiver" where
  "booted_receiver config junk os =
     UDPReceiver_initialize os (UDPReceiver_new (cc_network config) junk)"

lemma engine_boot_spec:
  "engine_boot config junk (ips, p) subs os =
     (case booted_receiver config junk os of (ok, r) \<Rightarrow>
       Inr (ok, \<lparr>ce_config = config, ce_receiver = (if ok then UDPReceiver_start r else r),
         ce_dispatcher = (if ok then disp_started subs else fold add_subscriber subs Dispatcher_new),
         ce_parser = Some (ips, if ok then ip_initialize ips p else p), ce_joinable = ok,
         ce_running = ok, ce_stats = Statistics_init\<rparr>))"
  by (simp add: engine_boot_def engine_run_up_def CoreEngine_new_def set_parser_def add_subscribers_idle
      CoreEngine_initialize_def CoreEngine_start_def booted_receiver_def disp_started_def Let_def
      split: prod.split)

lemma initialize_keeps:
  assumes "UDPReceiver_initialize os r = (ok, r')"
  shows "ur_packet_queue r' = ur_packet_queue r" "ur_sequence r' = ur_sequence r"
    "ur_stats r' = ur_stats r" "ur_running r' = ur_running r" "ok \<Longrightarrow> 0 \<le> ur_socket_fd r'"
  using assms by (auto simp: UDPReceiver_initialize_def Let_def split: if_splits)

lemma booted_receiver_started:
  assumes "booted_receiver config junk os = (True, r)"
  shows "rx_inv (UDPReceiver_start r)" "rx_queue (UDPReceiver_start r) = []"
    "ur_sequence (UDPReceiver_start r) = 0" "ur_stats (UDPReceiver_start r) = Statistics_init"
    "ur_running (UDPReceiver_start r)" "0 \<le> ur_socket_fd (UDPReceiver_start r)"
proof -
  note k = initialize_keeps[OF assms[unfolded booted_receiver_def]]
  show "rx_inv (UDPReceiver_start r)" "rx_queue (UDPReceiver_start r) = []"
    using rx_inv_new[of "cc_network config" junk] k by (auto simp: UDPReceiver_start_def rx_inv_def rx_queue_def)
  show "ur_sequence (UDPReceiver_start r) = 0" "ur_stats (UDPReceiver_start r) = Statistics_init"
    using k by (auto simp: UDPReceiver_start_def new_fields)
  show "ur_running (UDPReceiver_start r)" "0 \<le> ur_socket_fd (UDPReceiver_start r)"
    using k by (auto simp: UDPReceiver_start_def UDPReceiver_new_def)
qed

section \<open>Steps of the dispatcher inside the engine\<close>

lemma disp_step_thread:
  assumes "disp_step ds ds'" "ds_lpc ds' \<noteq> ds_lpc ds"
  shows "ds_dpc ds' = ds_dpc ds" "ds_dispatched ds' = ds_dispatched ds"
    "d_running (ds_disp ds') = d_running (ds_disp ds)" "ds_lpc ds \<noteq> L_Exit"
  using assms by (auto elim!: disp_step.cases)

lemma disp_step_push:
  assumes "disp_step ds ds'" "ds_dpc ds \<noteq> D_Idle" "ds_dpc ds' \<noteq> ds_dpc ds"
  shows "ds_lpc ds' = ds_lpc ds" "ds_dispatched ds' = ds_dispatched ds"
    "d_running (ds_disp ds') = d_running (ds_disp ds)"
  using assms by (auto elim!: disp_step.cases)

lemma disp_step_begin:
  assumes "disp_step ds ds'" "ds_dispatched ds' = ds_dispatched ds @ [m]"
  shows "ds_lpc ds' = ds_lpc ds" "d_running (ds_disp ds') = d_running (ds_disp ds)"
  using assms by (auto elim!: disp_step.cases)

lemma disp_step_stop:
  assumes "disp_step ds ds'" "d_running (ds_disp ds)" "\<not> d_running (ds_disp ds')"
  shows "ds_lpc ds' = ds_lpc ds" "ds_dpc ds' = ds_dpc ds" "ds_dispatched ds' = ds_dispatched ds"
  using assms by (auto elim!: disp_step.cases)

lemmas disp_step_frames = disp_step_thread disp_step_push disp_step_begin disp_step_stop

lemma disp_joined_fields [simp]:
  "ds_dpc (disp_joined ds) = ds_dpc ds" "ds_lpc (disp_joined ds) = ds_lpc ds"
  "ds_dispatched (disp_joined ds) = ds_dispatched ds" "ds_accepted (disp_joined ds) = ds_accepted ds"
  "ds_delivered (disp_joined ds) = ds_delivered ds"
  "d_running (ds_disp (disp_joined ds)) = d_running (ds_disp ds)"
  "d_stats (ds_disp (disp_joined ds)) = d_stats (ds_disp ds)"
  "d_queues (ds_disp (disp_joined ds)) = d_queues (ds_disp ds)"
  "d_subscribers (ds_disp (disp_joined ds)) = map shutdown_sub (d_subscribers (ds_disp ds))"
  by (simp_all add: disp_joined_def)

lemma receiver_joined_fields [simp]:
  "ur_packet_queue (receiver_joined r) = ur_packet_queue r" "ur_sequence (receiver_joined r) = ur_sequence r"
  "ur_stats (receiver_joined r) = ur_stats r" "ur_running (receiver_joined r) = ur_running r"
  "ur_socket_fd (receiver_joined r) < 0"
  by (simp_all add: receiver_joined_def Let_def)

section \<open>Control\<close>

text \<open>Where the threads are: \<open>stop\<close> waits for each of them in turn.\<close>

definition control_inv :: "('p, 's) engine_sys \<Rightarrow> bool" where
  "control_inv s \<longleftrightarrow>
     (es_running s \<longleftrightarrow> es_spc s = S_Idle) \<and>
     (es_ppc s = E_Exit \<longrightarrow> \<not> es_running s) \<and>
     (es_spc s \<notin> {S_Idle, S_Parse} \<longrightarrow> es_ppc s = E_Exit) \<and>
     (es_ppc s \<in> {E_Test, E_Exit} \<longrightarrow> ds_dpc (es_disp s) = D_Idle) \<and>
     (d_running (ds_disp (es_disp s)) \<longleftrightarrow> es_spc s \<in> {S_Idle, S_Parse}) \<and>
     (es_spc s \<notin> {S_Idle, S_Parse, S_Dispatcher} \<longrightarrow> ds_lpc (es_disp s) = L_Exit) \<and>
     (ur_running (es_receiver s) \<longleftrightarrow> es_spc s \<notin> {S_Receiver, S_Reset, S_Done}) \<and>
     (es_rpc s = R_Exit \<longrightarrow> \<not> ur_running (es_receiver s)) \<and>
     (es_spc s \<in> {S_Reset, S_Done} \<longrightarrow> es_rpc s = R_Exit \<and> ur_socket_fd (es_receiver s) < 0)"

lemma read_packet_keeps:
  "read_packet v r = Some (ok, v', r') \<Longrightarrow>
     ur_running r' = ur_running r \<and> ur_socket_fd r' = ur_socket_fd r \<and> ur_stats r' = ur_stats r"
  by (auto simp: read_packet_def Let_def split: bind_splits option.splits)

lemma receive_iteration_keeps:
  "receive_iteration n buf now pk r = Some (pk', r') \<Longrightarrow>
     ur_running r' = ur_running r \<and> ur_socket_fd r' = ur_socket_fd r \<and> ur_sequence r' = ur_sequence r"
  by (auto simp: receive_iteration_def Let_def split: bind_splits if_splits)

lemma control_inv_step:
  assumes "engine_step s s'" "control_inv s"
  shows "control_inv s'"
  using assms(1)
proof cases
  case (recv_return received buf now pk' r')
  then show ?thesis using assms(2) receive_iteration_keeps[OF recv_return(4)] by (auto simp: control_inv_def)
next
  case (parse_idle raw' r')
  then show ?thesis using assms(2) read_packet_keeps[OF parse_idle(4)] by (auto simp: control_inv_def)
next
  case (parse_packet raw' r' ips p count messages' p' parse_start)
  then show ?thesis using assms(2) read_packet_keeps[OF parse_packet(4)] by (auto simp: control_inv_def)
next
  case (parse_dispatch parse_start i count m ds')
  then show ?thesis using assms(2) disp_step_begin[OF parse_dispatch(6,7)] by (auto simp: control_inv_def)
next
  case (parse_push ds')
  then show ?thesis using assms(2) disp_step_push[OF parse_push(3,2,4)] by (auto simp: control_inv_def)
next
  case (deliver ds')
  then show ?thesis using assms(2) disp_step_thread[OF deliver(2,3)] by (auto simp: control_inv_def)
next
  case (stop_parse_joined ds')
  then show ?thesis using assms(2) disp_step_stop[OF stop_parse_joined(5,4,6)] by (auto simp: control_inv_def)
qed (use assms(2) in \<open>auto simp: control_inv_def\<close>)

section \<open>Packets\<close>

text \<open>What the ring accepted has been read or is still there, and the counters agree.\<close>

definition packets_inv :: "('p, 's) engine_sys \<Rightarrow> bool" where
  "packets_inv s \<longleftrightarrow>
     rx_inv (es_receiver s) \<and> es_read s @ rx_queue (es_receiver s) = es_accepted s \<and>
     subseq (es_accepted s) (es_arrived s) \<and> (\<forall>pk\<in>set (es_read s). packet_ok pk) \<and>
     ur_sequence (es_receiver s) = of_nat (length (es_read s)) \<and>
     packets_received (ur_stats (es_receiver s)) = of_nat (length (es_accepted s)) \<and>
     packets_dropped (ur_stats (es_receiver s)) = of_nat (length (es_arrived s) - length (es_accepted s))"

lemma rx_inv_irrelevant [simp]:
  "rx_inv (r\<lparr>ur_running := b\<rparr>) = rx_inv r" "rx_queue (r\<lparr>ur_running := b\<rparr>) = rx_queue r"
  "rx_inv (receiver_joined r) = rx_inv r" "rx_queue (receiver_joined r) = rx_queue r"
  by (simp_all add: rx_inv_def rx_queue_def)

lemma packets_inv_receive:
  assumes inv: "packets_inv s" and ok: "recv_ok received buf"
    and it: "receive_iteration received buf now (es_packet s) (es_receiver s) = Some (pk', r')"
  shows "packets_inv (s\<lparr>es_packet := pk', es_receiver := r', es_rpc := R_Test,
       es_arrived := es_arrived s @ (if 0 < received then [received_packet received buf now] else []),
       es_accepted := es_accepted s @ drop (length (rx_queue (es_receiver s))) (rx_queue r')\<rparr>)"
proof -
  let ?r = "es_receiver s" and ?new = "received_packet received buf now"
  have rx: "rx_inv ?r" and sub: "subseq (es_accepted s) (es_arrived s)"
    and acc: "es_read s @ rx_queue ?r = es_accepted s" using inv by (auto simp: packets_inv_def)
  obtain q where r': "rx_inv r'" "rx_queue r' = rx_queue ?r @
      (if 0 < received \<and> length (rx_queue ?r) < 16383 then [?new] else [])"
    "r' = ?r\<lparr>ur_packet_queue := q, ur_stats := (if 0 < received
      then (if length (rx_queue ?r) < 16383
        then (ur_stats ?r)\<lparr>packets_received := packets_received (ur_stats ?r) + 1\<rparr>
        else (ur_stats ?r)\<lparr>packets_dropped := packets_dropped (ur_stats ?r) + 1\<rparr>)
      else ur_stats ?r)\<rparr>"
    using receive_iteration_spec[OF rx ok, of now "es_packet s"] it by (metis option.inject prod.inject)
  have le: "length (es_accepted s) \<le> length (es_arrived s)" using list_emb_length[OF sub] .
  have "ur_sequence r' = ur_sequence ?r" "ur_stats r' = (if 0 < received
      then (if length (rx_queue ?r) < 16383
        then (ur_stats ?r)\<lparr>packets_received := packets_received (ur_stats ?r) + 1\<rparr>
        else (ur_stats ?r)\<lparr>packets_dropped := packets_dropped (ur_stats ?r) + 1\<rparr>)
      else ur_stats ?r)" by (simp_all add: r'(3))
  then show ?thesis using inv r'(1,2) sub le acc
    by (auto simp: packets_inv_def list_emb_append_mono subseq_rev_drop_many Suc_diff_le)
qed

lemma packets_inv_read:
  assumes inv: "packets_inv s" and rd: "read_packet raw (es_receiver s) = Some (ok, raw', r')"
  shows "if ok then raw' = packet_view (ur_current_packet r') (of_nat (length (es_read s))) \<and>
      packet_ok (ur_current_packet r') \<and> packets_inv (s\<lparr>es_receiver := r', es_read := es_read s @ [ur_current_packet r']\<rparr>)
    else raw' = raw \<and> r' = es_receiver s"
proof (cases "rx_queue (es_receiver s)")
  case Nil
  then show ?thesis using inv rd read_packet_empty[of "es_receiver s" raw] by (simp add: packets_inv_def)
next
  case (Cons pk pks)
  have rx: "rx_inv (es_receiver s)" using inv by (simp add: packets_inv_def)
  obtain q where r': "ok" "raw' = packet_view pk (ur_sequence (es_receiver s))" "rx_inv r'"
    "rx_queue r' = pks" "packet_ok pk"
    "r' = (es_receiver s)\<lparr>ur_packet_queue := q, ur_current_packet := pk,
      ur_sequence := ur_sequence (es_receiver s) + 1\<rparr>"
    using read_packet_item[OF rx Cons, of raw] rd by (metis option.inject prod.inject)
  have "ur_current_packet r' = pk" "ur_sequence r' = ur_sequence (es_receiver s) + 1"
    "ur_stats r' = ur_stats (es_receiver s)" by (simp_all add: r'(6))
  then show ?thesis using inv r'(1-5) Cons by (auto simp: packets_inv_def)
qed

lemma packets_inv_step:
  assumes "engine_step s s'" "packets_inv s"
  shows "packets_inv s'"
  using assms(1)
proof cases
  case (recv_stale_full received buf r now)
  have "subseq (es_accepted s) (es_arrived s)" using assms(2) by (simp add: packets_inv_def)
  then have "length (es_accepted s) \<le> length (es_arrived s)" by (rule list_emb_length)
  then show ?thesis using assms(2) recv_stale_full
    by (auto simp: packets_inv_def rx_inv_def rx_queue_def subseq_rev_drop_many Suc_diff_le)
next
  case (recv_return received buf now pk' r')
  then show ?thesis using packets_inv_receive[OF assms(2)] by blast
next
  case (parse_idle raw' r')
  then show ?thesis using assms(2) packets_inv_read[OF assms(2) parse_idle(4)] by (simp add: packets_inv_def)
next
  case (parse_packet raw' r' ips p count messages' p' parse_start)
  then show ?thesis using packets_inv_read[OF assms(2) parse_packet(4)] by (simp add: packets_inv_def)
qed (use assms(2) in \<open>simp_all add: packets_inv_def\<close>)

section \<open>Messages\<close>

text \<open>The messages of the packet in hand that are not yet dispatched.\<close>

definition undispatched :: "('p, 's) engine_sys \<Rightarrow> NormalizedMessage list" where
  "undispatched s = (case es_ppc s of
     E_Dispatch t i c \<Rightarrow> drop i (take (unat c) (es_messages s)) | _ \<Rightarrow> [])"

definition in_hand :: "('p, 's) engine_sys \<Rightarrow> nat" where
  "in_hand s = (case es_ppc s of E_Dispatch t i c \<Rightarrow> unat c | _ \<Rightarrow> 0)"

definition messages_inv ::
  "'p parse_fn \<Rightarrow> NormalizedMessage list \<Rightarrow> 'p \<Rightarrow> ('p, 's) engine_sys \<Rightarrow> bool" where
  "messages_inv parse slots p0 s \<longleftrightarrow>
     ip_parse (fst (es_parser s)) = parse \<and> length (es_messages s) = length slots \<and>
     (\<forall>t i c. es_ppc s = E_Dispatch t i c \<longrightarrow> i \<le> unat c \<and> unat c \<le> length slots) \<and>
     (\<exists>p'. parse_all parse 0 slots p0 (es_read s) =
         Some (ds_dispatched (es_disp s) @ undispatched s, es_messages s, p') \<and>
       (es_spc s \<noteq> S_Done \<longrightarrow> snd (es_parser s) = p')) \<and>
     messages_parsed (es_stats s) + of_nat (in_hand s) =
       of_nat (length (ds_dispatched (es_disp s)) + length (undispatched s))"

lemma messages_inv_frame:
  assumes "messages_inv parse slots p0 s" "es_parser s' = es_parser s" "es_messages s' = es_messages s"
    "es_ppc s' = es_ppc s" "es_read s' = es_read s" "es_spc s = S_Done \<longrightarrow> es_spc s' = S_Done"
    "es_stats s' = es_stats s" "ds_dispatched (es_disp s') = ds_dispatched (es_disp s)"
  shows "messages_inv parse slots p0 s'"
proof -
  have "undispatched s' = undispatched s" "in_hand s' = in_hand s"
    using assms(3,4) by (simp_all add: undispatched_def in_hand_def split: parse_pc.split)
  then show ?thesis using assms by (auto simp: messages_inv_def)
qed

lemma undispatched_next:
  "i < unat c \<Longrightarrow> unat c \<le> length ms \<Longrightarrow> drop i (take (unat c) ms) = ms ! i # drop (Suc i) (take (unat c) ms)"
  by (simp add: Cons_nth_drop_Suc[symmetric])

context parser_contract
begin

lemma messages_inv_parse:
  assumes "messages_inv parse slots p0 s" "packets_inv s" "control_inv s" "length slots < 2 ^ 64"
    and st: "es_ppc s = E_Test" "es_running s"
    and rd: "read_packet (es_raw s) (es_receiver s) = Some (True, raw', r')"
    and ps: "es_parser s = (ips, p)"
      "ip_parse ips raw' (es_messages s) (of_nat (length (es_messages s))) p = Some (count, messages', p')"
  shows "messages_inv parse slots p0 (s\<lparr>es_raw := raw', es_receiver := r', es_parser := (ips, p'),
       es_messages := messages', es_ppc := E_Dispatch t 0 count,
       es_read := es_read s @ [ur_current_packet r']\<rparr>)"
proof -
  let ?pk = "ur_current_packet r'"
  have raw: "raw' = packet_view ?pk (of_nat (length (es_read s)))" "packet_ok ?pk"
    using packets_inv_read[OF assms(2) rd] by simp_all
  have sp: "es_spc s \<noteq> S_Done" using assms(3) st by (auto simp: control_inv_def)
  have m: "ip_parse ips = parse" "length (es_messages s) = length slots"
    "parse_all parse 0 slots p0 (es_read s) = Some (ds_dispatched (es_disp s), es_messages s, p)"
    "messages_parsed (es_stats s) = of_nat (length (ds_dispatched (es_disp s)))"
    using assms(1) ps(1) st sp by (auto simp: messages_inv_def undispatched_def in_hand_def)
  let ?mx = "of_nat (length (es_messages s)) :: size_t"
  have mx: "unat ?mx \<le> length (es_messages s)" using m(2) assms(4) by (simp add: unat_of_nat)
  have pr: "parse raw' (es_messages s) ?mx p = Some (count, messages', p')" using ps(2) m(1) by simp
  note d = parse_SomeD[OF packet_view_ok[OF raw(2), THEN conjunct1, of "of_nat (length (es_read s))",
        folded raw(1)] mx pr]
  have "parse_all parse 0 slots p0 (es_read s @ [?pk]) =
      Some (ds_dispatched (es_disp s) @ take (unat count) messages', messages', p')"
    using parse_all_snoc[OF m(3)] pr raw(1) by simp
  then show ?thesis using m d sp by (simp add: messages_inv_def undispatched_def in_hand_def)
qed

lemma messages_inv_step:
  assumes "engine_step s s'" "messages_inv parse slots p0 s" "packets_inv s" "control_inv s"
    "length slots < 2 ^ 64"
  shows "messages_inv parse slots p0 s'"
  using assms(1)
proof cases
  case (parse_packet raw' r' ips p count messages' p' parse_start)
  then show ?thesis using messages_inv_parse[OF assms(2-5)] by blast
next
  case (parse_dispatch parse_start i count m ds')
  have "unat count \<le> length (es_messages s)" "m = es_messages s ! i"
    using assms(2) parse_dispatch by (auto simp: messages_inv_def load_eq_Some_iff)
  then show ?thesis using assms(2) parse_dispatch undispatched_next[of i count "es_messages s"]
    by (auto simp: messages_inv_def undispatched_def in_hand_def)
next
  case (parse_push ds')
  then show ?thesis using disp_step_push[OF parse_push(3,2,4)]
    by (intro messages_inv_frame[OF assms(2)]) simp_all
next
  case (deliver ds')
  then show ?thesis using disp_step_thread[OF deliver(2,3)]
    by (intro messages_inv_frame[OF assms(2)]) simp_all
next
  case (stop_parse_joined ds')
  then show ?thesis using disp_step_stop[OF stop_parse_joined(5,4,6)]
    by (intro messages_inv_frame[OF assms(2)]) simp_all
next
  case (parse_done parse_start i count st parse_end)
  then show ?thesis using assms(2)
    by (auto simp: messages_inv_def undispatched_def in_hand_def update_latency_def Let_def)
next
  case (stop_reset ips p)
  then have "es_ppc s = E_Exit" using assms(4) by (simp add: control_inv_def)
  then show ?thesis using assms(2) stop_reset by (auto simp: messages_inv_def undispatched_def in_hand_def)
next
  case parse_exit
  then show ?thesis using assms(2) by (simp add: messages_inv_def undispatched_def in_hand_def)
qed (rule messages_inv_frame[OF assms(2)]; simp)+

end

section \<open>Deliveries\<close>

text \<open>Until its thread is joined, the dispatcher runs as in \<open>Dispatcher_Concurrent\<close>.\<close>

definition delivery_inv :: "'s ISubscriber list \<Rightarrow> ('p, 's) engine_sys \<Rightarrow> bool" where
  "delivery_inv subs s \<longleftrightarrow>
     (if es_spc s \<in> {S_Idle, S_Parse, S_Dispatcher} then disp_reach subs (es_disp s)
      else \<exists>ds. disp_reach subs ds \<and> es_disp s = disp_joined ds)"

lemma delivery_inv_step:
  assumes "engine_step s s'" "delivery_inv subs s" "control_inv s"
  shows "delivery_inv subs s'"
  using assms(1)
proof cases
  case (parse_dispatch parse_start i count m ds')
  then have "es_spc s \<in> {S_Idle, S_Parse}" using assms(3) by (auto simp: control_inv_def)
  then show ?thesis using assms(2) parse_dispatch by (auto simp: delivery_inv_def intro: disp_reach.reach_step)
next
  case (parse_push ds')
  then have "es_ppc s \<noteq> E_Exit" using assms(3) by (auto simp: control_inv_def)
  then have "es_spc s \<in> {S_Idle, S_Parse}" using assms(3) by (auto simp: control_inv_def)
  then show ?thesis using assms(2) parse_push by (auto simp: delivery_inv_def intro: disp_reach.reach_step)
next
  case (deliver ds')
  then have "es_spc s \<in> {S_Idle, S_Parse, S_Dispatcher}"
    using assms(3) disp_step_thread[OF deliver(2,3)] by (auto simp: control_inv_def)
  then show ?thesis using assms(2) deliver by (auto simp: delivery_inv_def intro: disp_reach.reach_step)
next
  case (stop_parse_joined ds')
  then show ?thesis using assms(2) by (auto simp: delivery_inv_def intro: disp_reach.reach_step)
next
  case stop_dispatcher_idle
  then show ?thesis using assms(3) by (simp add: control_inv_def)
qed (use assms(2) in \<open>auto simp: delivery_inv_def\<close>)

section \<open>Reachable states\<close>

lemma engine_threads_inv:
  fixes junk' :: bytes
  assumes "engine_boot config junk (ips, p) subs os = Inr (True, e)"
  defines "s0 \<equiv> engine_threads junk' (ips, ip_initialize ips p) e"
  shows "control_inv s0" "packets_inv s0" "delivery_inv subs s0"
    "messages_inv (ip_parse ips) (parse_loop_messages e) (ip_initialize ips p) s0"
proof -
  obtain r where r: "booted_receiver config junk os = (True, r)"
    using assms(1) by (auto simp: engine_boot_spec split: prod.splits)
  have e: "ce_receiver e = UDPReceiver_start r" "ce_dispatcher e = disp_started subs"
    "ce_running e" "ce_stats e = Statistics_init"
    using assms(1) r by (auto simp: engine_boot_spec)
  note b = booted_receiver_started[OF r]
  show "control_inv s0"
    by (simp add: s0_def engine_threads_def control_inv_def e b disp_started_fields)
  show "packets_inv s0"
    by (simp add: s0_def engine_threads_def packets_inv_def e b Statistics_init_def)
  have "es_disp s0 = disp_sys_init subs"
    by (simp add: s0_def engine_threads_def disp_sys_init_def e disp_started_fields)
  then show "delivery_inv subs s0"
    by (simp add: s0_def engine_threads_def delivery_inv_def disp_reach.reach_init)
  show "messages_inv (ip_parse ips) (parse_loop_messages e) (ip_initialize ips p) s0"
    by (simp add: s0_def engine_threads_def messages_inv_def undispatched_def in_hand_def e
        Statistics_init_def)
qed

lemma parse_loop_messages_bound: "length (parse_loop_messages e) < 2 ^ 64"
  using unat_less_2p64 by (simp add: parse_loop_messages_def)

context parser_contract
begin

lemma engine_reach_inv:
  assumes "engine_reach s0 s" "length slots < 2 ^ 64"
    and "control_inv s0" "packets_inv s0" "delivery_inv subs s0" "messages_inv parse slots p0 s0"
  shows "control_inv s \<and> packets_inv s \<and> delivery_inv subs s \<and> messages_inv parse slots p0 s"
  using assms(1)
proof induction
  case reach_start
  then show ?case using assms(3-) by blast
next
  case (reach_engine_step s s')
  then show ?case
    using control_inv_step packets_inv_step delivery_inv_step messages_inv_step assms(2) by blast
qed

end

section \<open>The ITCH engine\<close>

fun ref_parse_all :: "NormalizedMessage list \<Rightarrow> Packet list \<Rightarrow> ItchParser \<Rightarrow> NormalizedMessage list" where
  "ref_parse_all slots [] p = []"
| "ref_parse_all slots (pk # pks) p =
     (case ref_parse (pk_timestamp pk) slots (frames (take (unat (pk_length pk)) (pk_data pk))) p of
       (ws, p') \<Rightarrow> ws @ ref_parse_all (ws @ drop (length ws) slots) pks
         (p'\<lparr>ip_messages_parsed := ip_messages_parsed p' + of_nat (length ws)\<rparr>))"

lemma parse_all_itch:
  assumes "\<forall>pk\<in>set pks. packet_ok pk" "length slots < 2 ^ 64"
  shows "\<exists>slots' p'. parse_all ItchParser_parse sq slots p pks = Some (ref_parse_all slots pks p, slots', p')"
  using assms
proof (induction pks arbitrary: sq slots p)
  case (Cons pk pks)
  let ?v = "packet_view pk sq" and ?mx = "of_nat (length slots) :: size_t"
  obtain ws q where r: "ref_parse (pk_timestamp pk) slots (frames (take (unat (pk_length pk)) (pk_data pk))) p = (ws, q)"
    by fastforce
  have mx: "unat ?mx = length slots" using Cons.prems(2) by (simp add: unat_of_nat)
  have len: "length ws \<le> length slots" using length_ref_parse r by (metis fst_conv)
  then have c: "unat (of_nat (length ws) :: size_t) = length ws"
    using Cons.prems(2) by (simp add: unat_of_nat)
  have "ItchParser_parse ?v slots ?mx p = Some (of_nat (length ws), ws @ drop (length ws) slots,
      q\<lparr>ip_messages_parsed := ip_messages_parsed q + of_nat (length ws)\<rparr>)"
    using Cons.prems(1) mx r
    by (intro ItchParser_parse_spec[where data = "pk_data pk"]) (simp_all add: packet_view_def packet_ok_def)
  then show ?case
    using Cons.IH[of "ws @ drop (length ws) slots" "sq + 1"
        "q\<lparr>ip_messages_parsed := ip_messages_parsed q + of_nat (length ws)\<rparr>"] Cons.prems len r c
    by auto
qed simp

lemma ref_parse_all_conforms:
  "\<forall>m\<in>set slots. conforms m \<Longrightarrow>
     \<forall>m\<in>set (ref_parse_all slots pks p). conforms m \<and> nm_type m \<in> itch_types"
proof (induction slots pks p rule: ref_parse_all.induct)
  case (2 slots pk pks p)
  obtain ws q where r: "ref_parse (pk_timestamp pk) slots (frames (take (unat (pk_length pk)) (pk_data pk))) p = (ws, q)"
    by fastforce
  have "\<forall>m\<in>set ws. conforms_at (pk_timestamp pk) m" using ref_parse_conforms[OF "2.prems"] r by (metis fst_conv)
  moreover have "\<forall>m\<in>set (ws @ drop (length ws) slots). conforms m"
    using calculation "2.prems" by (auto simp: conforms_at_def dest: in_set_dropD)
  ultimately show ?case using "2.IH"[OF r[symmetric]] r by (auto simp: conforms_at_def)
qed simp

lemma itch_engine_reach:
  assumes "engine_boot config junk (ItchParser_methods, p) subs os = Inr (True, e)"
    and "engine_reach (engine_threads junk' (ItchParser_methods, p) e) s"
  shows "control_inv s" "packets_inv s" "delivery_inv subs s"
    "messages_inv ItchParser_parse (parse_loop_messages e) p s"
    "ds_dispatched (es_disp s) @ undispatched s = ref_parse_all (parse_loop_messages e) (es_read s) p"
proof -
  have m: "ip_parse ItchParser_methods = ItchParser_parse" "ip_initialize ItchParser_methods p = p"
    by (simp_all add: ItchParser_methods_def)
  have inv: "control_inv s \<and> packets_inv s \<and> delivery_inv subs s \<and>
      messages_inv ItchParser_parse (parse_loop_messages e) p s"
    using itch_parser.engine_reach_inv[OF assms(2) parse_loop_messages_bound[of e]]
      engine_threads_inv[OF assms(1), of junk'] unfolding m by blast
  then show "control_inv s" "packets_inv s" "delivery_inv subs s"
    "messages_inv ItchParser_parse (parse_loop_messages e) p s" by blast+
  have "\<forall>pk\<in>set (es_read s). packet_ok pk" using inv by (simp add: packets_inv_def)
  with parse_all_itch[OF this parse_loop_messages_bound, of 0 e p] inv
  show "ds_dispatched (es_disp s) @ undispatched s = ref_parse_all (parse_loop_messages e) (es_read s) p"
    by (auto simp: messages_inv_def)
qed

text \<open>The dispatcher part of a reachable state, before and after the join.\<close>

lemma delivery_inv_subscriber:
  assumes "delivery_inv subs s" "i < length subs"
  shows "\<exists>popped. length popped \<le> 1 \<and> ds_accepted (es_disp s) ! i =
      ds_delivered (es_disp s) ! i @ popped @ spsc_contents (d_queues (ds_disp (es_disp s)) ! i)"
    "d_subscribers (ds_disp (es_disp s)) ! i =
      (if es_spc s \<in> {S_Idle, S_Parse, S_Dispatcher} then id else shutdown_sub)
        (deliver_all (ds_delivered (es_disp s) ! i) (initialize_sub (subs ! i)))"
    "subseq (ds_accepted (es_disp s) ! i) (ds_dispatched (es_disp s))"
proof -
  obtain ds where ds: "disp_reach subs ds"
    "es_disp s = (if es_spc s \<in> {S_Idle, S_Parse, S_Dispatcher} then ds else disp_joined ds)"
    using assms(1) by (auto simp: delivery_inv_def split: if_splits)
  note d = disp_reach_deliveries[OF ds(1) assms(2)] disp_reach_length[OF ds(1)]
  show "\<exists>popped. length popped \<le> 1 \<and> ds_accepted (es_disp s) ! i =
      ds_delivered (es_disp s) ! i @ popped @ spsc_contents (d_queues (ds_disp (es_disp s)) ! i)"
    "d_subscribers (ds_disp (es_disp s)) ! i =
      (if es_spc s \<in> {S_Idle, S_Parse, S_Dispatcher} then id else shutdown_sub)
        (deliver_all (ds_delivered (es_disp s) ! i) (initialize_sub (subs ! i)))"
    "subseq (ds_accepted (es_disp s) ! i) (ds_dispatched (es_disp s))"
    using d ds(2) assms(2) by (simp_all split: if_splits)
qed

text \<open>After \<open>stop\<close>.\<close>

lemma done_threads:
  assumes "control_inv s" "es_spc s = S_Done"
  shows "es_rpc s = R_Exit" "es_ppc s = E_Exit" "ds_lpc (es_disp s) = L_Exit" "\<not> es_running s"
    "\<not> ur_running (es_receiver s)" "\<not> d_running (ds_disp (es_disp s))" "ur_socket_fd (es_receiver s) < 0"
    "ds_dpc (es_disp s) = D_Idle" "undispatched s = []" "in_hand s = 0"
  using assms by (auto simp: control_inv_def undispatched_def in_hand_def)

lemma done_no_step:
  assumes "control_inv s" "es_spc s = S_Done"
  shows "\<not> engine_step s s'"
  using done_threads[OF assms] assms(2) disp_step_thread(4)[of "es_disp s"] by (auto elim!: engine_step.cases)

lemma done_dispatched:
  assumes "control_inv s" "delivery_inv subs s" "es_spc s = S_Done"
  shows "messages_dispatched (d_stats (ds_disp (es_disp s))) = of_nat (length (ds_dispatched (es_disp s)))"
proof -
  obtain ds where ds: "disp_reach subs ds" "es_disp s = disp_joined ds"
    using assms(2,3) by (auto simp: delivery_inv_def)
  then have "ds_dpc ds = D_Idle" using done_threads(8)[OF assms(1,3)] by simp
  then show ?thesis using disp_reach_inv[OF ds(1)] by (simp add: ds(2) disp_sys_inv_def Let_def finished_def)
qed

section \<open>Progress\<close>

lemma disp_reach_running: "delivery_inv subs s \<Longrightarrow> es_spc s \<in> {S_Idle, S_Parse, S_Dispatcher} \<Longrightarrow>
  disp_sys_inv subs (es_disp s)"
  using disp_reach_inv by (simp add: delivery_inv_def)

lemma recv_progress:
  "es_rpc s = R_Test \<Longrightarrow>
     \<exists>s'. engine_step s s' \<and> es_rpc s' = (if ur_running (es_receiver s) then R_Recv else R_Exit)"
  using recv_enter[of s] recv_exit[of s] by (cases "ur_running (es_receiver s)") fastforce+

lemma recv_answer:
  assumes "packets_inv s" "es_rpc s = R_Recv" "recv_ok received buf"
  shows "\<exists>s'. engine_step s s' \<and> es_rpc s' = R_Test \<and> es_arrived s' = es_arrived s @
    (if 0 < received then [received_packet received buf now] else [])"
proof -
  obtain pk' r' where "receive_iteration received buf now (es_packet s) (es_receiver s) = Some (pk', r')"
    using receive_iteration_spec[OF _ assms(3), of "es_receiver s"] assms(1) unfolding packets_inv_def by blast
  from recv_return[OF assms(2,3) this] show ?thesis by fastforce
qed

lemma stop_progress:
  assumes "control_inv s"
    and "es_spc s = S_Parse \<and> es_ppc s = E_Exit \<or> es_spc s = S_Dispatcher \<and> ds_lpc (es_disp s) = L_Exit \<or>
      es_spc s = S_Receiver \<and> es_rpc s = R_Exit \<or> es_spc s \<in> {S_Receiver_call, S_Reset}"
  shows "\<exists>s'. engine_step s s' \<and> es_spc s' \<noteq> es_spc s"
proof -
  let ?ds = "es_disp s"
  consider (p) "es_spc s = S_Parse" "es_ppc s = E_Exit" | (d) "es_spc s = S_Dispatcher" "ds_lpc ?ds = L_Exit"
    | (r) "es_spc s = S_Receiver" "es_rpc s = R_Exit" | (c) "es_spc s = S_Receiver_call" | (t) "es_spc s = S_Reset"
    using assms(2) by auto
  then show ?thesis
  proof cases
    case p
    have run: "d_running (ds_disp ?ds)" using assms(1) p by (simp add: control_inv_def)
    from stop_parse_joined[OF p run stop_request[OF refl]] show ?thesis by (fastforce simp: p)
  next
    case d
    from stop_dispatcher_joined[OF d] show ?thesis by (fastforce simp: d)
  next
    case r
    from stop_receiver_joined[OF r] show ?thesis by (fastforce simp: r)
  next
    case c
    from stop_receiver[OF c] stop_receiver_idle[OF c] show ?thesis
      by (cases "ur_running (es_receiver s)") (fastforce simp: c)+
  next
    case t
    from stop_reset[OF t, of "fst (es_parser s)" "snd (es_parser s)"] show ?thesis by (fastforce simp: t)
  qed
qed

context parser_contract
begin

lemma parse_progress_test:
  assumes "packets_inv s" "messages_inv parse slots p0 s" "length slots < 2 ^ 64" "es_ppc s = E_Test"
  shows "(\<exists>s'. engine_step s s' \<and> es_ppc s' \<noteq> E_Test) \<or>
    es_running s \<and> rx_queue (es_receiver s) = [] \<and> engine_step s s"
proof (cases "es_running s")
  case False
  from parse_exit[OF assms(4) this] show ?thesis by fastforce
next
  case run: True
  show ?thesis
  proof (cases "rx_queue (es_receiver s)")
    case Nil
    then have "read_packet (es_raw s) (es_receiver s) = Some (False, es_raw s, es_receiver s)"
      using assms(1) by (intro read_packet_empty) (simp_all add: packets_inv_def)
    from parse_idle[OF assms(4) run this] show ?thesis using Nil run by simp
  next
    case (Cons pk pks)
    obtain r' where rd: "read_packet (es_raw s) (es_receiver s) =
        Some (True, packet_view pk (ur_sequence (es_receiver s)), r')" "packet_ok pk"
      using read_packet_item[OF _ Cons] assms(1) unfolding packets_inv_def by blast
    let ?mx = "of_nat (length (es_messages s)) :: size_t"
    have m: "ip_parse (fst (es_parser s)) = parse" "unat ?mx \<le> length (es_messages s)"
      using assms(2,3) by (auto simp: messages_inv_def unat_of_nat)
    obtain c ms p' where "ip_parse (fst (es_parser s)) (packet_view pk (ur_sequence (es_receiver s)))
        (es_messages s) ?mx (snd (es_parser s)) = Some (c, ms, p')"
      using parse_spec[OF packet_view_ok[OF rd(2), THEN conjunct1] m(2), of _ "snd (es_parser s)"] m(1)
      by metis
    from parse_packet[OF assms(4) run rd(1) prod.collapse[symmetric] this] show ?thesis by fastforce
  qed
qed

lemma parse_progress_dispatch:
  assumes "control_inv s" "delivery_inv subs s" "messages_inv parse slots p0 s"
    and pc: "es_ppc s = E_Dispatch t i c"
  shows "\<exists>s'. engine_step s s' \<and>
    (es_ppc s' \<noteq> es_ppc s \<or> ds_dpc (es_disp s') \<noteq> ds_dpc (es_disp s))"
proof (cases "ds_dpc (es_disp s) = D_Idle")
  case False
  have "es_spc s \<in> {S_Idle, S_Parse, S_Dispatcher}" using assms(1) pc by (auto simp: control_inv_def)
  then obtain ds' where "disp_step (es_disp s) ds'" "ds_dpc ds' \<noteq> ds_dpc (es_disp s)"
    using disp_next_push[OF disp_reach_running[OF assms(2)] False] by blast
  from parse_push[OF False this] this(2) show ?thesis by fastforce
next
  case idle: True
  have c: "i \<le> unat c" "unat c \<le> length (es_messages s)" using assms(3) pc by (auto simp: messages_inv_def)
  show ?thesis
  proof (cases "i < unat c")
    case True
    then have "load (es_messages s) i = Some (es_messages s ! i)" using c by simp
    from parse_dispatch[OF pc True this idle dispatch_begin[OF idle]] show ?thesis by (fastforce simp: pc)
  next
    case False
    then have "i = unat c" using c by simp
    from parse_done[OF pc this idle refl] show ?thesis by (fastforce simp: pc)
  qed
qed

end

lemma deliver_progress:
  assumes "control_inv s" "delivery_inv subs s" "ds_lpc (es_disp s) \<noteq> L_Exit"
  shows "\<exists>s'. engine_step s s' \<and> ds_lpc (es_disp s') \<noteq> ds_lpc (es_disp s)"
proof -
  have "es_spc s \<in> {S_Idle, S_Parse, S_Dispatcher}" using assms(1,3) by (auto simp: control_inv_def)
  then obtain ds' where ds: "disp_step (es_disp s) ds'" "ds_lpc ds' \<noteq> ds_lpc (es_disp s)"
    using disp_next_deliver[OF disp_reach_running[OF assms(2)] assms(3)] by blast
  from engine_step.deliver[OF ds] ds(2) show ?thesis by fastforce
qed

section \<open>A concrete engine\<close>

definition demo_os :: OS where
  "demo_os = \<lparr>os_socket = 3, os_bind = 0, os_join = 0, os_inet_pton = (\<lambda>_. Some 0)\<rparr>"

definition demo_engine :: "(ItchParser, NormalizedMessage list) CoreEngine" where
  "demo_engine = \<lparr>ce_config = CoreConfig_default,
     ce_receiver = UDPReceiver_start (snd (booted_receiver CoreConfig_default [] demo_os)),
     ce_dispatcher = disp_started [demo_sub], ce_parser = Some (ItchParser_methods, ItchParser_new),
     ce_joinable = True, ce_running = True, ce_stats = Statistics_init\<rparr>"

lemma demo_boot:
  "engine_boot CoreConfig_default [] (ItchParser_methods, ItchParser_new) [demo_sub] demo_os =
     Inr (True, demo_engine)"
proof -
  have "fst (booted_receiver CoreConfig_default [] demo_os)"
    by (simp add: booted_receiver_def initialize_success demo_os_def)
  then show ?thesis
    by (auto simp: engine_boot_spec demo_engine_def ItchParser_methods_def split: prod.split)
qed

abbreviation demo_threads :: "(ItchParser, NormalizedMessage list) engine_sys" where
  "demo_threads \<equiv> engine_threads [] (ItchParser_methods, ItchParser_new) demo_engine"

text \<open>A datagram of three bytes arrives.\<close>

lemma demo_receiving: "engine_reach demo_threads (demo_threads\<lparr>es_rpc := R_Recv\<rparr>)"
proof -
  have "control_inv demo_threads" using engine_threads_inv[OF demo_boot] by (simp add: ItchParser_methods_def)
  then have run: "ur_running (es_receiver demo_threads)" by (simp add: control_inv_def engine_threads_def)
  then have "es_rpc demo_threads = R_Test" by (simp add: engine_threads_def)
  then show ?thesis by (intro reach_engine_step[OF reach_start] recv_enter run)
qed

lemma demo_arrival:
  "\<exists>s. engine_reach demo_threads s \<and> es_arrived s = [received_packet 3 (replicate MAX_PACKET_SIZE 1) 7] \<and>
     es_accepted s = es_arrived s \<and> es_read s = [] \<and> es_rpc s = R_Test"
proof -
  let ?s0 = demo_threads and ?buf = "replicate MAX_PACKET_SIZE 1 :: bytes"
  have inv: "packets_inv ?s0" "control_inv ?s0"
    using engine_threads_inv[OF demo_boot] by (simp_all add: ItchParser_methods_def)
  note r1 = demo_receiving
  have h: "es_arrived ?s0 = []" "es_accepted ?s0 = []" "es_read ?s0 = []"
    by (simp_all add: engine_threads_def)
  then have q: "rx_queue (es_receiver ?s0) = []" using inv by (simp add: packets_inv_def)
  have ok: "recv_ok 3 ?buf" by (simp add: recv_ok_def MAX_PACKET_SIZE_def)
  obtain pk' r' where it: "receive_iteration 3 ?buf 7 (es_packet ?s0) (es_receiver ?s0) = Some (pk', r')"
    "rx_queue r' = [received_packet 3 ?buf 7]"
    using receive_iteration_spec[OF _ ok, of "es_receiver ?s0" 7 "es_packet ?s0"] inv q
    by (auto simp: packets_inv_def)
  let ?s = "?s0\<lparr>es_rpc := R_Recv\<rparr>"
  have "es_rpc ?s = R_Recv" "receive_iteration 3 ?buf 7 (es_packet ?s) (es_receiver ?s) = Some (pk', r')"
    using it(1) by simp_all
  from reach_engine_step[OF r1 recv_return[OF this(1) ok this(2)]] show ?thesis
    by (intro exI conjI, assumption) (simp_all add: h q it(2))
qed

section \<open>Stopping an idle engine\<close>

text \<open>
  An engine on which \<open>stop\<close> was called while its receive thread waits in \<open>recvfrom\<close> and the others
  are at the top of their loops.
\<close>

lemma stop_until_receiver:
  assumes reach: "engine_reach s0 s" and st: "es_spc s = S_Parse" "\<not> es_running s" "es_ppc s = E_Test"
    "ds_dpc (es_disp s) = D_Idle" "ds_lpc (es_disp s) = L_Test" "d_running (ds_disp (es_disp s))"
    "es_rpc s = R_Recv" "ur_running (es_receiver s)"
  shows "\<exists>s'. engine_reach s0 s' \<and> es_spc s' = S_Receiver \<and> es_rpc s' = R_Recv \<and> es_ppc s' = E_Exit \<and>
    ds_dpc (es_disp s') = D_Idle \<and> ds_lpc (es_disp s') = L_Exit \<and>
    es_receiver s' = (es_receiver s)\<lparr>ur_running := False\<rparr>"
proof -
  let ?ds = "(es_disp s)\<lparr>ds_disp := (ds_disp (es_disp s))\<lparr>d_running := False\<rparr>\<rparr>"
  define s2 where "s2 = s\<lparr>es_ppc := E_Exit\<rparr>"
  have r2: "engine_reach s0 s2" using reach_engine_step[OF reach parse_exit] st by (simp add: s2_def)
  have "engine_reach s0 (s2\<lparr>es_disp := ?ds, es_spc := S_Dispatcher\<rparr>)"
    using reach_engine_step[OF r2 stop_parse_joined] stop_request[OF refl, of "es_disp s"] st
    by (simp add: s2_def)
  moreover have "disp_step ?ds (?ds\<lparr>ds_lpc := L_Exit\<rparr>)" using st by (intro loop_exit) simp_all
  ultimately have r4: "engine_reach s0 (s2\<lparr>es_spc := S_Dispatcher, es_disp := ?ds\<lparr>ds_lpc := L_Exit\<rparr>\<rparr>)"
    using reach_engine_step[OF _ engine_step.deliver[of "s2\<lparr>es_disp := ?ds, es_spc := S_Dispatcher\<rparr>"]] st by simp
  have r5: "engine_reach s0 (s2\<lparr>es_disp := disp_joined (?ds\<lparr>ds_lpc := L_Exit\<rparr>), es_spc := S_Receiver_call\<rparr>)"
    using reach_engine_step[OF r4 stop_dispatcher_joined] by simp
  have "engine_reach s0 (s2\<lparr>es_disp := disp_joined (?ds\<lparr>ds_lpc := L_Exit\<rparr>),
      es_receiver := (es_receiver s)\<lparr>ur_running := False\<rparr>, es_spc := S_Receiver\<rparr>)"
    using reach_engine_step[OF r5 stop_receiver] st by (simp add: s2_def)
  then show ?thesis by (rule_tac exI, rule_tac conjI, assumption) (simp add: s2_def st)
qed

text \<open>Once \<open>recvfrom\<close> returns, \<open>stop\<close> can finish.\<close>

lemma stop_after_receiver:
  assumes reach: "engine_reach s0 s" and inv: "packets_inv s"
    and st: "es_spc s = S_Receiver" "es_rpc s = R_Recv" "\<not> ur_running (es_receiver s)"
  shows "\<exists>s'. engine_reach s0 s' \<and> es_spc s' = S_Done"
proof -
  have ok: "recv_ok (- 1) (replicate MAX_PACKET_SIZE 0)" by (simp add: recv_ok_def)
  then obtain pk' r' where it: "receive_iteration (- 1) (replicate MAX_PACKET_SIZE 0) 0 (es_packet s)
      (es_receiver s) = Some (pk', r')"
    using receive_iteration_spec[of "es_receiver s"] inv unfolding packets_inv_def by blast
  note r1 = reach_engine_step[OF reach recv_return[OF st(2) ok it]]
  have nr: "\<not> ur_running r'" using receive_iteration_keeps[OF it] st(3) by simp
  note r2 = reach_engine_step[OF r1 recv_exit]
  note r3 = reach_engine_step[OF r2 stop_receiver_joined]
  note r4 = reach_engine_step[OF r3 stop_reset[OF _ prod.collapse[symmetric]]]
  show ?thesis by (intro exI conjI, rule r4) (simp_all add: st nr)
qed

lemma booted_waiting:
  assumes "engine_boot config junk (ips, p) subs os = Inr (True, e)"
  shows "\<exists>s. engine_reach (engine_threads junk' (ips, ip_initialize ips p) e) s \<and>
    es_spc s = S_Receiver \<and> es_rpc s = R_Recv \<and> es_ppc s = E_Exit \<and> ds_dpc (es_disp s) = D_Idle \<and>
    ds_lpc (es_disp s) = L_Exit \<and> \<not> ur_running (es_receiver s)"
proof -
  let ?s0 = "engine_threads junk' (ips, ip_initialize ips p) e"
  have inv: "control_inv ?s0" using engine_threads_inv[OF assms] by simp
  then have f: "es_spc ?s0 = S_Idle" "es_running ?s0" "ur_running (es_receiver ?s0)"
    "d_running (ds_disp (es_disp ?s0))"
    by (simp_all add: control_inv_def engine_threads_def)
  have g: "es_ppc ?s0 = E_Test" "ds_dpc (es_disp ?s0) = D_Idle" "ds_lpc (es_disp ?s0) = L_Test"
    by (simp_all add: engine_threads_def)
  have "es_rpc ?s0 = R_Test" using f(3) by (simp add: engine_threads_def)
  then have "engine_reach ?s0 (?s0\<lparr>es_rpc := R_Recv\<rparr>)"
    by (intro reach_engine_step[OF reach_start] recv_enter f(3))
  then have "engine_reach ?s0 (?s0\<lparr>es_rpc := R_Recv, es_running := False, es_spc := S_Parse\<rparr>)"
    using reach_engine_step[OF _ stop_call[of "?s0\<lparr>es_rpc := R_Recv\<rparr>"]] f(1,2) by simp
  from stop_until_receiver[OF this] f g show ?thesis by fastforce
qed

section \<open>Properties\<close>

text \<open>
  C2: the running engine, end to end.  In every interleaving of the receive, parse, dispatcher and
  stopping threads, the packets the ring accepted are a subsequence of those that arrived, in order,
  they are the packets read followed by those still in the ring, and the receiver's counters say how
  many were accepted and dropped.  The messages dispatched so far, followed by those of the packet in
  hand, are exactly what the reference parser decodes from the packets read.  All of them conform to
  the wire format.  Each subscriber has received an initial part of what its queue accepted, which is
  a subsequence of the dispatched messages, at most one message is between queue and subscriber, and
  its state is the result of exactly those deliveries, followed by \<open>shutdown\<close> once the
  dispatcher thread is joined.
\<close>

theorem engine_threads_deliver:
  assumes "engine_boot config junk (ItchParser_methods, p) subs os = Inr (True, e)"
    and "engine_reach (engine_threads junk' (ItchParser_methods, p) e) s"
  shows "es_read s @ rx_queue (es_receiver s) = es_accepted s \<and> subseq (es_accepted s) (es_arrived s) \<and>
    packets_received (ur_stats (es_receiver s)) = of_nat (length (es_accepted s)) \<and>
    packets_dropped (ur_stats (es_receiver s)) = of_nat (length (es_arrived s) - length (es_accepted s)) \<and>
    ds_dispatched (es_disp s) @ undispatched s =
      ref_parse_all (replicate (unat (cc_max_messages_per_packet config)) NormalizedMessage_default)
        (es_read s) p \<and>
    (\<forall>m\<in>set (ds_dispatched (es_disp s)). conforms m \<and> nm_type m \<in> itch_types) \<and>
    (\<forall>i<length subs.
      (\<exists>popped. length popped \<le> 1 \<and> ds_accepted (es_disp s) ! i =
        ds_delivered (es_disp s) ! i @ popped @ spsc_contents (d_queues (ds_disp (es_disp s)) ! i)) \<and>
      subseq (ds_accepted (es_disp s) ! i) (ds_dispatched (es_disp s)) \<and>
      d_subscribers (ds_disp (es_disp s)) ! i =
        (if es_spc s \<in> {S_Idle, S_Parse, S_Dispatcher} then id else shutdown_sub)
          (deliver_all (ds_delivered (es_disp s) ! i) (initialize_sub (subs ! i))))"
proof -
  note inv = itch_engine_reach[OF assms]
  have slots: "parse_loop_messages e =
      replicate (unat (cc_max_messages_per_packet config)) NormalizedMessage_default"
    using assms(1) by (auto simp: engine_boot_spec parse_loop_messages_def split: prod.splits)
  have "\<forall>m\<in>set (parse_loop_messages e). conforms m" by (auto simp: slots)
  from ref_parse_all_conforms[OF this, of "es_read s" p]
  have "\<forall>m\<in>set (ds_dispatched (es_disp s)). conforms m \<and> nm_type m \<in> itch_types"
    unfolding inv(5)[symmetric] by auto
  then show ?thesis using inv(2,5) delivery_inv_subscriber[OF inv(3)] unfolding slots packets_inv_def by auto
qed

theorem engine_threads_deliver_witness:
  "\<exists>s. engine_reach demo_threads s \<and> length (es_arrived s) = 1 \<and>
     rx_queue (es_receiver s) = es_arrived s \<and> packets_received (ur_stats (es_receiver s)) = 1 \<and>
     d_subscribers (ds_disp (es_disp s)) ! 0 \<in>
       {deliver_all ms (initialize_sub demo_sub) |ms. True} \<union>
       {shutdown_sub (deliver_all ms (initialize_sub demo_sub)) |ms. True}"
proof -
  obtain s where s: "engine_reach demo_threads s" "length (es_arrived s) = 1" "es_accepted s = es_arrived s"
    "es_read s = []" using demo_arrival by auto
  then show ?thesis using engine_threads_deliver[OF demo_boot s(1)] by (intro exI[of _ s]) auto
qed

text \<open>
  C9: no thread of the engine blocks on another one or runs into undefined behaviour.  In every
  reachable state each thread that has not left its loop can take a step of its own, one that changes
  its own place in the code: the receive thread tests its flag, and inside \<open>recvfrom\<close> it goes on with
  every answer the operating system may give, which adds the datagram to those that arrived; the parse
  thread moves on, or finds the ring empty, in which case an iteration that changes nothing is enabled;
  the dispatcher thread moves on; and \<open>stop\<close> goes on whenever the thread it joins has ended.
\<close>

theorem engine_threads_progress:
  assumes "engine_boot config junk (ItchParser_methods, p) subs os = Inr (True, e)"
    and "engine_reach (engine_threads junk' (ItchParser_methods, p) e) s"
  shows "(es_rpc s = R_Test \<longrightarrow>
      (\<exists>s'. engine_step s s' \<and> es_rpc s' = (if ur_running (es_receiver s) then R_Recv else R_Exit))) \<and>
    (es_rpc s = R_Recv \<longrightarrow> (\<forall>received buf now. recv_ok received buf \<longrightarrow>
      (\<exists>s'. engine_step s s' \<and> es_rpc s' = R_Test \<and> es_arrived s' = es_arrived s @
        (if 0 < received then [received_packet received buf now] else [])))) \<and>
    (es_ppc s \<noteq> E_Exit \<longrightarrow>
      (\<exists>s'. engine_step s s' \<and> (es_ppc s' \<noteq> es_ppc s \<or> ds_dpc (es_disp s') \<noteq> ds_dpc (es_disp s))) \<or>
      es_ppc s = E_Test \<and> es_running s \<and> rx_queue (es_receiver s) = [] \<and> engine_step s s) \<and>
    (ds_lpc (es_disp s) \<noteq> L_Exit \<longrightarrow>
      (\<exists>s'. engine_step s s' \<and> ds_lpc (es_disp s') \<noteq> ds_lpc (es_disp s))) \<and>
    (es_spc s = S_Parse \<and> es_ppc s = E_Exit \<or> es_spc s = S_Dispatcher \<and> ds_lpc (es_disp s) = L_Exit \<or>
      es_spc s = S_Receiver \<and> es_rpc s = R_Exit \<or> es_spc s \<in> {S_Receiver_call, S_Reset} \<longrightarrow>
      (\<exists>s'. engine_step s s' \<and> es_spc s' \<noteq> es_spc s))"
proof -
  note inv = itch_engine_reach[OF assms]
  have "(\<exists>s'. engine_step s s' \<and> (es_ppc s' \<noteq> es_ppc s \<or> ds_dpc (es_disp s') \<noteq> ds_dpc (es_disp s))) \<or>
      es_ppc s = E_Test \<and> es_running s \<and> rx_queue (es_receiver s) = [] \<and> engine_step s s"
    if "es_ppc s \<noteq> E_Exit"
    using itch_parser.parse_progress_test[OF inv(2,4) parse_loop_messages_bound]
      itch_parser.parse_progress_dispatch[OF inv(1,3,4)] that by (cases "es_ppc s") auto
  with recv_progress[of s] recv_answer[OF inv(2)] deliver_progress[OF inv(1,3)] stop_progress[OF inv(1)]
  show ?thesis by blast
qed

theorem engine_threads_progress_witness:
  "\<exists>s. engine_reach demo_threads s \<and> es_rpc s = R_Recv \<and>
     (\<exists>s'. engine_step s s' \<and> es_rpc s' = R_Test \<and>
       es_arrived s' = [received_packet 3 (replicate MAX_PACKET_SIZE 1) 7]) \<and>
     (\<exists>s'. engine_step s s' \<and> ds_lpc (es_disp s') \<noteq> L_Test)"
proof -
  let ?s = "demo_threads\<lparr>es_rpc := R_Recv\<rparr>"
  have r: "engine_reach demo_threads ?s" by (rule demo_receiving)
  have ok: "recv_ok 3 (replicate MAX_PACKET_SIZE 1)" by (simp add: recv_ok_def MAX_PACKET_SIZE_def)
  have f: "es_rpc ?s = R_Recv" "ds_lpc (es_disp ?s) = L_Test" "es_arrived ?s = []"
    by (simp_all add: engine_threads_def)
  note g = engine_threads_progress[OF demo_boot r]
  have "\<exists>s'. engine_step ?s s' \<and> es_rpc s' = R_Test \<and>
      es_arrived s' = [received_packet 3 (replicate MAX_PACKET_SIZE 1) 7]"
    using g[THEN conjunct2, THEN conjunct1, THEN mp, OF f(1), THEN spec, THEN spec, THEN spec, THEN mp, OF ok]
    unfolding f(3) by simp
  moreover have "\<exists>s'. engine_step ?s s' \<and> ds_lpc (es_disp s') \<noteq> L_Test" using g f(2) by simp
  ultimately show ?thesis using r f(1) by blast
qed

text \<open>
  C8: when \<open>CoreEngine::stop\<close> has returned, every thread has left its loop, the socket is closed,
  all flags are cleared, every message decoded from the packets read has been dispatched, every
  subscriber has been shut down, and nothing moves any more.
\<close>

theorem engine_stop_complete:
  assumes "engine_boot config junk (ItchParser_methods, p) subs os = Inr (True, e)"
    and "engine_reach (engine_threads junk' (ItchParser_methods, p) e) s" and "es_spc s = S_Done"
  shows "es_rpc s = R_Exit \<and> es_ppc s = E_Exit \<and> ds_lpc (es_disp s) = L_Exit \<and> \<not> es_running s \<and>
    \<not> ur_running (es_receiver s) \<and> \<not> d_running (ds_disp (es_disp s)) \<and> ur_socket_fd (es_receiver s) < 0 \<and>
    ds_dispatched (es_disp s) = ref_parse_all (parse_loop_messages e) (es_read s) p \<and>
    messages_parsed (es_stats s) = of_nat (length (ds_dispatched (es_disp s))) \<and>
    (\<forall>i<length subs. d_subscribers (ds_disp (es_disp s)) ! i =
      shutdown_sub (deliver_all (ds_delivered (es_disp s) ! i) (initialize_sub (subs ! i)))) \<and>
    (\<forall>s'. \<not> engine_step s s')"
proof -
  note inv = itch_engine_reach[OF assms(1,2)]
  note c = done_threads[OF inv(1) assms(3)]
  show ?thesis
    using c inv(4,5) delivery_inv_subscriber(2)[OF inv(3)] done_no_step[OF inv(1) assms(3)] assms(3)
    by (auto simp: messages_inv_def)
qed

theorem engine_stop_complete_witness:
  "\<exists>s. engine_reach demo_threads s \<and> es_spc s = S_Done \<and> es_rpc s = R_Exit \<and>
     ur_socket_fd (es_receiver s) < 0 \<and> (\<forall>s'. \<not> engine_step s s')"
proof -
  have m: "ip_initialize ItchParser_methods ItchParser_new = ItchParser_new"
    by (simp add: ItchParser_methods_def)
  obtain s where s: "engine_reach demo_threads s" "es_spc s = S_Receiver" "es_rpc s = R_Recv"
    "\<not> ur_running (es_receiver s)" using booted_waiting[OF demo_boot, of "[]"] unfolding m by blast
  obtain s' where s': "engine_reach demo_threads s'" "es_spc s' = S_Done"
    using stop_after_receiver[OF s(1) itch_engine_reach(2)[OF demo_boot s(1)] s(2-4)] by blast
  then show ?thesis using engine_stop_complete[OF demo_boot s'(1,2)] by blast
qed

text \<open>
  C30: \<open>CoreEngine::stop\<close> depends on traffic.  \<open>UDPReceiver::stop\<close> joins its thread before it closes
  the socket, and the thread may be inside \<open>recvfrom\<close>, which has no timeout: as long as it is,
  \<open>stop\<close> has not returned, and every engine that started can reach a state in which all other
  threads have ended and the only step left is that \<open>recvfrom\<close> returns.
\<close>

theorem engine_stop_waits_for_recvfrom:
  assumes "engine_boot config junk (ItchParser_methods, p) subs os = Inr (True, e)"
  shows "(\<forall>s. engine_reach (engine_threads junk' (ItchParser_methods, p) e) s \<and> es_rpc s = R_Recv \<longrightarrow>
      es_spc s \<notin> {S_Reset, S_Done}) \<and>
    (\<exists>s. engine_reach (engine_threads junk' (ItchParser_methods, p) e) s \<and> es_spc s = S_Receiver \<and>
      es_rpc s = R_Recv \<and> (\<forall>s'. engine_step s s' \<longrightarrow> es_rpc s' = R_Test))"
proof -
  have m: "ip_initialize ItchParser_methods p = p" by (simp add: ItchParser_methods_def)
  obtain s where s: "engine_reach (engine_threads junk' (ItchParser_methods, p) e) s"
    "es_spc s = S_Receiver" "es_rpc s = R_Recv" "es_ppc s = E_Exit" "ds_dpc (es_disp s) = D_Idle"
    "ds_lpc (es_disp s) = L_Exit"
    using booted_waiting[OF assms, of junk'] unfolding m by blast
  have "es_rpc s' = R_Test" if "engine_step s s'" for s'
    using that s disp_step_thread(4)[of "es_disp s"] by (auto elim!: engine_step.cases)
  then show ?thesis using s(1-3) itch_engine_reach(1)[OF assms] by (auto simp: control_inv_def)
qed

theorem engine_stop_waits_for_recvfrom_witness:
  "\<exists>s. engine_reach demo_threads s \<and> es_spc s = S_Receiver \<and> es_rpc s = R_Recv \<and>
     (\<forall>s'. engine_step s s' \<longrightarrow> es_rpc s' = R_Test)"
  using engine_stop_waits_for_recvfrom[OF demo_boot, of "[]"] by blast

end
