(* ===== verification/Parser_Registry.thy ===== *)
theory Parser_Registry
  imports Parser_Interface "HOL-Library.Multiset"
begin

text \<open>
  \<open>protocols/common/parser_registry.hpp\<close>: the registry of parser factories.  The
  \<open>unordered_map\<close> is the list of its entries in iteration order; an insertion may rehash, so the
  order after it is a parameter \<open>rehash\<close> of which only that it permutes the entries is used.  A
  factory is a callable that returns a parser; an empty \<open>std::function\<close>, whose call throws, is left
  out.
\<close>

section \<open>Definitions\<close>

type_synonym 'p factory = "unit \<Rightarrow> 'p"

record 'p ParserRegistry =
  reg_factories :: "(string \<times> 'p factory) list"

definition ParserRegistry_new :: "'p ParserRegistry" where
  "ParserRegistry_new = \<lparr>reg_factories = []\<rparr>"

text \<open>\<open>emplace\<close> inserts only when the key is absent.\<close>

definition register_parser ::
  "((string \<times> 'p factory) list \<Rightarrow> (string \<times> 'p factory) list) \<Rightarrow> string \<Rightarrow> 'p factory \<Rightarrow>
    'p ParserRegistry \<Rightarrow> bool \<times> 'p ParserRegistry" where
  "register_parser rehash name fac r =
     (if map_of (reg_factories r) name = None
      then (True, r\<lparr>reg_factories := rehash ((name, fac) # reg_factories r)\<rparr>)
      else (False, r))"

definition create_parser :: "string \<Rightarrow> 'p ParserRegistry \<Rightarrow> 'p option" where
  "create_parser name r =
     (case map_of (reg_factories r) name of Some fac \<Rightarrow> Some (fac ()) | None \<Rightarrow> None)"

definition list_parsers :: "'p ParserRegistry \<Rightarrow> string list" where
  "list_parsers r = map fst (reg_factories r)"

definition has_parser :: "string \<Rightarrow> 'p ParserRegistry \<Rightarrow> bool" where
  "has_parser name r \<longleftrightarrow> map_of (reg_factories r) name \<noteq> None"

text \<open>The constructor of the registration helper ignores the result.\<close>

definition ParserRegistration ::
  "((string \<times> 'p factory) list \<Rightarrow> (string \<times> 'p factory) list) \<Rightarrow> string \<Rightarrow> 'p \<Rightarrow>
    'p ParserRegistry \<Rightarrow> 'p ParserRegistry" where
  "ParserRegistration rehash name fresh r = snd (register_parser rehash name (\<lambda>_. fresh) r)"

section \<open>Lemmas\<close>

definition reg_inv :: "'p ParserRegistry \<Rightarrow> bool" where
  "reg_inv r \<longleftrightarrow> distinct (list_parsers r)"

definition permutes_entries :: "('a list \<Rightarrow> 'a list) \<Rightarrow> bool" where
  "permutes_entries rehash \<longleftrightarrow> (\<forall>xs. mset (rehash xs) = mset xs)"

lemma map_of_rehash:
  assumes "permutes_entries rehash" "distinct (map fst xs)"
  shows "map_of (rehash xs) = map_of xs" "distinct (map fst (rehash xs))" "set (rehash xs) = set xs"
proof -
  have m: "mset (rehash xs) = mset xs" using assms(1) by (simp add: permutes_entries_def)
  then show s: "set (rehash xs) = set xs" by (metis set_mset_mset)
  show d: "distinct (map fst (rehash xs))"
    using assms(2) m by (metis mset_eq_imp_distinct_iff mset_map)
  show "map_of (rehash xs) = map_of xs"
    using assms(2) d s by (simp add: map_of_inject_set)
qed

lemma has_parser_iff: "has_parser name r \<longleftrightarrow> name \<in> set (list_parsers r)"
  by (simp add: has_parser_def list_parsers_def map_of_eq_None_iff)

lemma register_new:
  assumes "permutes_entries rehash" "reg_inv r" "\<not> has_parser name r"
  shows "\<exists>r'. register_parser rehash name fac r = (True, r') \<and> reg_inv r' \<and>
    map_of (reg_factories r') = (map_of (reg_factories r))(name \<mapsto> fac) \<and>
    set (list_parsers r') = insert name (set (list_parsers r))"
proof -
  have none: "map_of (reg_factories r) name = None" using assms(3) by (simp add: has_parser_def)
  then have "distinct (map fst ((name, fac) # reg_factories r))"
    using assms(2) by (simp add: reg_inv_def list_parsers_def map_of_eq_None_iff)
  from map_of_rehash[OF assms(1) this] show ?thesis
    by (auto simp: register_parser_def none reg_inv_def list_parsers_def)
qed

section \<open>Properties\<close>

text \<open>
  C33: the first registration of a name wins.  Registering an absent name succeeds and from then on
  \<open>create_parser\<close> with that name calls its factory, no other name changes, and the listed names
  are exactly the registered ones, each once; registering a present name fails and changes nothing.
\<close>

theorem registry_first_wins:
  fixes name :: string and fac :: "'p factory"
  assumes "permutes_entries rehash" "reg_inv r"
  defines "res \<equiv> register_parser rehash name fac r"
  shows "fst res = (\<not> has_parser name r) \<and> reg_inv (snd res) \<and>
    (fst res \<longrightarrow> create_parser name (snd res) = Some (fac ()) \<and>
      (\<forall>other. other \<noteq> name \<longrightarrow> create_parser other (snd res) = create_parser other r) \<and>
      set (list_parsers (snd res)) = insert name (set (list_parsers r))) \<and>
    (\<not> fst res \<longrightarrow> snd res = r) \<and>
    (\<forall>other. has_parser other (snd res) = (other \<in> set (list_parsers (snd res))))"
proof (cases "has_parser name r")
  case True
  then have "res = (False, r)" by (simp add: res_def register_parser_def has_parser_def)
  then show ?thesis using assms(2) True by (simp add: has_parser_iff)
next
  case False
  obtain r' where "register_parser rehash name fac r = (True, r')" "reg_inv r'"
    "map_of (reg_factories r') = (map_of (reg_factories r))(name \<mapsto> fac)"
    "set (list_parsers r') = insert name (set (list_parsers r))"
    using register_new[OF assms(1,2) False] by blast
  with False show ?thesis by (simp add: res_def create_parser_def has_parser_iff)
qed

theorem registry_first_wins_witness:
  "create_parser ''itch'' (snd (register_parser rev ''itch'' (\<lambda>_. 1 :: nat) ParserRegistry_new)) = Some 1"
proof -
  have "permutes_entries rev" "reg_inv ParserRegistry_new" "\<not> has_parser ''itch'' ParserRegistry_new"
    by (simp_all add: permutes_entries_def reg_inv_def list_parsers_def ParserRegistry_new_def has_parser_def)
  then show ?thesis
    using registry_first_wins[of rev ParserRegistry_new "''itch''" "\<lambda>_. 1 :: nat"] by blast
qed

end
