(* ===== verification/Example_Subscribers.thy ===== *)
theory Example_Subscribers
  imports Subscriber Floating Message_Types
begin

text \<open>
  The subscribers of \<open>examples/itch50_example.cpp\<close> and \<open>examples/basic_example.cpp\<close>, with the text
  they write to standard output, recorded in order in their state.  The clock of
  \<open>StatisticsSubscriber\<close> and the iteration order of its \<open>unordered_map\<close> are arguments.
\<close>

section \<open>Definitions\<close>

text \<open>\<open>std::fixed << std::setprecision(4) << (price / 10000.0)\<close>.\<close>

definition price_text :: "u64 \<Rightarrow> string" where
  "price_text price = (if sint price < 0 then ''-'' else []) @
     fixed 4 (double_div (double_of (nat \<bar>sint price\<bar>)) (double_of 10000))"

definition side_text :: "u8 \<Rightarrow> string" where
  "side_text side = (if side = 0 then ''BUY'' else ''SELL'')"

definition print_order :: "NormalizedMessage \<Rightarrow> string \<Rightarrow> string" where
  "print_order msg action = ''['' @ action @ ''] '' @
     ''Instrument: '' @ dec_word (nm_instrument_id msg) @ '' Order: '' @ dec_word (nm_order_id msg) @
     '' Side: '' @ side_text (nm_side msg) @ '' Qty: '' @ dec_word (nm_quantity msg) @
     '' Price: $'' @ price_text (nm_price msg) @ nl"

definition print_trade :: "NormalizedMessage \<Rightarrow> string" where
  "print_trade msg = ''[TRADE] '' @ ''Instrument: '' @ dec_word (nm_instrument_id msg) @
     '' Side: '' @ side_text (nm_side msg) @ '' Qty: '' @ dec_word (nm_quantity msg) @
     '' Price: $'' @ price_text (nm_price msg) @ nl"

record OrderBook =
  ob_instrument_id :: u64
  ob_message_count :: u64
  ob_add_count :: u64
  ob_execute_count :: u64
  ob_cancel_count :: u64
  ob_delete_count :: u64
  ob_trade_count :: u64
  ob_printed :: "string list"

definition OrderBook_new :: "u64 \<Rightarrow> OrderBook" where
  "OrderBook_new instrument_id = \<lparr>ob_instrument_id = instrument_id, ob_message_count = 0,
     ob_add_count = 0, ob_execute_count = 0, ob_cancel_count = 0, ob_delete_count = 0,
     ob_trade_count = 0, ob_printed = []\<rparr>"

definition OrderBook_on_message :: "NormalizedMessage \<Rightarrow> OrderBook \<Rightarrow> bool \<times> OrderBook" where
  "OrderBook_on_message msg b =
     (if nm_instrument_id msg \<noteq> ob_instrument_id b \<and> ob_instrument_id b \<noteq> 0 then (True, b)
      else let b = b\<lparr>ob_message_count := ob_message_count b + 1\<rparr> in
        (True, case nm_type msg of
          NM_ORDER_ADD \<Rightarrow>
            let b = b\<lparr>ob_add_count := ob_add_count b + 1\<rparr> in
            if ob_add_count b mod 1000 = 0
            then b\<lparr>ob_printed := ob_printed b @ [print_order msg ''ADD'']\<rparr> else b
        | NM_ORDER_EXECUTE \<Rightarrow>
            let b = b\<lparr>ob_execute_count := ob_execute_count b + 1\<rparr> in
            if ob_execute_count b mod 1000 = 0
            then b\<lparr>ob_printed := ob_printed b @ [print_order msg ''EXECUTE'']\<rparr> else b
        | NM_ORDER_MODIFY \<Rightarrow> b\<lparr>ob_cancel_count := ob_cancel_count b + 1\<rparr>
        | NM_ORDER_DELETE \<Rightarrow> b\<lparr>ob_delete_count := ob_delete_count b + 1\<rparr>
        | NM_TRADE \<Rightarrow>
            let b = b\<lparr>ob_trade_count := ob_trade_count b + 1\<rparr> in
            if ob_trade_count b mod 100 = 0
            then b\<lparr>ob_printed := ob_printed b @ [print_trade msg]\<rparr> else b
        | _ \<Rightarrow> b))"

definition OrderBook_report :: "OrderBook \<Rightarrow> string" where
  "OrderBook_report b =
     nl @ replicate 60 CHR ''='' @ nl @ ''Order Book Statistics'' @ nl @ replicate 60 CHR ''='' @ nl @
     ''Total messages: '' @ dec_word (ob_message_count b) @ nl @
     ''  Add orders:   '' @ dec_word (ob_add_count b) @ nl @
     ''  Executions:   '' @ dec_word (ob_execute_count b) @ nl @
     ''  Cancels:      '' @ dec_word (ob_cancel_count b) @ nl @
     ''  Deletes:      '' @ dec_word (ob_delete_count b) @ nl @
     ''  Trades:       '' @ dec_word (ob_trade_count b) @ nl @ replicate 60 CHR ''='' @ nl"

definition OrderBook_shutdown :: "OrderBook \<Rightarrow> OrderBook" where
  "OrderBook_shutdown b = b\<lparr>ob_printed := ob_printed b @ [OrderBook_report b]\<rparr>"

definition OrderBookSubscriber :: "u64 \<Rightarrow> OrderBook ISubscriber" where
  "OrderBookSubscriber instrument_id = (ISubscriber_defaults ''OrderBookSubscriber''
     OrderBook_on_message (OrderBook_new instrument_id))\<lparr>sub_shutdown := OrderBook_shutdown\<rparr>"

text \<open>\<open>stats_[type]++\<close> creates the entry at zero; \<open>now\<close> and \<open>last_print_\<close> are nanoseconds.\<close>

record StatsSub =
  ss_stats :: "NmType \<rightharpoonup> u64"
  ss_last_print :: int
  ss_reports :: "string list"

definition StatsSub_new :: "int \<Rightarrow> StatsSub" where
  "StatsSub_new now = \<lparr>ss_stats = Map.empty, ss_last_print = now, ss_reports = []\<rparr>"

definition bump :: "NmType \<Rightarrow> (NmType \<rightharpoonup> u64) \<Rightarrow> (NmType \<rightharpoonup> u64)" where
  "bump t m = m(t \<mapsto> (case m t of None \<Rightarrow> 0 | Some n \<Rightarrow> n) + 1)"

fun get_type_name :: "NmType \<Rightarrow> string" where
  "get_type_name NM_UNKNOWN = ''Unknown''"
| "get_type_name NM_TRADE = ''Trade''"
| "get_type_name NM_QUOTE = ''Quote''"
| "get_type_name NM_ORDER_ADD = ''Add Order''"
| "get_type_name NM_ORDER_MODIFY = ''Modify Order''"
| "get_type_name NM_ORDER_DELETE = ''Delete Order''"
| "get_type_name NM_ORDER_EXECUTE = ''Execute Order''"
| "get_type_name NM_IMBALANCE = ''Imbalance''"
| "get_type_name NM_SYSTEM_EVENT = ''System Event''"

definition stats_count :: "(NmType \<rightharpoonup> u64) \<Rightarrow> NmType \<Rightarrow> u64" where
  "stats_count m t = (case m t of None \<Rightarrow> 0 | Some n \<Rightarrow> n)"

text \<open>\<open>total > 0 ? (100.0 * kv.second / total) : 0.0\<close>.\<close>

definition percentage :: "u64 \<Rightarrow> u64 \<Rightarrow> nat" where
  "percentage n tot = (if tot > 0
     then double_div (double_mul (double_of 100) (double_of (unat n))) (double_of (unat tot)) else 0)"

text \<open>\<open>keys\<close> are the entries of the map in its iteration order.\<close>

definition print_stats :: "NmType list \<Rightarrow> (NmType \<rightharpoonup> u64) \<Rightarrow> string" where
  "print_stats keys m =
     (let total = (\<Sum>t\<leftarrow>keys. stats_count m t) in
      nl @ ''--- Stats (last 5s) ---'' @ nl @ ''Total: '' @ dec_word total @ '' messages'' @ nl @
      concat (map (\<lambda>t. ''  '' @ pad_left CHR '' '' 15 (get_type_name t) @ '': '' @
        pad_left CHR '' '' 8 (dec_word (stats_count m t)) @ '' ('' @
        fixed 1 (percentage (stats_count m t) total) @ ''%)'' @ nl) keys) @
      replicate 30 CHR ''-'' @ nl)"

definition StatsSub_on_message ::
  "((NmType \<rightharpoonup> u64) \<Rightarrow> NmType list) \<Rightarrow> int \<Rightarrow> NormalizedMessage \<Rightarrow> StatsSub \<Rightarrow> bool \<times> StatsSub" where
  "StatsSub_on_message keys now msg s =
     (let s = s\<lparr>ss_stats := bump (nm_type msg) (ss_stats s)\<rparr> in
      (True, if now - ss_last_print s \<ge> 5 * 1000000000
             then s\<lparr>ss_reports := ss_reports s @ [print_stats (keys (ss_stats s)) (ss_stats s)],
               ss_last_print := now\<rparr> else s))"

record PrintSub =
  ps_message_count :: u64
  ps_printed :: "string list"

definition PrintSub_new :: PrintSub where
  "PrintSub_new = \<lparr>ps_message_count = 0, ps_printed = []\<rparr>"

definition PrintSub_on_message :: "NormalizedMessage \<Rightarrow> PrintSub \<Rightarrow> bool \<times> PrintSub" where
  "PrintSub_on_message msg s =
     (let s = s\<lparr>ps_message_count := ps_message_count s + 1\<rparr> in
      (True, if ps_message_count s mod 10000 = 0
             then s\<lparr>ps_printed := ps_printed s @ [''Received '' @ dec_word (ps_message_count s) @
               '' messages, '' @ ''Latest: seq='' @ dec_word (nm_sequence msg) @
               '' ts='' @ dec_word (nm_local_timestamp msg) @ nl]\<rparr> else s))"

definition PrintSub_shutdown :: "PrintSub \<Rightarrow> PrintSub" where
  "PrintSub_shutdown s = s\<lparr>ps_printed := ps_printed s @
     [''Total messages received: '' @ dec_word (ps_message_count s) @ nl]\<rparr>"

definition PrintSubscriber :: "PrintSub ISubscriber" where
  "PrintSubscriber = (ISubscriber_defaults ''PrintSubscriber'' PrintSub_on_message PrintSub_new)
     \<lparr>sub_shutdown := PrintSub_shutdown\<rparr>"

section \<open>Counting\<close>

definition concerns :: "u64 \<Rightarrow> NormalizedMessage \<Rightarrow> bool" where
  "concerns i m \<longleftrightarrow> i = 0 \<or> nm_instrument_id m = i"

fun count_of :: "u64 \<Rightarrow> NmType \<Rightarrow> NormalizedMessage list \<Rightarrow> nat" where
  "count_of i t [] = 0"
| "count_of i t (m # ms) = of_bool (concerns i m \<and> nm_type m = t) + count_of i t ms"

lemma count_of_filter: "count_of i t ms = length (filter (\<lambda>m. concerns i m \<and> nm_type m = t) ms)"
  by (induction ms) simp_all

lemma OrderBook_step [simp]:
  "fst (OrderBook_on_message m b)"
  "ob_instrument_id (snd (OrderBook_on_message m b)) = ob_instrument_id b"
  "ob_message_count (snd (OrderBook_on_message m b)) =
     ob_message_count b + of_bool (concerns (ob_instrument_id b) m)"
  "ob_add_count (snd (OrderBook_on_message m b)) =
     ob_add_count b + of_bool (concerns (ob_instrument_id b) m \<and> nm_type m = NM_ORDER_ADD)"
  "ob_execute_count (snd (OrderBook_on_message m b)) =
     ob_execute_count b + of_bool (concerns (ob_instrument_id b) m \<and> nm_type m = NM_ORDER_EXECUTE)"
  "ob_cancel_count (snd (OrderBook_on_message m b)) =
     ob_cancel_count b + of_bool (concerns (ob_instrument_id b) m \<and> nm_type m = NM_ORDER_MODIFY)"
  "ob_delete_count (snd (OrderBook_on_message m b)) =
     ob_delete_count b + of_bool (concerns (ob_instrument_id b) m \<and> nm_type m = NM_ORDER_DELETE)"
  "ob_trade_count (snd (OrderBook_on_message m b)) =
     ob_trade_count b + of_bool (concerns (ob_instrument_id b) m \<and> nm_type m = NM_TRADE)"
  by (cases "nm_type m"; simp add: OrderBook_on_message_def Let_def concerns_def)+

definition OrderBook_run :: "NormalizedMessage list \<Rightarrow> OrderBook \<Rightarrow> OrderBook" where
  "OrderBook_run ms b = fold (\<lambda>m b. snd (OrderBook_on_message m b)) ms b"

lemma OrderBook_run_counts:
  "ob_message_count (OrderBook_run ms b) =
     ob_message_count b + of_nat (length (filter (concerns (ob_instrument_id b)) ms))"
  "ob_add_count (OrderBook_run ms b) = ob_add_count b + of_nat (count_of (ob_instrument_id b) NM_ORDER_ADD ms)"
  "ob_execute_count (OrderBook_run ms b) =
     ob_execute_count b + of_nat (count_of (ob_instrument_id b) NM_ORDER_EXECUTE ms)"
  "ob_cancel_count (OrderBook_run ms b) =
     ob_cancel_count b + of_nat (count_of (ob_instrument_id b) NM_ORDER_MODIFY ms)"
  "ob_delete_count (OrderBook_run ms b) =
     ob_delete_count b + of_nat (count_of (ob_instrument_id b) NM_ORDER_DELETE ms)"
  "ob_trade_count (OrderBook_run ms b) = ob_trade_count b + of_nat (count_of (ob_instrument_id b) NM_TRADE ms)"
  by (induction ms arbitrary: b) (simp_all add: OrderBook_run_def)

lemma StatsSub_reports_cumulative:
  "ss_stats (snd (StatsSub_on_message keys now m s)) = bump (nm_type m) (ss_stats s)"
  by (simp add: StatsSub_on_message_def Let_def)

lemma fold_bump:
  "stats_count (fold (\<lambda>m. bump (nm_type m)) ms st) t = stats_count st t + of_nat (length (filter (\<lambda>m. nm_type m = t) ms))"
  by (induction ms arbitrary: st) (auto simp: bump_def stats_count_def split: option.splits)

lemma NmType_UNIV: "(UNIV :: NmType set) = {NM_UNKNOWN, NM_TRADE, NM_QUOTE, NM_ORDER_ADD, NM_ORDER_MODIFY,
  NM_ORDER_DELETE, NM_ORDER_EXECUTE, NM_IMBALANCE, NM_SYSTEM_EVENT}"
  by (auto intro: NmType.exhaust)

lemma finite_NmType [simp]: "finite (A :: NmType set)"
  by (rule finite_subset[OF subset_UNIV]) (simp only: NmType_UNIV finite_insert finite.emptyI)

lemma sum_type_counts: "(\<Sum>t\<in>UNIV. of_nat (length (filter (\<lambda>m. nm_type m = t) ms))) = (of_nat (length ms) :: u64)"
proof (induction ms)
  case (Cons a ms)
  have "(of_nat (length (filter (\<lambda>m. nm_type m = t) (a # ms))) :: u64) =
      (if nm_type a = t then 1 else 0) + of_nat (length (filter (\<lambda>m. nm_type m = t) ms))" for t by simp
  then show ?case using Cons by (simp only: sum.distrib sum.delta finite_NmType) simp
qed simp

text \<open>What the map holds after \<open>ms\<close>, and the total a report computes from it.\<close>

definition stats_after :: "NormalizedMessage list \<Rightarrow> (NmType \<rightharpoonup> u64)" where
  "stats_after ms = fold (\<lambda>m. bump (nm_type m)) ms Map.empty"

definition iterates :: "((NmType \<rightharpoonup> u64) \<Rightarrow> NmType list) \<Rightarrow> bool" where
  "iterates keys \<longleftrightarrow> (\<forall>m. distinct (keys m) \<and> set (keys m) = dom m)"

lemma stats_after_count: "stats_count (stats_after ms) t = of_nat (length (filter (\<lambda>m. nm_type m = t) ms))"
  using fold_bump[of ms Map.empty t] by (simp add: stats_after_def stats_count_def)

lemma stats_total:
  assumes "iterates keys"
  shows "(\<Sum>t\<leftarrow>keys (stats_after ms). stats_count (stats_after ms) t) = of_nat (length ms)"
proof -
  have "(\<Sum>t\<leftarrow>keys (stats_after ms). stats_count (stats_after ms) t) =
      (\<Sum>t\<in>dom (stats_after ms). stats_count (stats_after ms) t)"
    using assms by (simp add: iterates_def sum_list_distinct_conv_sum_set)
  also have "\<dots> = (\<Sum>t\<in>UNIV. stats_count (stats_after ms) t)"
    by (rule sum.mono_neutral_left) (auto simp: stats_count_def split: option.splits)
  finally show ?thesis by (simp add: stats_after_count sum_type_counts)
qed

lemma stats_after_dom: "dom (stats_after ms) = nm_type ` set ms"
proof -
  have "dom (fold (\<lambda>m. bump (nm_type m)) ms st) = nm_type ` set ms \<union> dom st" for st
    by (induction ms arbitrary: st) (auto simp: bump_def)
  then show ?thesis by (simp add: stats_after_def)
qed

text \<open>The messages delivered so far with the clock readings of their calls.\<close>

definition StatsSub_run :: "((NmType \<rightharpoonup> u64) \<Rightarrow> NmType list) \<Rightarrow> (int \<times> NormalizedMessage) list \<Rightarrow> StatsSub \<Rightarrow> StatsSub" where
  "StatsSub_run keys ds s = fold (\<lambda>(now, m) s. snd (StatsSub_on_message keys now m s)) ds s"

lemma StatsSub_run_stats: "ss_stats (StatsSub_run keys ds (StatsSub_new start)) = stats_after (map snd ds)"
proof -
  have "ss_stats (StatsSub_run keys ds s) = fold (\<lambda>m. bump (nm_type m)) (map snd ds) (ss_stats s)" for s
    by (induction ds arbitrary: s) (auto simp: StatsSub_run_def StatsSub_reports_cumulative)
  then show ?thesis by (simp add: stats_after_def StatsSub_new_def)
qed

section \<open>Properties\<close>

text \<open>
  An order book subscriber for an instrument (or for all, with 0) that received \<open>ms\<close> never
  asked to unsubscribe and counts exactly the messages of its instrument, in total and per kind,
  modulo 2^64.
\<close>

theorem order_book_counts:
  "let b = sub_state (deliver_all ms (OrderBookSubscriber i));
       mine = filter (\<lambda>m. i = 0 \<or> nm_instrument_id m = i) ms;
       n = (\<lambda>t. of_nat (length (filter (\<lambda>m. nm_type m = t) mine)))
   in ob_message_count b = of_nat (length mine) \<and> ob_add_count b = n NM_ORDER_ADD \<and>
      ob_execute_count b = n NM_ORDER_EXECUTE \<and> ob_cancel_count b = n NM_ORDER_MODIFY \<and>
      ob_delete_count b = n NM_ORDER_DELETE \<and> ob_trade_count b = n NM_TRADE \<and>
      (\<forall>m b. fst (OrderBook_on_message m b))"
  using OrderBook_run_counts[of ms "OrderBook_new i"]
  by (simp add: OrderBookSubscriber_def ISubscriber_defaults_def deliver_all_state Let_def
      OrderBook_run_def[symmetric] OrderBook_new_def count_of_filter concerns_def[abs_def] conj_commute)

text \<open>
  C36: what \<open>StatisticsSubscriber\<close> prints under the title \<open>last 5s\<close>.  A call of \<open>on_message\<close> within
  five seconds of the last report prints nothing.  Any other call prints one report, which covers all
  messages since the start, the current one included: its total is their number, it has one line for
  each type that occurred among them, and each line shows the number of messages of that type (all
  modulo 2^64) and their share.  The counters are never reset, whatever was printed before, whatever
  the clock readings and the iteration order of the map.
\<close>

theorem statistics_report_total:
  fixes deliveries :: "(int \<times> NormalizedMessage) list" and m :: NormalizedMessage and start now :: int
  assumes "iterates keys"
  defines "s \<equiv> StatsSub_run keys deliveries (StatsSub_new start)"
    and "ms \<equiv> map snd deliveries @ [m]"
  defines "s' \<equiv> snd (StatsSub_on_message keys now m s)"
    and "n \<equiv> \<lambda>t. length (filter (\<lambda>m. nm_type m = t) ms)"
  shows "if now - ss_last_print s < 5000000000 then ss_reports s' = ss_reports s
    else \<exists>ts. distinct ts \<and> set ts = nm_type ` set ms \<and> ss_last_print s' = now \<and>
      ss_reports s' = ss_reports s @ [nl @ ''--- Stats (last 5s) ---'' @ nl @
        ''Total: '' @ dec (length ms mod 2 ^ 64) @ '' messages'' @ nl @
        concat (map (\<lambda>t. ''  '' @ pad_left CHR '' '' 15 (get_type_name t) @ '': '' @
          pad_left CHR '' '' 8 (dec (n t mod 2 ^ 64)) @ '' ('' @
          fixed 1 (percentage (of_nat (n t)) (of_nat (length ms))) @ ''%)'' @ nl) ts) @
        replicate 30 CHR ''-'' @ nl]"
proof -
  have st: "bump (nm_type m) (ss_stats s) = stats_after ms"
    by (simp add: s_def ms_def StatsSub_run_stats) (simp add: stats_after_def)
  have dec: "dec_word (of_nat k :: u64) = dec (k mod 2 ^ 64)" for k by (simp add: dec_word_def unat_of_nat)
  have "distinct (keys (stats_after ms))" "set (keys (stats_after ms)) = nm_type ` set ms"
    using assms(1) by (simp_all add: iterates_def stats_after_dom)
  moreover have "print_stats (keys (stats_after ms)) (stats_after ms) = nl @ ''--- Stats (last 5s) ---'' @ nl @
        ''Total: '' @ dec (length ms mod 2 ^ 64) @ '' messages'' @ nl @
        concat (map (\<lambda>t. ''  '' @ pad_left CHR '' '' 15 (get_type_name t) @ '': '' @
          pad_left CHR '' '' 8 (dec (n t mod 2 ^ 64)) @ '' ('' @
          fixed 1 (percentage (of_nat (n t)) (of_nat (length ms))) @ ''%)'' @ nl) (keys (stats_after ms))) @
        replicate 30 CHR ''-'' @ nl"
    unfolding print_stats_def Let_def stats_total[OF assms(1)] stats_after_count dec n_def ..
  ultimately show ?thesis
    by (auto simp: s'_def StatsSub_on_message_def Let_def st simp del: append.simps)
qed

definition all_types :: "NmType list" where
  "all_types = [NM_UNKNOWN, NM_TRADE, NM_QUOTE, NM_ORDER_ADD, NM_ORDER_MODIFY, NM_ORDER_DELETE,
     NM_ORDER_EXECUTE, NM_IMBALANCE, NM_SYSTEM_EVENT]"

definition demo_keys :: "(NmType \<rightharpoonup> u64) \<Rightarrow> NmType list" where
  "demo_keys m = filter (\<lambda>t. m t \<noteq> None) all_types"

lemma all_types: "set all_types = UNIV" "distinct all_types"
  by (simp_all only: all_types_def list.set NmType_UNIV) simp

theorem statistics_report_total_witness:
  "\<exists>r lines. ss_reports (StatsSub_run demo_keys [(1, NormalizedMessage_default),
       (5000000000, NormalizedMessage_default), (5000000001, NormalizedMessage_default),
       (10000000000, NormalizedMessage_default)] (StatsSub_new 0)) =
     [r, nl @ ''--- Stats (last 5s) ---'' @ nl @ ''Total: 4 messages'' @ nl @ lines]"
proof -
  let ?m = NormalizedMessage_default
  let ?ds = "[(1, ?m), (5000000000, ?m), (5000000001 :: int, ?m)]"
  let ?s = "StatsSub_run demo_keys ?ds (StatsSub_new 0)"
  have it: "iterates demo_keys" by (simp add: iterates_def demo_keys_def dom_def all_types)
  have "ss_last_print ?s = 5000000000" "length (ss_reports ?s) = 1"
    by (simp_all add: StatsSub_run_def StatsSub_on_message_def StatsSub_new_def Let_def)
  moreover have "dec 4 = ''4''" by code_simp
  ultimately show ?thesis
    using statistics_report_total[OF it, where deliveries = ?ds and start = 0 and now = 10000000000 and m = ?m]
    by (auto simp: StatsSub_run_def length_Suc_conv)
qed

text \<open>
  C35: the printed lines are exact.  For every message the parser can produce, \<open>print_order\<close> and
  \<open>print_trade\<close> write the line shown here.  Although the price is divided as a \<open>double\<close>, it appears in
  units of 1/10000 digit by digit right after the dollar sign: the integer part, the point, and four
  digits that read back as the rest; no sign is printed.
\<close>

theorem printed_price_exact:
  assumes "conforms m"
  shows "\<exists>f. length f = 4 \<and> read_digits 0 f = (unat (nm_price m) mod 10000, []) \<and>
    print_order m action = ''['' @ action @ ''] Instrument: '' @ dec (unat (nm_instrument_id m)) @
      '' Order: '' @ dec (unat (nm_order_id m)) @ '' Side: '' @ (if nm_side m = 0 then ''BUY'' else ''SELL'') @
      '' Qty: '' @ dec (unat (nm_quantity m)) @
      '' Price: $'' @ dec (unat (nm_price m) div 10000) @ ''.'' @ f @ nl \<and>
    print_trade m = ''[TRADE] Instrument: '' @ dec (unat (nm_instrument_id m)) @
      '' Side: '' @ (if nm_side m = 0 then ''BUY'' else ''SELL'') @ '' Qty: '' @ dec (unat (nm_quantity m)) @
      '' Price: $'' @ dec (unat (nm_price m) div 10000) @ ''.'' @ f @ nl"
proof -
  have s: "sint (nm_price m) = int (unat (nm_price m))" using conforms_price(1)[OF assms] .
  have "unat (nm_price m) < 2 ^ 52" using assms by (simp add: conforms_def)
  from fixed_quotient[OF this, of 4]
  have p: "price_text (nm_price m) = decimal 4 (unat (nm_price m))" unfolding price_text_def s by simp
  obtain f where "decimal 4 (unat (nm_price m)) = dec (unat (nm_price m) div 10000) @ ''.'' @ f"
    "length f = 4" "read_digits 0 f = (unat (nm_price m) mod 10000, [])"
    using decimal_parts[of 4 "unat (nm_price m)"] by auto
  then show ?thesis
    by (intro exI[of _ f]) (simp add: print_order_def print_trade_def p dec_word_def side_text_def)
qed

theorem printed_price_exact_witness:
  "\<exists>f. print_trade (NormalizedMessage_default\<lparr>nm_price := 1500001\<rparr>) =
       ''[TRADE] Instrument: 0 Side: BUY Qty: 0 Price: $150.'' @ f @ nl \<and>
     length f = 4 \<and> read_digits 0 f = (1, [])"
proof -
  have "dec 0 = ''0''" "dec 150 = ''150''" by code_simp+
  then show ?thesis
    using printed_price_exact[of "NormalizedMessage_default\<lparr>nm_price := 1500001\<rparr>" "''ADD''"]
    by (auto simp: conforms_def NormalizedMessage_default_def)
qed

end
