(* ===== verification/Example_Apps.thy ===== *)
theory Example_Apps
  imports Engine_Threads Example_Subscribers
begin

text \<open>
  The \<open>main\<close> functions of \<open>examples/itch50_example.cpp\<close> and \<open>examples/basic_example.cpp\<close>: arguments
  and configuration, the calls that get the engine running, and the main thread afterwards (waiting,
  printing statistics, stopping) interleaved with the threads of the engine and the signal handler.
  Statistics lines are recorded as the values they show.
\<close>

section \<open>Configuration\<close>

definition itch_app_config :: "string \<Rightarrow> int \<Rightarrow> CoreConfig" where
  "itch_app_config multicast_group port =
     CoreConfig_default\<lparr>cc_network := UDPConfig_default\<lparr>uc_multicast_group := multicast_group,
         uc_port := word_of_int port\<rparr>,
       cc_network_thread_cpu := 2, cc_parser_thread_cpu := 3, cc_dispatcher_thread_cpu := 4,
       cc_max_messages_per_packet := 100\<rparr>"

definition basic_app_config :: CoreConfig where
  "basic_app_config = CoreConfig_default\<lparr>cc_network := UDPConfig_default\<lparr>uc_interface_ip := ''0.0.0.0'',
     uc_multicast_group := ''239.1.1.1'', uc_port := 10000\<rparr>\<rparr>"

text \<open>The subscribers of both classes in one list; the second carries its clock readings.\<close>

datatype example_state = Book OrderBook | Stats "nat \<Rightarrow> int" nat StatsSub

definition book_subscriber :: "u64 \<Rightarrow> example_state ISubscriber" where
  "book_subscriber i =
     (let sub = OrderBookSubscriber i in
      \<lparr>sub_name = sub_name sub,
       sub_on_message = (\<lambda>m x. case x of
           Book b \<Rightarrow> (case sub_on_message sub m b of (r, b) \<Rightarrow> (r, Book b)) | _ \<Rightarrow> (True, x)),
       sub_on_raw_packet = (\<lambda>v x. x), sub_initialize = (\<lambda>x. x),
       sub_shutdown = (\<lambda>x. case x of Book b \<Rightarrow> Book (sub_shutdown sub b) | _ \<Rightarrow> x),
       sub_state = Book (sub_state sub)\<rparr>)"

definition StatisticsSubscriber ::
  "((NmType \<rightharpoonup> u64) \<Rightarrow> NmType list) \<Rightarrow> int \<Rightarrow> (nat \<Rightarrow> int) \<Rightarrow> example_state ISubscriber" where
  "StatisticsSubscriber keys start clock = ISubscriber_defaults ''StatisticsSubscriber''
     (\<lambda>m x. case x of
         Stats clock n s \<Rightarrow> (case StatsSub_on_message keys (clock n) m s of
           (r, s) \<Rightarrow> (r, Stats clock (Suc n) s))
       | _ \<Rightarrow> (True, x))
     (Stats clock 0 (StatsSub_new start))"

section \<open>The main thread\<close>

datatype app_pc = A_Test | A_Sleep | A_Stopping | A_Exit int

datatype app_out = Text string | Stats_line Statistics | Final_stats Statistics

record ('p, 's) app =
  ap_engine :: "('p, 's) engine_sys"
  ap_running :: bool
  ap_pc :: app_pc
  ap_counter :: int
  ap_out :: "app_out list"

text \<open>The engine object as \<open>get_stats\<close> finds it.\<close>

definition engine_now :: "CoreConfig \<Rightarrow> ('p, 's) engine_sys \<Rightarrow> ('p, 's) CoreEngine" where
  "engine_now config s = \<lparr>ce_config = config, ce_receiver = es_receiver s,
     ce_dispatcher = ds_disp (es_disp s), ce_parser = Some (es_parser s),
     ce_joinable = (es_spc s \<in> {S_Idle, S_Parse}), ce_running = es_running s, ce_stats = es_stats s\<rparr>"

text \<open>
  \<open>every\<close> is the number of rounds between statistics lines: 10 in the ITCH example, 1 in the basic
  one.  \<open>stopping\<close> is the text written before \<open>stop\<close>.
\<close>

inductive app_step :: "CoreConfig \<Rightarrow> int \<Rightarrow> string \<Rightarrow> ('p, 's) app \<Rightarrow> ('p, 's) app \<Rightarrow> bool"
  for config every stopping where
  app_engine:
    "engine_step (ap_engine a) es' \<Longrightarrow> (es_spc (ap_engine a) = S_Idle \<longrightarrow> es_spc es' = S_Idle) \<Longrightarrow>
     app_step config every stopping a (a\<lparr>ap_engine := es'\<rparr>)"
| app_signal:
    "app_step config every stopping a (a\<lparr>ap_running := False\<rparr>)"
| app_test:
    "ap_pc a = A_Test \<Longrightarrow> ap_running a \<Longrightarrow> app_step config every stopping a (a\<lparr>ap_pc := A_Sleep\<rparr>)"
| app_tick:
    "ap_pc a = A_Sleep \<Longrightarrow> c = ap_counter a + 1 \<Longrightarrow>
     app_step config every stopping a (a\<lparr>ap_pc := A_Test, ap_counter := c, ap_out := ap_out a @
       (if c mod every = 0
        then [Stats_line (CoreEngine_get_stats (engine_now config (ap_engine a)))] else [])\<rparr>)"
| app_stop:
    "ap_pc a = A_Test \<Longrightarrow> \<not> ap_running a \<Longrightarrow> es_spc (ap_engine a) = S_Idle \<Longrightarrow>
     engine_step (ap_engine a) es' \<Longrightarrow> es_spc es' = S_Parse \<Longrightarrow>
     app_step config every stopping a (a\<lparr>ap_pc := A_Stopping, ap_engine := es',
       ap_out := ap_out a @ [Text stopping]\<rparr>)"
| app_exit:
    "ap_pc a = A_Stopping \<Longrightarrow> es_spc (ap_engine a) = S_Done \<Longrightarrow>
     app_step config every stopping a (a\<lparr>ap_pc := A_Exit 0, ap_out := ap_out a @
       [Final_stats (CoreEngine_get_stats (engine_now config (ap_engine a)))]\<rparr>)"

inductive app_reach :: "CoreConfig \<Rightarrow> int \<Rightarrow> string \<Rightarrow> ('p, 's) app \<Rightarrow> ('p, 's) app \<Rightarrow> bool"
  for config every stopping a0 where
  app_start: "app_reach config every stopping a0 a0"
| app_next: "app_reach config every stopping a0 a \<Longrightarrow> app_step config every stopping a a' \<Longrightarrow>
    app_reach config every stopping a0 a'"

definition app_running :: "('p, 's) engine_sys \<Rightarrow> app_out list \<Rightarrow> ('p, 's) app" where
  "app_running s out = \<lparr>ap_engine = s, ap_running = True, ap_pc = A_Test, ap_counter = 0, ap_out = out\<rparr>"

definition itch_app_reach :: "CoreConfig \<Rightarrow> ('p, 's) app \<Rightarrow> ('p, 's) app \<Rightarrow> bool" where
  "itch_app_reach config = app_reach config 10 (nl @ ''Shutting down...'' @ nl)"

definition basic_app_reach :: "('p, 's) app \<Rightarrow> ('p, 's) app \<Rightarrow> bool" where
  "basic_app_reach = app_reach basic_app_config 1 (nl @ ''Stopping...'' @ nl)"

text \<open>
  \<open>main\<close> up to the waiting loop: \<open>Inl\<close> the exit code and what went to the two streams, or \<open>Inr\<close> the running
  program.  \<open>None\<close> is undefined behaviour of \<open>atoi\<close> or \<open>atoll\<close>, or an exception nobody catches.
\<close>

definition itch_app_main :: "string list \<Rightarrow> bytes \<Rightarrow> bytes \<Rightarrow> ((NmType \<rightharpoonup> u64) \<Rightarrow> NmType list) \<Rightarrow> int \<Rightarrow>
    (nat \<Rightarrow> int) \<Rightarrow> OS \<Rightarrow> ((int \<times> string \<times> string) + CoreConfig \<times> (ItchParser, example_state) app) option" where
  "itch_app_main argv junk junk' keys start clock os = do {
     let multicast_group = arg_str argv 1 ''233.54.12.1'';
     port \<leftarrow> arg_int argv 2 20000;
     instrument_filter \<leftarrow> (if length argv > 3 then atoll (argv ! 3) else Some 0);
     let instrument_filter = (word_of_int instrument_filter :: u64);
     let out = ''HFT Core - ITCH 5.0 Example'' @ nl @ ''============================'' @ nl @ nl @
       ''Configuration:'' @ nl @ ''  Multicast Group: '' @ multicast_group @ nl @
       ''  Port: '' @ dec_int port @ nl @
       (if instrument_filter > 0 then ''  Instrument Filter: '' @ dec_word instrument_filter @ nl
        else ''  Instrument Filter: ALL'' @ nl) @ nl;
     let config = itch_app_config multicast_group port;
     case engine_boot config junk (ItchParser_methods, ItchParser_new)
         [book_subscriber instrument_filter, StatisticsSubscriber keys start clock] os of
       Inl err \<Rightarrow> None
     | Inr (ok, e) \<Rightarrow>
         if \<not> ok then Some (Inl (1, out, ''Failed to initialize core engine'' @ nl))
         else Some (Inr (config, app_running (engine_threads junk' (ItchParser_methods, ItchParser_new) e)
           [Text out, Text (''Listening for ITCH 5.0 messages...'' @ nl @ ''Press Ctrl+C to stop'' @ nl @ nl)]))
   }"

definition basic_app_main :: "bytes \<Rightarrow> bytes \<Rightarrow> OS \<Rightarrow> ((int \<times> string \<times> string) + (u64, PrintSub) app) option" where
  "basic_app_main junk junk' os =
     (let config = basic_app_config;
          out = ''HFT Core - Basic Example'' @ nl @ ''========================'' @ nl @ nl in
      case engine_boot_default config junk [PrintSubscriber] os of
        Inl err \<Rightarrow> None
      | Inr (ok, e) \<Rightarrow>
          if \<not> ok then Some (Inl (1, out, ''Failed to initialize core engine'' @ nl))
          else Some (Inr (app_running (engine_threads junk' (EchoParser, 0) e)
            [Text out,
             Text (''Listening on '' @ uc_multicast_group (cc_network config) @ '':'' @
               dec_word (uc_port (cc_network config)) @ nl @
               ''Subscribers: '' @ dec_word (CoreEngine_subscriber_count e) @ nl @
               ''Press Ctrl+C to stop'' @ nl @ nl)])))"

section \<open>Reachable states\<close>

definition app_inv :: "CoreConfig \<Rightarrow> ('p, 's) engine_sys \<Rightarrow> ('p, 's) app \<Rightarrow> bool" where
  "app_inv config s0 a \<longleftrightarrow> engine_reach s0 (ap_engine a) \<and>
     (es_spc (ap_engine a) = S_Idle \<longleftrightarrow> ap_pc a \<in> {A_Test, A_Sleep}) \<and>
     (ap_pc a \<in> {A_Test, A_Sleep} \<or> \<not> ap_running a) \<and>
     (\<forall>c. ap_pc a = A_Exit c \<longrightarrow> c = 0 \<and> es_spc (ap_engine a) = S_Done \<and>
       (\<exists>out. ap_out a = out @ [Final_stats (CoreEngine_get_stats (engine_now config (ap_engine a)))]))"

lemma spc_leaves_idle: "engine_step s s' \<Longrightarrow> es_spc s \<noteq> S_Idle \<Longrightarrow> es_spc s' \<noteq> S_Idle"
  by (auto elim!: engine_step.cases)

lemma app_inv_step:
  assumes "app_step config every stopping a a'" "app_inv config s0 a"
    and final: "\<And>s s'. engine_reach s0 s \<Longrightarrow> es_spc s = S_Done \<Longrightarrow> \<not> engine_step s s'"
  shows "app_inv config s0 a'"
  using assms(1)
proof cases
  case (app_engine es')
  have "\<not> (\<exists>c. ap_pc a = A_Exit c)" using app_engine assms(2) final by (auto simp: app_inv_def)
  then show ?thesis using app_engine assms(2) spc_leaves_idle[OF app_engine(2)]
    by (auto simp: app_inv_def intro: reach_engine_step)
next
  case (app_stop es')
  then show ?thesis using assms(2) by (auto simp: app_inv_def intro: reach_engine_step)
qed (use assms(2) in \<open>auto simp: app_inv_def\<close>)

lemma app_reach_inv:
  assumes "app_reach config every stopping (app_running s0 out) a" "es_spc s0 = S_Idle"
    and ctl: "\<And>s. engine_reach s0 s \<Longrightarrow> control_inv s"
  shows "app_inv config s0 a"
  using assms(1)
proof induction
  case app_start
  then show ?case using assms(2) by (simp add: app_inv_def app_running_def reach_start)
next
  case (app_next a a')
  then show ?case using app_inv_step done_no_step ctl by blast
qed

lemma engine_reach_trans: "engine_reach s1 s2 \<Longrightarrow> engine_reach s0 s1 \<Longrightarrow> engine_reach s0 s2"
  by (induction rule: engine_reach.induct) (auto intro: engine_reach.intros)

text \<open>Engine steps after \<open>stop\<close> was called are steps of the program.\<close>

lemma app_lift:
  assumes "engine_reach (ap_engine a) s" "es_spc (ap_engine a) \<noteq> S_Idle" "app_reach config every stopping a0 a"
  shows "es_spc s \<noteq> S_Idle \<and> app_reach config every stopping a0 (a\<lparr>ap_engine := s\<rparr>)"
  using assms(1)
proof induction
  case reach_start
  then show ?case using assms(2,3) by simp
next
  case (reach_engine_step s s')
  then show ?case
    using app_next[OF _ app_step.app_engine[of "a\<lparr>ap_engine := s\<rparr>" s']] spc_leaves_idle[of s s'] by simp
qed

section \<open>What the programs report\<close>

lemma done_delivered:
  assumes "delivery_inv subs s" "es_spc s = S_Done"
  shows "i < length subs \<Longrightarrow> d_subscribers (ds_disp (es_disp s)) ! i =
      shutdown_sub (deliver_all (ds_delivered (es_disp s) ! i) (initialize_sub (subs ! i)))"
    "i < length subs \<Longrightarrow> subseq (ds_delivered (es_disp s) ! i) (ds_dispatched (es_disp s))"
proof -
  assume i: "i < length subs"
  note d = delivery_inv_subscriber[OF assms(1) i]
  show "d_subscribers (ds_disp (es_disp s)) ! i =
      shutdown_sub (deliver_all (ds_delivered (es_disp s) ! i) (initialize_sub (subs ! i)))"
    using d(2) assms(2) by simp
  have "subseq (ds_delivered (es_disp s) ! i) (ds_accepted (es_disp s) ! i)"
    using d(1) by (metis list_emb_append2 subseq_order.order_refl subseq_rev_drop_many)
  then show "subseq (ds_delivered (es_disp s) ! i) (ds_dispatched (es_disp s))"
    using d(3) by (rule subseq_order.order_trans)
qed

lemma final_stats:
  fixes config :: CoreConfig
  assumes "control_inv s" "packets_inv s" "delivery_inv subs s" "messages_inv parse slots p0 s" "es_spc s = S_Done"
  defines "st \<equiv> CoreEngine_get_stats (engine_now config s)"
  shows "packets_received st = of_nat (length (es_accepted s))"
    "packets_dropped st = of_nat (length (es_arrived s) - length (es_accepted s))"
    "messages_parsed st = of_nat (length (ds_dispatched (es_disp s)))"
    "messages_dispatched st = of_nat (length (ds_dispatched (es_disp s)))"
  using assms(2,4) done_dispatched[OF assms(1,3,5)] done_threads[OF assms(1,5)]
  by (simp_all add: st_def CoreEngine_get_stats_def engine_now_def Let_def packets_inv_def messages_inv_def)

lemma deliver_all_shutdown [simp]: "sub_shutdown (deliver_all ms sub) = sub_shutdown sub"
  by (induction ms arbitrary: sub) (simp_all, simp add: on_message_def split: prod.split)

lemma book_state:
  "sub_state (shutdown_sub (deliver_all ms (initialize_sub (book_subscriber i)))) =
     Book (OrderBook_shutdown (OrderBook_run ms (OrderBook_new i)))"
proof -
  have "fold (\<lambda>m x. snd (sub_on_message (book_subscriber i) m x)) ms (Book b) = Book (OrderBook_run ms b)" for b
    unfolding OrderBook_run_def
    by (induction ms arbitrary: b)
      (simp_all add: book_subscriber_def OrderBookSubscriber_def ISubscriber_defaults_def Let_def split_beta)
  then show ?thesis
    by (simp add: shutdown_sub_def initialize_sub_def deliver_all_state)
      (simp add: book_subscriber_def OrderBookSubscriber_def ISubscriber_defaults_def Let_def)
qed

lemma stats_state:
  "\<exists>s. sub_state (shutdown_sub (deliver_all ms (initialize_sub (StatisticsSubscriber keys start clock)))) =
     Stats clock (length ms) s \<and> ss_stats s = stats_after ms"
proof -
  let ?sub = "StatisticsSubscriber keys start clock"
  have step: "\<exists>s'. snd (sub_on_message ?sub m (Stats clock n s)) = Stats clock (Suc n) s' \<and>
      ss_stats s' = bump (nm_type m) (ss_stats s)" for m n s
    using StatsSub_reports_cumulative[of keys "clock n" m s]
    by (simp add: StatisticsSubscriber_def ISubscriber_defaults_def split_beta)
  have "\<exists>s'. fold (\<lambda>m x. snd (sub_on_message ?sub m x)) ms (Stats clock n s) = Stats clock (n + length ms) s' \<and>
      ss_stats s' = fold (\<lambda>m. bump (nm_type m)) ms (ss_stats s)" for n s
  proof (induction ms arbitrary: n s)
    case (Cons m ms)
    obtain s1 where "snd (sub_on_message ?sub m (Stats clock n s)) = Stats clock (Suc n) s1"
      "ss_stats s1 = bump (nm_type m) (ss_stats s)" using step by blast
    with Cons.IH[of "Suc n" s1] show ?case by simp
  qed simp
  from this[of 0 "StatsSub_new start"] show ?thesis
    by (simp add: shutdown_sub_def initialize_sub_def deliver_all_state stats_after_def)
      (simp add: StatisticsSubscriber_def ISubscriber_defaults_def StatsSub_new_def)
qed

definition book_closed :: "NormalizedMessage list \<Rightarrow> OrderBook \<Rightarrow> bool" where
  "book_closed ms b \<longleftrightarrow> last (ob_printed b) = OrderBook_report b \<and>
     ob_message_count b = of_nat (length (filter (concerns (ob_instrument_id b)) ms)) \<and>
     ob_add_count b = of_nat (count_of (ob_instrument_id b) NM_ORDER_ADD ms) \<and>
     ob_execute_count b = of_nat (count_of (ob_instrument_id b) NM_ORDER_EXECUTE ms) \<and>
     ob_cancel_count b = of_nat (count_of (ob_instrument_id b) NM_ORDER_MODIFY ms) \<and>
     ob_delete_count b = of_nat (count_of (ob_instrument_id b) NM_ORDER_DELETE ms) \<and>
     ob_trade_count b = of_nat (count_of (ob_instrument_id b) NM_TRADE ms)"

lemma OrderBook_run_instrument: "ob_instrument_id (OrderBook_run ms b) = ob_instrument_id b"
  by (induction ms arbitrary: b) (simp_all add: OrderBook_run_def)

lemma book_closed_run:
  "book_closed ms (OrderBook_shutdown (OrderBook_run ms (OrderBook_new i)))"
  "ob_instrument_id (OrderBook_shutdown (OrderBook_run ms (OrderBook_new i))) = i"
  by (simp_all add: book_closed_def OrderBook_shutdown_def OrderBook_report_def OrderBook_run_instrument
      OrderBook_run_counts) (simp_all add: OrderBook_new_def)

text \<open>The default parser turns every packet into one message.\<close>

lemma echo_parse_all:
  assumes "\<forall>pk\<in>set pks. packet_ok pk" "0 < length slots" "length slots < 2 ^ 64"
  shows "\<exists>ws slots' p'. parse_all EchoParser_parse sq slots p pks = Some (ws, slots', p') \<and>
    map nm_quantity ws = map (\<lambda>pk. ucast (pk_length pk)) pks \<and> (\<forall>m\<in>set ws. nm_type m = NM_SYSTEM_EVENT)"
  using assms
proof (induction pks arbitrary: sq slots p)
  case (Cons pk pks)
  obtain x xs where sl: "slots = x # xs" using Cons.prems(2) by (cases slots) auto
  have "unat (of_nat (length slots) :: size_t) = length slots" using Cons.prems(3) by (simp add: unat_of_nat)
  then have mx: "(of_nat (length slots) :: size_t) \<noteq> 0" using Cons.prems(2) by auto
  have "is_valid (packet_view pk sq)" using packet_view_ok Cons.prems(1) by simp
  then obtain msg where e: "EchoParser_parse (packet_view pk sq) slots (of_nat (length slots)) p =
      Some (1, msg # xs, p + 1)" "nm_quantity msg = ucast (pk_length pk)" "nm_type msg = NM_SYSTEM_EVENT"
    using mx by (simp add: EchoParser_parse_def sl store_def packet_view_def)
  show ?case using Cons.IH[of "msg # xs" "sq + 1" "p + 1"] Cons.prems e by (auto simp: sl)
qed simp

lemma echo_engine_reach:
  assumes "engine_boot config junk (EchoParser, 0) subs os = Inr (True, e)"
    and "engine_reach (engine_threads junk' (EchoParser, 0) e) s" and "0 < length (parse_loop_messages e)"
  shows "control_inv s" "packets_inv s" "delivery_inv subs s"
    "messages_inv EchoParser_parse (parse_loop_messages e) 0 s"
    "map nm_quantity (ds_dispatched (es_disp s) @ undispatched s) = map (\<lambda>pk. ucast (pk_length pk)) (es_read s)"
proof -
  have m: "ip_parse EchoParser = EchoParser_parse" "ip_initialize EchoParser 0 = 0"
    by (simp_all add: EchoParser_def)
  have inv: "control_inv s \<and> packets_inv s \<and> delivery_inv subs s \<and>
      messages_inv EchoParser_parse (parse_loop_messages e) 0 s"
    using echo_parser.engine_reach_inv[OF assms(2) parse_loop_messages_bound[of e]]
      engine_threads_inv[OF assms(1), of junk'] unfolding m by blast
  then show "control_inv s" "packets_inv s" "delivery_inv subs s"
    "messages_inv EchoParser_parse (parse_loop_messages e) 0 s" by blast+
  have "\<forall>pk\<in>set (es_read s). packet_ok pk" using inv by (simp add: packets_inv_def)
  from echo_parse_all[OF this assms(3) parse_loop_messages_bound, of 0 0] inv
  show "map nm_quantity (ds_dispatched (es_disp s) @ undispatched s) = map (\<lambda>pk. ucast (pk_length pk)) (es_read s)"
    by (auto simp: messages_inv_def)
qed

definition PrintSub_run :: "NormalizedMessage list \<Rightarrow> PrintSub \<Rightarrow> PrintSub" where
  "PrintSub_run ms s = fold (\<lambda>m s. snd (PrintSub_on_message m s)) ms s"

lemma PrintSub_run_count: "ps_message_count (PrintSub_run ms s) = ps_message_count s + of_nat (length ms)"
  by (induction ms arbitrary: s) (simp_all add: PrintSub_run_def PrintSub_on_message_def Let_def)

lemma printsub_state:
  "sub_state (shutdown_sub (deliver_all ms (initialize_sub PrintSubscriber))) =
     PrintSub_shutdown (PrintSub_run ms PrintSub_new)"
  by (simp add: shutdown_sub_def initialize_sub_def deliver_all_state)
    (simp add: PrintSubscriber_def ISubscriber_defaults_def PrintSub_run_def)

text \<open>What \<open>itch_app_main\<close> starts.\<close>

lemma itch_app_main_started:
  assumes "itch_app_main argv junk junk' keys start clock os = Some (Inr (config, a0))"
  obtains (boot) e i out where
    "engine_boot config junk (ItchParser_methods, ItchParser_new)
       [book_subscriber (word_of_int i), StatisticsSubscriber keys start clock] os = Inr (True, e)"
    "a0 = app_running (engine_threads junk' (ItchParser_methods, ItchParser_new) e) out"
    "cc_max_messages_per_packet config = 100"
    "(if length argv > 3 then atoll (argv ! 3) else Some 0) = Some i"
  using assms
  by (auto simp: itch_app_main_def itch_app_config_def Let_def
      split: bind_splits sum.splits if_splits prod.splits)

lemma parse_loop_messages_boot:
  assumes "engine_boot config junk (ips, p) subs os = Inr (True, e)"
  shows "parse_loop_messages e = replicate (unat (cc_max_messages_per_packet config)) NormalizedMessage_default"
  using assms by (auto simp: engine_boot_spec parse_loop_messages_def split: prod.splits)

text \<open>A program that has started can be made to exit.\<close>

lemma app_can_exit:
  assumes boot: "engine_boot config junk (ips, p) subs os = Inr (True, e)" and ini: "ip_initialize ips p = p"
    and inv: "\<And>s. engine_reach (engine_threads junk' (ips, p) e) s \<Longrightarrow> packets_inv s"
  shows "\<exists>a. app_reach config' every stopping (app_running (engine_threads junk' (ips, p) e) out) a \<and>
    ap_pc a = A_Exit 0"
proof -
  let ?s0 = "engine_threads junk' (ips, p) e" let ?a0 = "app_running ?s0 out"
  have "control_inv ?s0" using engine_threads_inv[OF boot, of junk'] by (simp add: ini)
  then have f: "es_spc ?s0 = S_Idle" "es_running ?s0" "ur_running (es_receiver ?s0)"
    "d_running (ds_disp (es_disp ?s0))" "es_ppc ?s0 = E_Test" "ds_dpc (es_disp ?s0) = D_Idle"
    "ds_lpc (es_disp ?s0) = L_Test"
    by (simp_all add: control_inv_def engine_threads_def)
  let ?s1 = "?s0\<lparr>es_rpc := R_Recv\<rparr>"
  let ?s2 = "?s1\<lparr>es_running := False, es_spc := S_Parse\<rparr>"
  have e1: "engine_step ?s0 ?s1" using f(3) by (intro recv_enter) (simp_all add: engine_threads_def)
  have e2: "engine_step ?s1 ?s2" using f(1,2) by (intro stop_call) simp_all
  have a1: "app_reach config' every stopping ?a0 (?a0\<lparr>ap_engine := ?s1\<rparr>)"
    using app_next[OF app_start app_step.app_engine[of ?a0 ?s1]] e1 f(1) by (simp add: app_running_def)
  note a2 = app_next[OF a1 app_signal]
  let ?a3 = "?a0\<lparr>ap_engine := ?s2, ap_running := False, ap_pc := A_Stopping, ap_out := out @ [Text stopping]\<rparr>"
  have a3: "app_reach config' every stopping ?a0 ?a3"
    using app_next[OF a2 app_step.app_stop[of _ ?s2]] e2 f(1) by (simp add: app_running_def)
  obtain s' where s': "engine_reach ?s2 s'" "es_spc s' = S_Done"
  proof -
    obtain s where s: "engine_reach ?s2 s" "es_spc s = S_Receiver" "es_rpc s = R_Recv"
      "\<not> ur_running (es_receiver s)"
      using stop_until_receiver[OF reach_start, of ?s2] f by fastforce
    have "engine_reach ?s0 s"
      by (intro engine_reach_trans[OF s(1)] reach_engine_step[OF reach_engine_step[OF reach_start e1] e2])
    from stop_after_receiver[OF s(1) inv[OF this] s(2-4)] that show ?thesis by blast
  qed
  have "app_reach config' every stopping ?a0 (?a3\<lparr>ap_engine := s'\<rparr>)"
    using app_lift[OF _ _ a3, of s'] s' by (simp add: app_running_def)
  from app_next[OF this app_step.app_exit] s'(2) show ?thesis by (fastforce simp: app_running_def)
qed

lemma initialize_identity: "ip_initialize ItchParser_methods p = p" "ip_initialize EchoParser n = n"
  by (simp_all add: ItchParser_methods_def EchoParser_def)

lemma demo_os_boots: "\<exists>e. engine_boot config junk (ips, p) subs demo_os = Inr (True, e)"
proof -
  obtain r where "booted_receiver config junk demo_os = (True, r)"
    by (cases "booted_receiver config junk demo_os") (simp add: booted_receiver_def initialize_success demo_os_def)
  then show ?thesis by (simp add: engine_boot_spec)
qed

section \<open>Properties\<close>



text \<open>
  C34: the basic example runs the engine with its default parser.  When \<open>main\<close> returns it returns 0, a
  signal has been received, and its final statistics count every packet the ring accepted as received
  and every packet read as one message parsed and dispatched.  The subscriber has been shut down, its
  counter and its last line are the number of messages that were delivered to it, and these are a
  subsequence of the messages dispatched, which carry the lengths of the packets read.
\<close>

theorem basic_app_exit:
  assumes "basic_app_main junk junk' os = Some (Inr a0)"
    and "basic_app_reach a0 a" and "ap_pc a = A_Exit c"
  defines "delivered \<equiv> ds_delivered (es_disp (ap_engine a)) ! 0"
    and "subscriber \<equiv> sub_state (d_subscribers (ds_disp (es_disp (ap_engine a))) ! 0)"
  shows "c = 0 \<and> \<not> ap_running a \<and>
    (\<exists>out st. ap_out a = out @ [Final_stats st] \<and>
      packets_received st = of_nat (length (es_accepted (ap_engine a))) \<and>
      packets_dropped st = of_nat (length (es_arrived (ap_engine a)) - length (es_accepted (ap_engine a))) \<and>
      messages_parsed st = of_nat (length (es_read (ap_engine a))) \<and>
      messages_dispatched st = of_nat (length (es_read (ap_engine a)))) \<and>
    map nm_quantity (ds_dispatched (es_disp (ap_engine a))) =
      map (\<lambda>pk. ucast (pk_length pk)) (es_read (ap_engine a)) \<and>
    subseq delivered (ds_dispatched (es_disp (ap_engine a))) \<and>
    ps_message_count subscriber = of_nat (length delivered) \<and>
    last (ps_printed subscriber) = ''Total messages received: '' @ dec (length delivered mod 2 ^ 64) @ nl"
proof -
  obtain e out where boot: "engine_boot basic_app_config junk (EchoParser, 0) [PrintSubscriber] os = Inr (True, e)"
    and a0: "a0 = app_running (engine_threads junk' (EchoParser, 0) e) out"
    using assms(1) by (auto simp: basic_app_main_def engine_boot_default_echo Let_def
        split: sum.splits prod.splits if_splits)
  let ?s0 = "engine_threads junk' (EchoParser, 0) e" and ?t = "ap_engine a"
  have pos: "0 < length (parse_loop_messages e)"
    using parse_loop_messages_boot[OF boot] by (simp add: basic_app_config_def CoreConfig_default_def)
  have "app_inv basic_app_config ?s0 a"
    using app_reach_inv[OF assms(2)[unfolded basic_app_reach_def a0]] echo_engine_reach(1)[OF boot _ pos]
    by (simp add: engine_threads_def)
  then have reach: "engine_reach ?s0 ?t" and fin: "c = 0" "\<not> ap_running a" "es_spc ?t = S_Done"
    "\<exists>out. ap_out a = out @ [Final_stats (CoreEngine_get_stats (engine_now basic_app_config ?t))]"
    using assms(3) by (auto simp: app_inv_def)
  note inv = echo_engine_reach[OF boot reach pos]
  note st = final_stats[OF inv(1,2,3,4) fin(3), of basic_app_config]
  have q: "map nm_quantity (ds_dispatched (es_disp ?t)) = map (\<lambda>pk. ucast (pk_length pk)) (es_read ?t)"
    using inv(5) done_threads(9)[OF inv(1) fin(3)] by simp
  have n: "length (ds_dispatched (es_disp ?t)) = length (es_read ?t)" using arg_cong[OF q, of length] by simp
  note d = done_delivered[OF inv(3) fin(3), of 0, folded delivered_def]
  have sub: "subscriber = PrintSub_shutdown (PrintSub_run delivered PrintSub_new)"
    using d(1) by (simp add: subscriber_def printsub_state)
  have "ps_message_count (PrintSub_run delivered PrintSub_new) = of_nat (length delivered)"
    by (simp add: PrintSub_run_count PrintSub_new_def)
  then have "ps_message_count subscriber = of_nat (length delivered)"
    "last (ps_printed subscriber) = ''Total messages received: '' @ dec (length delivered mod 2 ^ 64) @ nl"
    by (simp_all add: sub PrintSub_shutdown_def dec_word_def unat_of_nat)
  moreover have "subseq delivered (ds_dispatched (es_disp ?t))" using d(2) by simp
  ultimately show ?thesis using fin(1,2,4) st q unfolding n by blast
qed

theorem basic_app_exit_witness:
  "\<exists>a0 a out st. basic_app_main [] [] demo_os = Some (Inr a0) \<and> basic_app_reach a0 a \<and>
     ap_pc a = A_Exit 0 \<and> ap_out a = out @ [Final_stats st] \<and>
     messages_parsed st = of_nat (length (es_read (ap_engine a)))"
proof -
  obtain e where boot: "engine_boot basic_app_config [] (EchoParser, 0) [PrintSubscriber] demo_os = Inr (True, e)"
    by (rule exE[OF demo_os_boots])
  have pos: "0 < length (parse_loop_messages e)"
    using parse_loop_messages_boot[OF boot] by (simp add: basic_app_config_def CoreConfig_default_def)
  obtain out where m: "basic_app_main [] [] demo_os =
      Some (Inr (app_running (engine_threads [] (EchoParser, 0) e) out))"
    using boot by (auto simp: basic_app_main_def engine_boot_default_echo Let_def)
  obtain a where "basic_app_reach (app_running (engine_threads [] (EchoParser, 0) e) out) a" "ap_pc a = A_Exit 0"
    using app_can_exit[OF boot initialize_identity(2), of "[]"] echo_engine_reach(2)[OF boot _ pos]
    unfolding basic_app_reach_def by blast
  with basic_app_exit[OF m this] m show ?thesis by blast
qed

end
