(* ===== verification/Spec2Isabelle.thy ===== *)
theory Spec2Isabelle
  imports SPSC_Concurrent MPSC_Queue MPSC_Concurrent Generator_Main Engine_Threads Parser_Registry
    Example_Apps
begin

text \<open>
  A verification development for winter-square, a header-only C++ library that receives market data
  over UDP multicast, parses it and distributes it to subscribers.

  \<^bold>\<open>The program.\<close>  A receive thread puts datagrams into a lock-free ring (\<open>UDPReceiver\<close>,
  \<open>core/network/udp_receiver.hpp\<close>).  The engine's parse thread (\<open>CoreEngine::parse_loop\<close>,
  \<open>core/core_engine.hpp\<close>) takes them out, hands them to a parser (\<open>IParser\<close>,
  \<open>core/parser/parser_interface.hpp\<close>; the ITCH 5.0 parser of \<open>protocols/itch50/\<close>) that fills an
  array of normalized messages, and dispatches each message into one lock-free ring per subscriber
  (\<open>Dispatcher::dispatch\<close>, \<open>core/distribution/dispatcher.hpp\<close>).  A third thread delivers from the
  rings to the subscribers.  The rings are \<open>SPSCQueue\<close> of \<open>core/distribution/lockfree_queue.hpp\<close>;
  the same header has \<open>MPSCQueue\<close>.  \<open>examples/itch_generator.cpp\<close> produces the traffic.

  \<^bold>\<open>The theories.\<close>
  \<^item> \<open>Prelude\<close>: machine integers as words, bounds-checked loads and stores (\<open>None\<close> is undefined
    behaviour), masks, powers of two, circular buffers.
  \<^item> \<open>Core_Types\<close> (\<open>core/types.hpp\<close>): views, normalized messages, statistics with the average in
    \<open>double\<close>.
  \<^item> \<open>Queue_Interface\<close>: the abstract bounded FIFO queue and the locales \<open>budgeted_fifo\<close>, which
    \<open>MPSCQueue\<close> interprets with the number of calls left before its positions wrap, and
    \<open>bounded_fifo\<close>, a sublocale of it without that budget, which \<open>SPSCQueue\<close> interprets.
  \<^item> \<open>SPSC_Queue\<close>, \<open>SPSC_Concurrent\<close>: \<open>SPSCQueue\<close> operation by operation, then its two threads
    interleaved access by access, where a load may return any value coherence allows.
  \<^item> \<open>MPSC_Queue\<close>, \<open>MPSC_Concurrent\<close>: the same for \<open>MPSCQueue\<close> with any number of producers.
  \<^item> \<open>Itch_Messages\<close> (\<open>itch50_messages.hpp\<close>): big-endian readers, message types, packed layouts.
  \<^item> \<open>Parser_Interface\<close>: the parser interface, \<open>NullParser\<close>, \<open>EchoParser\<close> and the locale
    \<open>parser_contract\<close>, all the engine relies on.
  \<^item> \<open>Itch_Parser\<close> (\<open>itch50_parser.hpp\<close>): the ten handlers, \<open>parse_message\<close> and the packet loop;
    \<open>Itch_Spec\<close>: the wire format as a table, a reference parser on frames, and the refinement.
  \<^item> \<open>Message_Types\<close>: the ranges a message of each type conforms to.
  \<^item> \<open>Itch_Generator\<close>: writers, builders and one iteration of the sending loop; the locale
    \<open>be_codec\<close> is interpreted for the 16, 32 and 64 bit readers and writers.
  \<^item> \<open>Subscriber\<close>, \<open>Dispatcher\<close>, \<open>Dispatcher_Concurrent\<close>: subscriber objects, dispatching and
    delivering, first per thread, then interleaved.
  \<^item> \<open>Udp_Receiver\<close>: initialisation, life cycle, reception and reads.
  \<^item> \<open>Core_Engine\<close>: configuration, life cycle, the parse loop, combined statistics; its lemmas are
    proved once inside \<open>parser_contract\<close>.
  \<^item> \<open>Engine_Threads\<close>: the receive, parse and dispatcher threads and the thread inside \<open>stop\<close>
    interleaved (\<open>engine_step\<close>), from \<open>start\<close> to the end of \<open>stop\<close>.  The invariants
    \<open>control_inv\<close>, \<open>packets_inv\<close>, \<open>messages_inv\<close> and \<open>delivery_inv\<close> are proved once inside
    \<open>parser_contract\<close> and used for the ITCH parser and for \<open>EchoParser\<close>.
  \<^item> \<open>Parser_Registry\<close>: the factory registry.
  \<^item> \<open>Console\<close>, \<open>Floating\<close>: decimal text, \<open>atoi\<close>, \<open>snprintf\<close>; \<open>double\<close> arithmetic with its rounding
    and \<open>std::fixed\<close>, as the statistics and the example programs use them.
  \<^item> \<open>Udp_Sender\<close>, \<open>Generator_Main\<close>: the sending programs \<open>examples/udp_sender.cpp\<close> and
    \<open>examples/itch_generator.cpp\<close> from their arguments to their exit codes.
  \<^item> \<open>Example_Subscribers\<close>, \<open>Example_Apps\<close>: the subscribers of \<open>examples/itch50_example.cpp\<close> and
    \<open>examples/basic_example.cpp\<close> with the text they print, and the two \<open>main\<close> functions interleaved
    with the engine's threads and the signal handler (\<open>app_step\<close>).

  \<^bold>\<open>What is shown.\<close>  Both queues refine the abstract FIFO under every sequence of calls, and their
  concurrent executions deliver in order without loss, duplication or data race.  The ITCH parser
  computes exactly the reference parser's result on every byte sequence, without undefined behaviour
  and within its bounds, its messages conform to the wire format, and it inverts the generator's
  encoders.  The dispatcher delivers to every subscriber a prefix of what its queue accepted and
  accounts for every drop; the receiver hands out what it accepted with consecutive sequence numbers.
  The running engine composes these: in every interleaving of its threads the dispatched messages are
  what the reference parser decodes from the packets read, no thread blocks on another except in
  \<open>join\<close>, and after \<open>stop\<close> everything read has been dispatched and everything is shut down.  On top
  of it stand the example programs, whose final reports agree with what happened, and the generator,
  whose packets the theorem below follows to every subscriber.  Several theorems state where the code
  does not do what its comments say: a size constant that is off by one, queue sizes the assertion
  admits but the code cannot handle, fields of earlier packets that leak into later messages, an
  average that can lie below the minimum, sockets that are not closed, messages lost by \<open>stop\<close>, a
  \<open>stop\<close> that waits for the next datagram, a rate argument that divides by zero.

  \<^bold>\<open>Bounds.\<close>  Integers have the width of the source and wrap as there.  Loops terminate by a measure,
  except the draining loop of the dispatcher, which is a partial function shown to return.  The
  endless loops of the sending programs run over a list of answers of the operating system, of any
  length.  In \<open>MPSC_Concurrent\<close> the number of claimed positions is assumed below 2^63, where the code's
  signed comparison of positions is meaningful; at a billion pushes per second that is 292 years.
  Time points and the round counter of \<open>itch50_example.cpp\<close>, which ticks once a second, are unbounded.

  \<^bold>\<open>Interleaving.\<close>  In \<open>SPSC_Concurrent\<close> and \<open>MPSC_Concurrent\<close> a step is one access to shared
  memory.  \<open>spsc_step_queued\<close> and \<open>spsc_refusals\<close> of \<open>SPSC_Concurrent\<close> show how a queue looks from
  outside: \<open>push\<close> and \<open>pop\<close> take effect in one step, a \<open>push\<close> may report a queue as full that once had
  \<open>Size - 1\<close> items accepted, and a \<open>pop\<close> may report a queue as empty that is not, because the other
  thread's index was read late.  \<open>disp_step\<close> and \<open>engine_step\<close> have these steps, the late refusals
  included; a step there is one operation on a queue or one flag.  \<open>get_stats\<close> reads plain counters
  that other threads may be writing: in C++ a data race, here a read of the current values.

  \<^bold>\<open>Not modelled.\<close>  Thread creation, CPU affinity and yielding, cache-line alignment; the Windows
  branches; the \<open>SystemEvent\<close> enumeration, which no code uses; the test programs; empty
  \<open>std::function\<close> objects as parser factories; the operating system, whose results are arguments.  The
  statistics lines of the example programs are kept as the values they show, because the average is
  written in the default float format, which a subscriber's \<open>std::fixed\<close> on the same stream may change.
\<close>

section \<open>Properties that span the components\<close>

lemma drained_fresh:
  "length xs = length qs \<Longrightarrow> map f qs = replicate (length qs) ws \<Longrightarrow>
   map2 (\<lambda>x q. g (f q) x) xs qs = map (g ws) xs"
  by (induction xs qs rule: list_induct2) auto

lemma map_all_same: "\<forall>x\<in>set xs. x = a \<Longrightarrow> map f xs = replicate (length xs) (f a)"
  by (induction xs) auto

lemma dispatch_pass_uniform:
  assumes "disp_inv d" "map spsc_contents (d_queues d) = replicate (length (d_queues d)) ws" "ws \<noteq> []"
  shows "\<exists>d' act. dispatch_pass d = Some (d', act) \<and> d_stats d' = d_stats d \<and>
    act = (d_subscribers d' \<noteq> []) \<and> d_subscribers d' = map (deliver_all ws) (d_subscribers d)"
proof -
  have len: "length (d_subscribers d) = length (d_queues d)" using assms(1) by (simp add: disp_inv_length)
  obtain d' act where p: "dispatch_pass d = Some (d', act)"
    "d_subscribers d' = map2 (\<lambda>sub q. deliver_all (spsc_contents q) sub) (d_subscribers d) (d_queues d)"
    "act = (\<exists>q\<in>set (d_queues d). spsc_contents q \<noteq> [])" "d_stats d' = d_stats d"
    using dispatch_pass_spec[OF assms(1)] by blast
  have subs: "d_subscribers d' = map (deliver_all ws) (d_subscribers d)"
    using p(2) drained_fresh[OF len assms(2), of deliver_all] by simp
  have "\<forall>q\<in>set (d_queues d). spsc_contents q = ws"
    using arg_cong[OF assms(2), of set] by (auto simp: image_subset_iff split: if_splits)
  then have "act = (d_queues d \<noteq> [])" using p(3) assms(3) by (cases "d_queues d") auto
  also have "\<dots> = (d_subscribers d' \<noteq> [])" using subs len by auto
  finally show ?thesis using p subs by blast
qed

text \<open>
  A packet that decodes to \<open>ws\<close>, on its way from the socket through an engine with empty queues to
  the subscribers.
\<close>

lemma packet_through_engine:
  fixes e :: "(ItchParser, 's) CoreEngine"
  assumes e: "engine_inv e" "ce_parser e = Some (ItchParser_methods, p)" "rx_queue (ce_receiver e) = []"
    and empty: "\<forall>xs\<in>set (disp_contents (ce_dispatcher e)). xs = []"
    and buf: "length buf = MAX_PACKET_SIZE" "take (length packet) buf = packet" "0 < length packet"
      "length packet \<le> MAX_PACKET_SIZE"
    and dec: "ref_parse rx messages (frames packet) p = (ws, p)"
    and ws: "ws \<noteq> []" "length ws \<le> 65535" "length messages < 2 ^ 64"
  shows "\<exists>pk' r' view out e' d' act.
    receive_iteration (int (length packet)) buf rx pk (ce_receiver e) = Some (pk', r') \<and>
    parse_iteration clock raw messages (e\<lparr>ce_receiver := r'\<rparr>) = Some (view, out, e') \<and>
    dispatch_pass (ce_dispatcher e') = Some (d', act) \<and> act = (d_subscribers d' \<noteq> []) \<and>
    d_subscribers d' = map (deliver_all ws) (d_subscribers (ce_dispatcher e)) \<and>
    packets_dropped (d_stats d') = packets_dropped (d_stats (ce_dispatcher e)) \<and>
    packets_dropped (ur_stats r') = packets_dropped (ur_stats (ce_receiver e))"
proof -
  let ?rpk = "received_packet (int (length packet)) buf rx"
  have rok: "recv_ok (int (length packet)) buf" using buf by (simp add: recv_ok_def)
  obtain pk' r' where r: "receive_iteration (int (length packet)) buf rx pk (ce_receiver e) = Some (pk', r')"
    "rx_inv r'" "rx_queue r' = [?rpk]"
    and dr: "packets_dropped (ur_stats r') = packets_dropped (ur_stats (ce_receiver e))"
    using receive_iteration_room[OF _ rok, of "ce_receiver e" rx pk] e(1,3) buf
    by (auto simp: engine_inv_def)
  have bytes: "take (unat (pk_length ?rpk)) (pk_data ?rpk) = packet"
    using received_packet_ok(2)[OF rok, of rx] buf by (simp add: received_packet_def)
  have "ref_parse (pk_timestamp ?rpk) messages (frames (take (unat (pk_length ?rpk)) (pk_data ?rpk))) p = (ws, p)"
    using dec unfolding bytes by (simp add: received_packet_def)
  from engine_iteration_itch_spec[OF _ _ _ ws(3) this, of "e\<lparr>ce_receiver := r'\<rparr>" "[]" clock raw]
  obtain view out e' where it: "parse_iteration clock raw messages (e\<lparr>ce_receiver := r'\<rparr>) = Some (view, out, e')"
    "engine_inv e'" "d_subscribers (ce_dispatcher e') = d_subscribers (ce_dispatcher e)"
    "disp_contents (ce_dispatcher e') = map (queue_after ws) (disp_contents (ce_dispatcher e))"
    "packets_dropped (d_stats (ce_dispatcher e')) = packets_dropped (d_stats (ce_dispatcher e)) +
      of_nat (\<Sum>xs\<leftarrow>disp_contents (ce_dispatcher e). refused ws xs)"
    using e(1,2) r by (auto simp: engine_inv_def)
  have q: "queue_after ws [] = ws" "refused ws [] = 0"
    using ws(2) by (simp_all add: queue_after_def refused_def)
  have ct: "map spsc_contents (d_queues (ce_dispatcher e')) = replicate (length (d_queues (ce_dispatcher e'))) ws"
    using map_all_same[OF empty, of "queue_after ws"] it(4) q(1)
    by (simp add: disp_contents_def) (metis length_map length_replicate)
  have "(\<Sum>xs\<leftarrow>disp_contents (ce_dispatcher e). refused ws xs) = 0"
    using map_all_same[OF empty, of "refused ws"] q(2) by simp
  then have nd: "packets_dropped (d_stats (ce_dispatcher e')) = packets_dropped (d_stats (ce_dispatcher e))"
    unfolding it(5) by (simp only: semiring_1_class.of_nat_0 add_0_right)
  have "disp_inv (ce_dispatcher e')" using it(2) by (simp add: engine_inv_def)
  from dispatch_pass_uniform[OF this ct ws(1)] r(1) it(1) dr nd
  show ?thesis unfolding it(3)[symmetric] nd[symmetric] by metis
qed

text \<open>
  C6: a packet of the generator reaches every subscriber.  For draws in the generator's ranges, at
  most one per slot of the engine's message array and few enough to fit the receive buffer, and an
  engine with empty queues: the packet the generator sends, received into the buffer, read and parsed
  by one iteration of the engine and delivered by one pass of the dispatcher, makes every
  subscriber receive exactly the drawn messages, in order, and nothing is dropped.
\<close>

theorem generated_packet_reaches_subscribers:
  fixes e :: "(ItchParser, 's) CoreEngine"
  assumes "\<forall>d\<in>set draws. draw_ok d" "draws \<noteq> []" "\<forall>pk. 0 \<le> sendto pk"
    and "48 * length draws \<le> MAX_PACKET_SIZE"
    and "length draws \<le> length messages" "length messages < 2 ^ 64"
    and "engine_inv e" "ce_parser e = Some (ItchParser_methods, p)"
    and "rx_queue (ce_receiver e) = []" "\<forall>xs\<in>set (disp_contents (ce_dispatcher e)). xs = []"
  shows "\<exists>packet g'. gen_iteration nanos draws sendto g = Some (packet, True, g') \<and>
    length packet \<le> 48 * length draws \<and>
    (\<forall>buf. length buf = MAX_PACKET_SIZE \<and> take (length packet) buf = packet \<longrightarrow>
      (\<exists>pk' r' view out e' d' act.
        receive_iteration (int (length packet)) buf rx pk (ce_receiver e) = Some (pk', r') \<and>
        parse_iteration clock raw messages (e\<lparr>ce_receiver := r'\<rparr>) = Some (view, out, e') \<and>
        dispatch_pass (ce_dispatcher e') = Some (d', act) \<and> act = (d_subscribers d' \<noteq> []) \<and>
        d_subscribers d' = map (deliver_all (drawn_messages (nanos mod 86400000000000) rx draws g messages))
          (d_subscribers (ce_dispatcher e)) \<and>
        packets_dropped (d_stats d') = packets_dropped (d_stats (ce_dispatcher e)) \<and>
        packets_dropped (ur_stats r') = packets_dropped (ur_stats (ce_receiver e))))"
proof -
  let ?ws = "drawn_messages (nanos mod 86400000000000) rx draws g messages"
  obtain packet g' where gi: "gen_iteration nanos draws sendto g = Some (packet, True, g')"
    "length packet \<le> 48 * length draws" "packet \<noteq> []"
    and rp: "\<And>slots p. length draws \<le> length slots \<Longrightarrow> ref_parse rx slots (frames packet) p =
       (drawn_messages (nanos mod 86400000000000) rx draws g slots, p)"
    using assms(2) by (rule_tac gen_iteration_spec[OF assms(1,3), of nanos g rx]) blast
  have plen: "0 < length packet" "length packet \<le> MAX_PACKET_SIZE" using gi(2,3) assms(4) by simp_all
  have wlen: "length ?ws = length draws" using assms(5) by (rule length_drawn_messages)
  have small: "length ?ws \<le> 65535" using assms(4) by (simp add: wlen MAX_PACKET_SIZE_def)
  then have "?ws \<noteq> []" using wlen assms(2) by auto
  then show ?thesis
    using gi(1,2) packet_through_engine[OF assms(7-10) _ _ plen rp[OF assms(5)] _ small assms(6)] by blast
qed

definition demo_idle_engine :: "(ItchParser, NormalizedMessage list) CoreEngine" where
  "demo_idle_engine = \<lparr>ce_config = CoreConfig_default,
     ce_receiver = UDPReceiver_new UDPConfig_default [],
     ce_dispatcher = add_subscriber demo_sub Dispatcher_new,
     ce_parser = Some (ItchParser_methods, ItchParser_new), ce_joinable = False, ce_running = False,
     ce_stats = Statistics_init\<rparr>"

theorem generated_packet_reaches_subscribers_witness:
  "\<exists>packet g' pk' r' view out e' d' act.
     gen_iteration 5 demo_draws (\<lambda>_. 0) Generator_init = Some (packet, True, g') \<and>
     receive_iteration (int (length packet)) (packet @ replicate (MAX_PACKET_SIZE - length packet) 0) 1000
       (Packet_new []) (ce_receiver demo_idle_engine) = Some (pk', r') \<and>
     parse_iteration (\<lambda>j. 0) MessageView_default demo_slots (demo_idle_engine\<lparr>ce_receiver := r'\<rparr>) =
       Some (view, out, e') \<and>
     dispatch_pass (ce_dispatcher e') = Some (d', act) \<and> act \<and>
     d_subscribers d' = [deliver_all (drawn_messages 5 1000 demo_draws Generator_init demo_slots) demo_sub]"
proof -
  have e: "engine_inv demo_idle_engine" "rx_queue (ce_receiver demo_idle_engine) = []"
    "ce_parser demo_idle_engine = Some (ItchParser_methods, ItchParser_new)"
    "disp_contents (ce_dispatcher demo_idle_engine) = [[]]"
    "d_subscribers (ce_dispatcher demo_idle_engine) = [demo_sub]"
    by (simp_all add: demo_idle_engine_def engine_inv_def rx_inv_new disp_contents_def)
      (simp_all add: add_subscriber_def Dispatcher_new_def fresh_queue)
  have len: "length demo_draws = 2" and ok: "\<forall>d\<in>set demo_draws. draw_ok d" "demo_draws \<noteq> []"
    by (simp_all add: demo_draws_def draw_ok_def NUM_STOCKS_def)
  have zero: "\<forall>pk. 0 \<le> (\<lambda>_ :: bytes. 0 :: int) pk" by simp
  have size: "48 * length demo_draws \<le> MAX_PACKET_SIZE" "length demo_draws \<le> length demo_slots"
    "length demo_slots < 2 ^ 64" by (simp_all add: len MAX_PACKET_SIZE_def)
  have empty: "\<forall>xs\<in>set (disp_contents (ce_dispatcher demo_idle_engine)). xs = []" by (simp add: e)
  note reach = generated_packet_reaches_subscribers[OF ok zero size e(1,3,2) empty,
      of 5 Generator_init 1000 "Packet_new []" "\<lambda>j. 0" MessageView_default]
  from reach show ?thesis
  proof (elim exE conjE, goal_cases)
    case (1 packet g')
    then show ?case
      using "1"(3)[rule_format, of "packet @ replicate (MAX_PACKET_SIZE - length packet) 0"] len
      by (fastforce simp: MAX_PACKET_SIZE_def e(5))
  qed
qed

end
